(* ===== verification/Prelude.thy ===== *)
theory Prelude
  imports Main "HOL-Library.Char_ord" "HOL-Library.List_Lexorder"
begin

text \<open>
  What every component shares: the model of Go error values and their chains
  (\<open>errors.Is\<close>, \<open>fmt.Errorf\<close> with a wrapped cause), the shape of a fallible
  operation on a state, the enumeration order of a Go map, instants of time, and the
  generic lemmas on maps, enumerations and sorted lists the components use.
\<close>

section \<open>Collections of facts\<close>

named_theorems handler_defs \<open>definitions of HTTP handlers and their helpers\<close>
named_theorems store_defs \<open>definitions of store operations\<close>

section \<open>Instants and fallible operations\<close>

text \<open>
  An instant (\<open>time.Time\<close>, always UTC in the code) is a number of nanoseconds since Go's
  zero time, so the zero value of the type is 0.
\<close>

type_synonym time = int

text \<open>
  A call that may fail and may change a state of type 's returns the error or the
  result, and the state after the call.
\<close>

type_synonym ('s, 'e, 'a) call = "'s \<Rightarrow> ('e + 'a) \<times> 's"

section \<open>Go errors\<close>

text \<open>
  The package-level error values the code compares with \<open>errors.Is\<close>: those of
  \<open>books\<close>, \<open>enrich\<close> and \<open>auth\<close>, the two of \<open>context\<close>, and the driver's
  "no rows".
\<close>

datatype sentinel =
    BookNotFound
  | InvalidISBN
  | EditionNotFound
  | NoCover
  | Unauthenticated
  | Forbidden
  | DeadlineExceeded
  | Canceled
  | NoRows

text \<open>
  An error is a sentinel, an opaque message, or a message that wraps another error
  (\<open>fmt.Errorf\<close> with the verb for wrapping).
\<close>

datatype go_error =
    Sentinel sentinel
  | Opaque string
  | Wrap string go_error

fun errors_Is :: "go_error \<Rightarrow> sentinel \<Rightarrow> bool" where
  "errors_Is (Sentinel s) t = (s = t)"
| "errors_Is (Opaque m) t = False"
| "errors_Is (Wrap m e) t = errors_Is e t"

lemma errors_Is_unique: "errors_Is e s \<Longrightarrow> errors_Is e t \<Longrightarrow> s = t"
  by (induction e) auto

section \<open>Enumerating a map\<close>

text \<open>
  Ranging over a Go map visits every key once, in an order the language leaves open. An
  operation that ranges over a map takes the order as an argument, and its theorems hold
  for every order that enumerates the map.
\<close>

definition enumerates :: "'k list \<Rightarrow> ('k \<rightharpoonup> 'v) \<Rightarrow> bool" where
  "enumerates ks m \<longleftrightarrow> distinct ks \<and> set ks = dom m"

lemma enumeratesI [intro]: "distinct ks \<Longrightarrow> set ks = dom m \<Longrightarrow> enumerates ks m"
  by (simp add: enumerates_def)

lemma enumerates_distinct [dest]: "enumerates ks m \<Longrightarrow> distinct ks"
  by (simp add: enumerates_def)

lemma enumerates_dom: "enumerates ks m \<Longrightarrow> set ks = dom m"
  by (simp add: enumerates_def)

lemma enumerates_mem: "enumerates ks m \<Longrightarrow> k \<in> set ks \<longleftrightarrow> (\<exists>v. m k = Some v)"
  by (auto simp: enumerates_def)

lemma enumerates_finite: "enumerates ks m \<Longrightarrow> finite (dom m)"
  by (metis enumerates_def List.finite_set)

lemma enumerates_same_dom: "dom m = dom m' \<Longrightarrow> enumerates ks m = enumerates ks m'"
  by (simp add: enumerates_def)

text \<open>The entries a filtered iteration collects, in the order of the iteration.\<close>

definition entries :: "'k list \<Rightarrow> ('k \<rightharpoonup> 'v) \<Rightarrow> 'v list" where
  "entries ks m = List.map_filter m ks"

lemma entries_Nil [simp]: "entries [] m = []"
  by (simp add: entries_def List.map_filter_simps)

lemma entries_Cons [simp]:
  "entries (k # ks) m = (case m k of None \<Rightarrow> entries ks m | Some v \<Rightarrow> v # entries ks m)"
  by (simp add: entries_def List.map_filter_simps split: option.split)

lemma set_entries: "set (entries ks m) = {v. \<exists>k \<in> set ks. m k = Some v}"
  by (induction ks) (auto split: option.splits)

lemma entries_map_option:
  "entries ks (\<lambda>k. map_option f (m k)) = map f (entries ks m)"
  by (induction ks) (auto split: option.splits)

lemma entries_cong: "(\<And>k. k \<in> set ks \<Longrightarrow> m k = m' k) \<Longrightarrow> entries ks m = entries ks m'"
  by (induction ks) (auto split: option.split)

section \<open>Sorted prefixes\<close>

text \<open>
  In a sorted list without duplicates, an element with at least \<open>n\<close> smaller elements is
  not among the first \<open>n\<close>.
\<close>

lemma not_in_sorted_prefix:
  fixes xs :: "'a::linorder list"
  assumes s: "sorted xs" and d: "distinct xs"
    and A: "A \<subseteq> set xs" "\<forall>a \<in> A. a < x" "n \<le> card A"
  shows "x \<notin> set (take n xs)"
proof
  assume x: "x \<in> set (take n xs)"
  then obtain i where i: "i < n" "i < length xs" "xs ! i = x"
    by (auto simp: in_set_conv_nth)
  have "A \<subseteq> set (take i xs)"
  proof
    fix a assume a: "a \<in> A"
    then obtain j where j: "j < length xs" "xs ! j = a"
      using A(1) by (metis in_set_conv_nth subsetD)
    have "\<not> i \<le> j"
      using sorted_nth_mono [OF s, of i j] i j a A(2) by fastforce
    then show "a \<in> set (take i xs)"
      using j by (auto simp: in_set_conv_nth intro!: exI [of _ j])
  qed
  then have "card A \<le> card (set (take i xs))"
    by (simp add: card_mono)
  also have "\<dots> \<le> i"
    by (metis card_length length_take min.bounded_iff)
  finally show False using A(3) i(1) by simp
qed

section \<open>Many different strings\<close>

text \<open>A supply of different strings for the concrete instances.\<close>

definition zeros :: "nat \<Rightarrow> string" where
  "zeros n = replicate n (CHR ''0'')"

lemma inj_zeros: "inj zeros"
  unfolding zeros_def by (rule injI) (metis length_replicate)

lemma zeros_Nil [simp]: "zeros n = [] \<longleftrightarrow> n = 0" "[] = zeros n \<longleftrightarrow> n = 0"
  by (auto simp: zeros_def)

end
