(* ===== verification/Enrich_Types.thy ===== *)
theory Enrich_Types
  imports Prelude
begin

text \<open>
  The vocabulary of package \<open>enrich\<close> (\<open>internal/enrich/provider.go\<close>): the enrichment
  status of an edition, the metadata and the cover a provider returns, a search result, and
  the interfaces \<open>Provider\<close> and \<open>Store\<close>. An interface value is the record of its methods;
  a type that embeds the interface extends the record.
\<close>

section \<open>Data\<close>

type_synonym status = string

definition StatusPending :: status where "StatusPending = ''pending''"
definition StatusEnriched :: status where "StatusEnriched = ''enriched''"
definition StatusFailed :: status where "StatusFailed = ''failed''"

lemma status_distinct [simp]:
  "StatusPending \<noteq> StatusEnriched" "StatusEnriched \<noteq> StatusPending"
  "StatusPending \<noteq> StatusFailed" "StatusFailed \<noteq> StatusPending"
  "StatusEnriched \<noteq> StatusFailed" "StatusFailed \<noteq> StatusEnriched"
  by (simp_all add: StatusPending_def StatusEnriched_def StatusFailed_def)

record metadata =
  m_Title :: string
  m_Author :: string
  m_Description :: string
  m_Publisher :: string
  m_PublishedDate :: string
  m_PageCount :: int

record cover =
  c_ContentType :: string
  c_Bytes :: string
  c_ETag :: string
  c_SourceURL :: string

record search_result =
  r_ISBN :: string
  r_Title :: string
  r_Author :: string
  r_Publisher :: string
  r_Year :: int

section \<open>Interfaces\<close>

text \<open>
  A provider answers one call with a value or an error. What it answers is decided by the
  network, so a call's answer is a function of the ISBN that the caller's theorems leave
  arbitrary.
\<close>

record provider =
  Lookup :: "string \<Rightarrow> go_error + metadata"
  FetchCover :: "string \<Rightarrow> go_error + cover"

text \<open>
  \<open>enrich.Store\<close>. The first argument of \<open>PendingEnrichment\<close> is the order in which the store
  enumerates its editions, the first of \<open>SaveEnrichment\<close> the instant the clock shows.
\<close>

record 's enrich_store_ops =
  PendingEnrichment :: "string list \<Rightarrow> int \<Rightarrow> ('s, go_error, string list) call"
  EditionStatus :: "string \<Rightarrow> ('s, go_error, status \<times> bool) call"
  SaveEnrichment :: "time \<Rightarrow> string \<Rightarrow> metadata option \<Rightarrow> status \<Rightarrow> ('s, go_error, unit) call"
  SaveCover :: "string \<Rightarrow> cover \<Rightarrow> ('s, go_error, unit) call"

text \<open>\<open>enrich.Enqueuer\<close>: one method that schedules an ISBN.\<close>

type_synonym 'w enqueuer = "string \<Rightarrow> 'w \<Rightarrow> 'w"

end
