(* ===== verification/Book.thy ===== *)
theory Book
  imports Enrich_Types
begin

text \<open>
  The book of the API (\<open>internal/books/book.go\<close>) and the rules both stores share: the
  title and author a nameless book takes from its edition, and the enrichment status a
  response carries.
\<close>

section \<open>The record\<close>

definition StatusToRead :: string where "StatusToRead = ''to_read''"
definition StatusReading :: string where "StatusReading = ''reading''"
definition StatusRead :: string where "StatusRead = ''read''"

text \<open>A nil slice of tags and an empty one are not told apart: both are left out of the JSON.\<close>

record book =
  ID :: string
  UserID :: string
  ISBN :: string
  Title :: string
  Author :: string
  Status :: string
  Rating :: int
  Opinion :: string
  Tags :: "string list"
  CreatedAt :: time
  UpdatedAt :: time
  Description :: string
  Publisher :: string
  PublishedDate :: string
  PageCount :: int
  EnrichmentStatus :: string
  EnrichedAt :: "time option"
  HasCover :: bool
  CoverURL :: string

text \<open>The zero value of the struct.\<close>

definition zero_book :: book where
  "zero_book = \<lparr>ID = [], UserID = [], ISBN = [], Title = [], Author = [], Status = [],
     Rating = 0, Opinion = [], Tags = [], CreatedAt = 0, UpdatedAt = 0, Description = [],
     Publisher = [], PublishedDate = [], PageCount = 0, EnrichmentStatus = [],
     EnrichedAt = None, HasCover = False, CoverURL = []\<rparr>"

section \<open>Rules both stores apply\<close>

definition applyCanonicalNames :: "book \<Rightarrow> string \<Rightarrow> string \<Rightarrow> book" where
  "applyCanonicalNames b editionTitle editionAuthor =
     (let b1 = (if Title b = [] then b\<lparr>Title := editionTitle\<rparr> else b)
      in if Author b1 = [] then b1\<lparr>Author := editionAuthor\<rparr> else b1)"

definition strDeref :: "string option \<Rightarrow> string" where
  "strDeref p = (case p of None \<Rightarrow> [] | Some s \<Rightarrow> s)"

definition enrichmentStatusFor :: "string \<Rightarrow> string option \<Rightarrow> string" where
  "enrichmentStatusFor isbn editionStatus =
     (case editionStatus of
        Some s \<Rightarrow> s
      | None \<Rightarrow> if isbn = [] then ''skipped'' else StatusPending)"

text \<open>
  The columns of a book that belong to the book itself: what is left when the fields that
  come from the shared edition, and the cover URL of a response, are reset.
\<close>

definition bare :: "book \<Rightarrow> book" where
  "bare b = b\<lparr>Description := [], Publisher := [], PublishedDate := [], PageCount := 0,
     EnrichmentStatus := [], EnrichedAt := None, HasCover := False, CoverURL := []\<rparr>"

lemma bare_simps [simp]:
  "ID (bare b) = ID b" "UserID (bare b) = UserID b" "ISBN (bare b) = ISBN b"
  "Title (bare b) = Title b" "Author (bare b) = Author b" "Status (bare b) = Status b"
  "Rating (bare b) = Rating b" "Opinion (bare b) = Opinion b" "Tags (bare b) = Tags b"
  "CreatedAt (bare b) = CreatedAt b" "UpdatedAt (bare b) = UpdatedAt b"
  "CoverURL (bare b) = []" "bare (bare b) = bare b" "HasCover (bare b) = False"
  by (simp_all add: bare_def)

lemma applyCanonicalNames_simps [simp]:
  "ID (applyCanonicalNames b t a) = ID b" "UserID (applyCanonicalNames b t a) = UserID b"
  "ISBN (applyCanonicalNames b t a) = ISBN b"
  "Title (applyCanonicalNames b t a) = (if Title b = [] then t else Title b)"
  "Author (applyCanonicalNames b t a) = (if Author b = [] then a else Author b)"
  "CreatedAt (applyCanonicalNames b t a) = CreatedAt b"
  "HasCover (applyCanonicalNames b t a) = HasCover b"
  by (simp_all add: applyCanonicalNames_def Let_def)

end
