(* ===== verification/Go_Strings.thy ===== *)
theory Go_Strings
  imports Prelude
begin

text \<open>
  The part of Go's string library the program uses. A Go string is a sequence of bytes,
  modelled by Isabelle's \<open>string\<close> (a list of 8-bit characters); operations that work on
  code points decode UTF-8 as the language's \<open>range\<close> loop does: a byte that starts no
  valid sequence is one replacement rune of width 1. The case mapping of the code points
  from 128 up is the Unicode table of the standard library and is a parameter.
\<close>

section \<open>Runes\<close>

type_synonym rune = nat

definition RuneError :: rune where
  "RuneError = 65533"

abbreviation byte :: "char \<Rightarrow> nat" where
  "byte c \<equiv> of_char c"

definition continuation :: "nat \<Rightarrow> nat \<Rightarrow> nat \<Rightarrow> bool" where
  "continuation lo hi b \<longleftrightarrow> lo \<le> b \<and> b \<le> hi"

text \<open>
  \<open>utf8.DecodeRuneInString\<close> on a non-empty string: the first rune and the number of
  bytes it takes. Overlong forms, surrogates and values past the last code point are
  invalid, which the bounds of the second byte express.
\<close>

fun decode2 :: "nat \<Rightarrow> nat list \<Rightarrow> (rune \<times> nat) option" where
  "decode2 b0 (b1 # _) =
     (if continuation 128 191 b1 then Some ((b0 - 192) * 64 + (b1 - 128), 2) else None)"
| "decode2 b0 _ = None"

fun decode3 :: "nat \<Rightarrow> nat list \<Rightarrow> (rune \<times> nat) option" where
  "decode3 b0 (b1 # b2 # _) =
     (if continuation (if b0 = 224 then 160 else 128) (if b0 = 237 then 159 else 191) b1
         \<and> continuation 128 191 b2
      then Some ((b0 - 224) * 4096 + (b1 - 128) * 64 + (b2 - 128), 3) else None)"
| "decode3 b0 _ = None"

fun decode4 :: "nat \<Rightarrow> nat list \<Rightarrow> (rune \<times> nat) option" where
  "decode4 b0 (b1 # b2 # b3 # _) =
     (if continuation (if b0 = 240 then 144 else 128) (if b0 = 244 then 143 else 191) b1
         \<and> continuation 128 191 b2 \<and> continuation 128 191 b3
      then Some ((b0 - 240) * 262144 + (b1 - 128) * 4096 + (b2 - 128) * 64 + (b3 - 128), 4)
      else None)"
| "decode4 b0 _ = None"

definition decode_rune :: "char \<Rightarrow> string \<Rightarrow> rune \<times> nat" where
  "decode_rune c cs =
     (let b0 = byte c; bs = map byte (take 3 cs);
          r = (if b0 < 128 then Some (b0, 1)
               else if 194 \<le> b0 \<and> b0 \<le> 223 then decode2 b0 bs
               else if 224 \<le> b0 \<and> b0 \<le> 239 then decode3 b0 bs
               else if 240 \<le> b0 \<and> b0 \<le> 244 then decode4 b0 bs
               else None)
      in case r of None \<Rightarrow> (RuneError, 1) | Some x \<Rightarrow> x)"

text \<open>The runes of a string with the bytes each was decoded from.\<close>

fun chunks :: "string \<Rightarrow> (rune \<times> string) list" where
  "chunks [] = []"
| "chunks (c # cs) =
     (let (r, w) = decode_rune c cs
      in (r, c # take (w - 1) cs) # chunks (drop (w - 1) cs))"

definition runes :: "string \<Rightarrow> rune list" where
  "runes s = map fst (chunks s)"

definition valid_rune :: "rune \<Rightarrow> bool" where
  "valid_rune r \<longleftrightarrow> r < 55296 \<or> 57344 \<le> r \<and> r \<le> 1114111"

text \<open>\<open>utf8.AppendRune\<close>: a value that is no code point is written as the replacement.\<close>

definition utf8_valid :: "rune \<Rightarrow> string" where
  "utf8_valid r =
     (if r < 128 then [char_of r]
      else if r < 2048 then [char_of (192 + r div 64), char_of (128 + r mod 64)]
      else if r < 65536 then
        [char_of (224 + r div 4096), char_of (128 + r div 64 mod 64), char_of (128 + r mod 64)]
      else
        [char_of (240 + r div 262144), char_of (128 + r div 4096 mod 64),
         char_of (128 + r div 64 mod 64), char_of (128 + r mod 64)])"

definition utf8_encode :: "rune \<Rightarrow> string" where
  "utf8_encode r = utf8_valid (if valid_rune r then r else RuneError)"

definition encode_runes :: "rune list \<Rightarrow> string" where
  "encode_runes rs = concat (map utf8_encode rs)"


section \<open>Decoding undoes encoding\<close>

lemma byte_less_256 [simp]: "byte c < (256::nat)"
  using of_char_mod_256 [of c, where ?'a = nat] by (metis mod_less_divisor zero_less_numeral)

lemma chunks_ascii [simp]: "byte c < 128 \<Longrightarrow> chunks (c # cs) = (byte c, [c]) # chunks cs"
  by (simp add: decode_rune_def Let_def)

lemma decode_of_2:
  "2 \<le> a \<Longrightarrow> a < 32 \<Longrightarrow> b < 64 \<Longrightarrow>
   decode_rune (char_of (192 + a)) (char_of (128 + b) # s) = (a * 64 + b, 2)"
  by (simp add: decode_rune_def continuation_def)

lemma decode_of_3:
  "a < 16 \<Longrightarrow> b < 64 \<Longrightarrow> c < 64 \<Longrightarrow> (a = 0 \<longrightarrow> 32 \<le> b) \<Longrightarrow> (a = 13 \<longrightarrow> b \<le> 31) \<Longrightarrow>
   decode_rune (char_of (224 + a)) (char_of (128 + b) # char_of (128 + c) # s)
     = (a * 4096 + b * 64 + c, 3)"
  by (auto simp: decode_rune_def continuation_def)

lemma decode_of_4:
  "a \<le> 4 \<Longrightarrow> b < 64 \<Longrightarrow> c < 64 \<Longrightarrow> d < 64 \<Longrightarrow> (a = 0 \<longrightarrow> 16 \<le> b) \<Longrightarrow> (a = 4 \<longrightarrow> b \<le> 15) \<Longrightarrow>
   decode_rune (char_of (240 + a)) (char_of (128 + b) # char_of (128 + c) # char_of (128 + d) # s)
     = (a * 262144 + b * 4096 + c * 64 + d, 4)"
  by (auto simp: decode_rune_def continuation_def)

lemma split_64:
  fixes r :: nat
  shows "r = r div 64 * 64 + r mod 64"
    and "r = r div 4096 * 4096 + r div 64 mod 64 * 64 + r mod 64"
    and "r = r div 262144 * 262144 + r div 4096 mod 64 * 4096 + r div 64 mod 64 * 64 + r mod 64"
proof -
  have 1: "r div 4096 = r div 64 div 64" by (simp add: div_mult2_eq [of r 64 64, simplified])
  have 2: "r div 262144 = r div 64 div 64 div 64"
    by (simp add: div_mult2_eq [of r 4096 64, simplified] div_mult2_eq [of r 64 64, simplified])
  have a: "r = r div 64 * 64 + r mod 64" by simp
  have b: "r div 64 = r div 64 div 64 * 64 + r div 64 mod 64" by simp
  have c: "r div 64 div 64 = r div 64 div 64 div 64 * 64 + r div 64 div 64 mod 64" by simp
  show "r = r div 64 * 64 + r mod 64" by (rule a)
  show "r = r div 4096 * 4096 + r div 64 mod 64 * 64 + r mod 64"
    unfolding 1 using a b by linarith
  show "r = r div 262144 * 262144 + r div 4096 mod 64 * 4096 + r div 64 mod 64 * 64 + r mod 64"
    unfolding 2 1 using a b c by linarith
qed

lemma utf8_valid_1: "r < 128 \<Longrightarrow> chunks (utf8_valid r @ s) = (r, utf8_valid r) # chunks s"
  by (simp add: utf8_valid_def del: chunks.simps)

lemma utf8_valid_2:
  assumes "128 \<le> r" "r < 2048"
  shows "chunks (utf8_valid r @ s) = (r, utf8_valid r) # chunks s"
proof -
  have b: "2 \<le> r div 64" "r div 64 < 32"
    using assms div_le_mono [of 128 r 64] by (simp_all add: less_mult_imp_div_less)
  have "decode_rune (char_of (192 + r div 64)) (char_of (128 + r mod 64) # s) = (r, 2)"
    using decode_of_2 [OF b, of "r mod 64" s] split_64(1) [of r] by simp
  then show ?thesis using assms by (simp add: utf8_valid_def)
qed

lemma utf8_valid_3:
  assumes "2048 \<le> r" "r < 65536" "valid_rune r"
  shows "chunks (utf8_valid r @ s) = (r, utf8_valid r) # chunks s"
proof -
  have sum: "r div 4096 * 4096 + r div 64 mod 64 * 64 + r mod 64 = r"
    by (rule split_64(2) [symmetric])
  have c: "r mod 64 < 64" "r div 64 mod 64 < 64" by simp_all
  have "r div 4096 < 16" using assms(2) by (simp add: less_mult_imp_div_less)
  moreover have "r div 4096 = 0 \<longrightarrow> 32 \<le> r div 64 mod 64" using sum c assms(1) by linarith
  moreover have "r div 4096 = 13 \<longrightarrow> r div 64 mod 64 \<le> 31"
    using sum c assms(3) unfolding valid_rune_def by linarith
  ultimately have "decode_rune (char_of (224 + r div 4096))
      (char_of (128 + r div 64 mod 64) # char_of (128 + r mod 64) # s) = (r, 3)"
    using decode_of_3 [OF _ c(2,1)] sum by simp
  then show ?thesis using assms by (simp add: utf8_valid_def)
qed

lemma utf8_valid_4:
  assumes "65536 \<le> r" "r \<le> 1114111"
  shows "chunks (utf8_valid r @ s) = (r, utf8_valid r) # chunks s"
proof -
  have sum: "r div 262144 * 262144 + r div 4096 mod 64 * 4096 + r div 64 mod 64 * 64 + r mod 64 = r"
    by (rule split_64(3) [symmetric])
  have c: "r mod 64 < 64" "r div 64 mod 64 < 64" "r div 4096 mod 64 < 64" by simp_all
  have "r div 262144 \<le> 4" using div_le_mono [OF assms(2), of 262144] by simp
  moreover have "r div 262144 = 0 \<longrightarrow> 16 \<le> r div 4096 mod 64" using sum c assms(1) by linarith
  moreover have "r div 262144 = 4 \<longrightarrow> r div 4096 mod 64 \<le> 15" using sum c assms(2) by linarith
  ultimately have "decode_rune (char_of (240 + r div 262144))
      (char_of (128 + r div 4096 mod 64) # char_of (128 + r div 64 mod 64)
        # char_of (128 + r mod 64) # s) = (r, 4)"
    using decode_of_4 [OF _ c(3,2,1)] sum by simp
  then show ?thesis using assms by (simp add: utf8_valid_def)
qed

lemma chunks_utf8_valid:
  assumes "valid_rune r"
  shows "chunks (utf8_valid r @ s) = (r, utf8_valid r) # chunks s"
proof -
  consider "r < 128" | "128 \<le> r" "r < 2048" | "2048 \<le> r" "r < 65536" | "65536 \<le> r"
    by linarith
  then show ?thesis
    using assms by cases (auto intro: utf8_valid_1 utf8_valid_2 utf8_valid_3 utf8_valid_4
        simp: valid_rune_def simp del: chunks.simps)
qed

lemma valid_RuneError [simp]: "valid_rune RuneError"
  by (simp add: valid_rune_def RuneError_def)

text \<open>
  Reading back what was written gives the runes written, with every value that is no code
  point replaced.
\<close>

lemma runes_encode_runes:
  "runes (encode_runes rs) = map (\<lambda>r. if valid_rune r then r else RuneError) rs"
proof (induction rs)
  case Nil
  show ?case by (simp add: runes_def encode_runes_def)
next
  case (Cons r rs)
  then show ?case
    by (simp add: runes_def encode_runes_def utf8_encode_def chunks_utf8_valid)
qed

section \<open>Strings of ASCII bytes\<close>

definition ascii :: "string \<Rightarrow> bool" where
  "ascii s \<longleftrightarrow> list_all (\<lambda>c. byte c < (128::nat)) s"

lemma ascii_simps [simp]:
  "ascii []" "ascii (c # s) \<longleftrightarrow> byte c < (128::nat) \<and> ascii s" "ascii (s @ t) \<longleftrightarrow> ascii s \<and> ascii t"
  by (auto simp: ascii_def)

lemma runes_Nil [simp]: "runes [] = []"
  by (simp add: runes_def)

lemma runes_Cons_ascii [simp]: "byte c < 128 \<Longrightarrow> runes (c # s) = byte c # runes s"
  by (simp add: runes_def del: chunks.simps)

lemma runes_ascii: "ascii s \<Longrightarrow> runes s = map byte s"
  by (induction s) auto

lemma runes_append_ascii: "ascii s \<Longrightarrow> runes (s @ t) = map byte s @ runes t"
  by (induction s) auto

lemma char_of_byte [simp]: "(char_of (byte c :: nat) :: char) = c"
  by simp

lemma utf8_encode_byte [simp]: "byte c < (128::nat) \<Longrightarrow> utf8_encode (byte c) = [c]"
  by (simp add: utf8_encode_def utf8_valid_def valid_rune_def)

lemma encode_runes_simps [simp]:
  "encode_runes [] = []" "encode_runes (r # rs) = utf8_encode r @ encode_runes rs"
  "encode_runes (rs @ rs') = encode_runes rs @ encode_runes rs'"
  by (simp_all add: encode_runes_def)

lemma encode_runes_ascii: "ascii s \<Longrightarrow> encode_runes (map byte s) = s"
  by (induction s) auto

text \<open>An ASCII string is written by its own code points and by no other runes.\<close>

lemma encode_runes_eq_ascii:
  assumes "ascii s"
  shows "encode_runes rs = s \<longleftrightarrow> rs = map byte s"
proof
  assume e: "encode_runes rs = s"
  have n: "map (\<lambda>r. if valid_rune r then r else RuneError) rs = map byte s"
    using runes_encode_runes [of rs] runes_ascii [OF assms] unfolding e by simp
  show "rs = map byte s"
  proof (rule nth_equalityI)
    show "length rs = length (map byte s)" using arg_cong [OF n, of length] by simp
    fix i assume i: "i < length rs"
    then have "(if valid_rune (rs ! i) then rs ! i else RuneError) = map byte s ! i"
      using arg_cong [OF n, of "\<lambda>xs. xs ! i"] by (simp only: nth_map)
    moreover have "map byte s ! i < 128"
    proof -
      have "i < length s" using i arg_cong [OF n, of length] by simp
      then show ?thesis using assms by (simp add: ascii_def list_all_length)
    qed
    moreover have "\<not> RuneError < 128" by (simp add: RuneError_def)
    ultimately show "rs ! i = map byte s ! i" by metis
  qed
qed (use assms in \<open>simp add: encode_runes_ascii\<close>)

lemma valid_decode2:
  "194 \<le> b \<Longrightarrow> b \<le> 223 \<Longrightarrow> decode2 b bs = Some x \<Longrightarrow> valid_rune (fst x)"
  by (cases bs) (auto simp: continuation_def valid_rune_def split: if_splits)

lemma valid_decode3:
  "224 \<le> b \<Longrightarrow> b \<le> 239 \<Longrightarrow> decode3 b bs = Some x \<Longrightarrow> valid_rune (fst x)"
  by (cases "(b, bs)" rule: decode3.cases)
     (auto simp: continuation_def valid_rune_def split: if_splits)

lemma valid_decode4:
  "240 \<le> b \<Longrightarrow> b \<le> 244 \<Longrightarrow> decode4 b bs = Some x \<Longrightarrow> valid_rune (fst x)"
  by (cases "(b, bs)" rule: decode4.cases)
     (auto simp: continuation_def valid_rune_def split: if_splits)

lemma valid_decode: "valid_rune (fst (decode_rune c cs))"
proof (cases "byte c < (128::nat)")
  case True
  then show ?thesis by (simp add: decode_rune_def valid_rune_def)
next
  case False
  let ?bs = "map byte (take 3 cs) :: nat list"
  show ?thesis
  proof (cases "decode_rune c cs = (RuneError, 1)")
    case True
    then show ?thesis by (simp add: valid_rune_def RuneError_def)
  next
    case False
    then have "194 \<le> byte c \<and> byte c \<le> (223::nat) \<and> decode2 (byte c) ?bs = Some (decode_rune c cs)
      \<or> 224 \<le> byte c \<and> byte c \<le> (239::nat) \<and> decode3 (byte c) ?bs = Some (decode_rune c cs)
      \<or> 240 \<le> byte c \<and> byte c \<le> (244::nat) \<and> decode4 (byte c) ?bs = Some (decode_rune c cs)"
      using \<open>\<not> byte c < 128\<close>
      by (simp add: decode_rune_def Let_def split: option.splits if_splits)
    then show ?thesis by (auto intro: valid_decode2 valid_decode3 valid_decode4)
  qed
qed

lemma valid_runes: "r \<in> set (runes s) \<Longrightarrow> valid_rune r"
proof (induction s arbitrary: r rule: chunks.induct)
  case 1
  then show ?case by simp
next
  case (2 c cs)
  obtain r0 w where d: "decode_rune c cs = (r0, w)" by fastforce
  have "valid_rune r0" using valid_decode [of c cs] d by simp
  moreover have "r = r0 \<or> r \<in> set (runes (drop (w - 1) cs))"
    using "2.prems" d by (auto simp: runes_def)
  ultimately show ?case using "2.IH" [OF d [symmetric] refl] by blast
qed

lemma runes_encode_valid: "\<forall>r \<in> set rs. valid_rune r \<Longrightarrow> runes (encode_runes rs) = rs"
  by (simp add: runes_encode_runes map_idI)

section \<open>The operations of package \<open>strings\<close>\<close>

text \<open>
  The simple case mappings of the Unicode tables, for code points from 128 up; below 128
  the library computes them.
\<close>

record unicode =
  to_upper :: "rune \<Rightarrow> rune"
  to_lower :: "rune \<Rightarrow> rune"

definition upper_rune :: "unicode \<Rightarrow> rune \<Rightarrow> rune" where
  "upper_rune U r = (if r < 128 then (if 97 \<le> r \<and> r \<le> 122 then r - 32 else r) else to_upper U r)"

definition lower_rune :: "unicode \<Rightarrow> rune \<Rightarrow> rune" where
  "lower_rune U r = (if r < 128 then (if 65 \<le> r \<and> r \<le> 90 then r + 32 else r) else to_lower U r)"

text \<open>\<open>strings.Map\<close>: a rune mapped to nothing (a negative value in Go) is dropped.\<close>

definition strings_Map :: "(rune \<Rightarrow> rune option) \<Rightarrow> string \<Rightarrow> string" where
  "strings_Map f s = encode_runes (List.map_filter f (runes s))"

definition ToUpper :: "unicode \<Rightarrow> string \<Rightarrow> string" where
  "ToUpper U s = encode_runes (map (upper_rune U) (runes s))"

definition ToLower :: "unicode \<Rightarrow> string \<Rightarrow> string" where
  "ToLower U s = encode_runes (map (lower_rune U) (runes s))"

text \<open>\<open>unicode.IsSpace\<close>.\<close>

definition is_space :: "rune \<Rightarrow> bool" where
  "is_space r \<longleftrightarrow> 9 \<le> r \<and> r \<le> 13 \<or> r = 32 \<or> r = 133 \<or> r = 160 \<or> r = 5760
     \<or> 8192 \<le> r \<and> r \<le> 8202 \<or> r = 8232 \<or> r = 8233 \<or> r = 8239 \<or> r = 8287 \<or> r = 12288"

text \<open>
  \<open>strings.TrimSpace\<close> removes white space at both ends and \<open>strings.Fields\<close> splits at runs
  of it. Both keep the bytes of what remains.
\<close>

definition TrimSpace :: "string \<Rightarrow> string" where
  "TrimSpace s =
     (let sp = (\<lambda>(r, _). is_space r)
      in concat (map snd (rev (dropWhile sp (rev (dropWhile sp (chunks s)))))))"

fun fields_from :: "string \<Rightarrow> (rune \<times> string) list \<Rightarrow> string list" where
  "fields_from w [] = (if w = [] then [] else [w])"
| "fields_from w ((r, bs) # cs) =
     (if is_space r then (if w = [] then fields_from [] cs else w # fields_from [] cs)
      else fields_from (w @ bs) cs)"

definition Fields :: "string \<Rightarrow> string list" where
  "Fields s = fields_from [] (chunks s)"

fun Join :: "string list \<Rightarrow> string \<Rightarrow> string" where
  "Join [] sep = []"
| "Join [x] sep = x"
| "Join (x # xs) sep = x @ sep @ Join xs sep"

text \<open>\<open>strings.TrimRight\<close> with a single character.\<close>

definition TrimRight :: "string \<Rightarrow> char \<Rightarrow> string" where
  "TrimRight s c = rev (dropWhile (\<lambda>x. x = c) (rev s))"

text \<open>\<open>strconv.Itoa\<close>.\<close>

fun digits_of :: "nat \<Rightarrow> string" where
  "digits_of n = (if n < 10 then [char_of (48 + n)] else digits_of (n div 10) @ [char_of (48 + n mod 10)])"

declare digits_of.simps [simp del]

definition Itoa :: "int \<Rightarrow> string" where
  "Itoa i = (if i < 0 then CHR ''-'' # digits_of (nat (- i)) else digits_of (nat i))"

text \<open>
  \<open>url.QueryEscape\<close> and \<open>url.PathEscape\<close>: unreserved bytes stay, every other byte is written
  as a percent sign and two hexadecimal digits; a query writes a blank as a plus sign and a
  path segment keeps six reserved characters.
\<close>

definition unreserved :: "nat \<Rightarrow> bool" where
  "unreserved b \<longleftrightarrow> 48 \<le> b \<and> b \<le> 57 \<or> 65 \<le> b \<and> b \<le> 90 \<or> 97 \<le> b \<and> b \<le> 122
     \<or> b = 45 \<or> b = 46 \<or> b = 95 \<or> b = 126"

definition hex_digit :: "nat \<Rightarrow> char" where
  "hex_digit n = char_of (if n < 10 then 48 + n else 55 + n)"

definition percent :: "char \<Rightarrow> string" where
  "percent c = [CHR ''%'', hex_digit (byte c div 16), hex_digit (byte c mod 16)]"

definition QueryEscape :: "string \<Rightarrow> string" where
  "QueryEscape s = concat (map (\<lambda>c. if unreserved (byte c) then [c]
      else if c = CHR '' '' then ''+'' else percent c) s)"

definition PathEscape :: "string \<Rightarrow> string" where
  "PathEscape s = concat (map (\<lambda>c. if unreserved (byte c) \<or> c \<in> set ''$&+=:@'' then [c]
      else percent c) s)"

lemma map_filter_alt: "List.map_filter (\<lambda>r. if P r then None else Some r) rs = filter (\<lambda>r. \<not> P r) rs"
  by (induction rs) (auto simp: List.map_filter_simps)

lemma runes_strip:
  "runes (strings_Map (\<lambda>r. if P r then None else Some r) s) = filter (\<lambda>r. \<not> P r) (runes s)"
  by (subst strings_Map_def, subst map_filter_alt, rule runes_encode_valid) (auto dest: valid_runes)

lemma ToUpper_eq_ascii:
  "ascii t \<Longrightarrow> ToUpper U s = t \<longleftrightarrow> map (upper_rune U) (runes s) = map byte t"
  by (simp add: ToUpper_def encode_runes_eq_ascii)

section \<open>Decoding a part of a string\<close>

text \<open>Chunks are decoded from their own bytes: cutting the string between two keeps them.\<close>

lemma decode_prefix:
  assumes "decode_rune c (a @ b) = (r, w)" "w \<le> Suc (length a)"
  shows "decode_rune c a = (r, w)"
proof -
  consider "a = []" | x where "a = [x]" | x y where "a = [x, y]" | x y z a' where "a = x # y # z # a'"
    by (metis neq_Nil_conv)
  then show ?thesis
  proof cases
    case 1
    then show ?thesis using assms
      by (cases b; cases "tl b"; cases "tl (tl b)")
         (auto simp: decode_rune_def Let_def split: if_splits option.splits)
  next
    case 2
    then show ?thesis using assms
      by (cases b; cases "tl b") (auto simp: decode_rune_def Let_def split: if_splits option.splits)
  next
    case 3
    then show ?thesis using assms
      by (cases b) (auto simp: decode_rune_def Let_def split: if_splits option.splits)
  next
    case 4
    then show ?thesis using assms by (simp add: decode_rune_def)
  qed
qed

lemma decode_width:
  assumes "decode_rune c cs = (r, w)"
  shows "1 \<le> w \<and> w \<le> Suc (length cs)"
proof -
  consider "cs = []" | x where "cs = [x]" | x y where "cs = [x, y]" | x y z cs' where "cs = x # y # z # cs'"
    by (metis neq_Nil_conv)
  then show ?thesis
    using assms by cases (auto simp: decode_rune_def Let_def split: if_splits option.splits)
qed

lemma concat_chunks [simp]: "concat (map snd (chunks s)) = s"
proof (induction s rule: chunks.induct)
  case (2 c cs)
  obtain r w where "decode_rune c cs = (r, w)" by fastforce
  then show ?case using "2.IH" by simp
qed simp

lemma chunks_drop: "chunks (concat (map snd (drop n (chunks s)))) = drop n (chunks s)"
proof (induction s arbitrary: n rule: chunks.induct)
  case (2 c cs)
  obtain r w where d: "decode_rune c cs = (r, w)" by fastforce
  show ?case
  proof (cases n)
    case 0
    then show ?thesis by (simp only: drop_0 concat_chunks)
  next
    case (Suc m)
    then show ?thesis using "2.IH" [OF d [symmetric] refl, of m] d by simp
  qed
qed simp

lemma chunks_take: "chunks (concat (map snd (take n (chunks s)))) = take n (chunks s)"
proof (induction s arbitrary: n rule: chunks.induct)
  case (2 c cs)
  obtain r w where d: "decode_rune c cs = (r, w)" by fastforce
  show ?case
  proof (cases n)
    case (Suc m)
    let ?T = "concat (map snd (take m (chunks (drop (w - 1) cs))))"
    let ?a = "take (w - 1) cs @ ?T"
    have w: "1 \<le> w" "w \<le> Suc (length cs)" using decode_width [OF d] by simp_all
    have "concat (map snd (take m (chunks (drop (w - 1) cs)))) @ concat (map snd (drop m (chunks (drop (w - 1) cs))))
        = drop (w - 1) cs"
      by (metis append_take_drop_id concat_append concat_chunks map_append)
    then obtain b where b: "cs = ?a @ b" by (metis append_assoc append_take_drop_id)
    have whole: "decode_rune c (?a @ b) = (r, w)" using d by (simp only: b [symmetric])
    have w': "length (take (w - 1) cs) = w - 1" using w by simp
    have "w \<le> Suc (length ?a)" by (simp only: length_append w')
    with whole have "decode_rune c ?a = (r, w)" by (rule decode_prefix)
    moreover have "take (w - 1) ?a = take (w - 1) cs" "drop (w - 1) ?a = ?T" using w' by simp_all
    ultimately have "chunks (c # ?a) = (r, c # take (w - 1) cs) # chunks ?T" by simp
    moreover have "concat (map snd (take n (chunks (c # cs)))) = c # ?a" using Suc d by simp
    moreover have "take n (chunks (c # cs)) = (r, c # take (w - 1) cs) # take m (chunks (drop (w - 1) cs))"
      using Suc d by simp
    ultimately show ?thesis
      using "2.IH" [OF d [symmetric] refl, of m] by (simp only:)
  qed simp
qed simp

lemma chunks_trimmed: "chunks (TrimSpace s) = rev (dropWhile (\<lambda>(r, _). is_space r)
    (rev (dropWhile (\<lambda>(r, _). is_space r) (chunks s))))"
proof -
  let ?P = "\<lambda>(r, _). is_space r"
  let ?xs = "dropWhile ?P (chunks s)"
  obtain n where n: "?xs = drop n (chunks s)" by (metis dropWhile_eq_drop)
  then have xs: "chunks (concat (map snd ?xs)) = ?xs" by (simp only: chunks_drop)
  obtain m where "dropWhile ?P (rev ?xs) = drop m (rev ?xs)" by (metis dropWhile_eq_drop)
  then have "rev (dropWhile ?P (rev ?xs)) = take (length ?xs - m) ?xs" by (simp add: rev_drop)
  then have "chunks (concat (map snd (rev (dropWhile ?P (rev ?xs))))) = rev (dropWhile ?P (rev ?xs))"
    using chunks_take [of "length ?xs - m" "concat (map snd ?xs)"] by (simp only: xs)
  then show ?thesis by (simp add: TrimSpace_def Let_def)
qed

lemma dropWhile_trim: "dropWhile P (rev (dropWhile P (rev (dropWhile P xs)))) = rev (dropWhile P (rev (dropWhile P xs)))"
proof (cases "rev (dropWhile P (rev (dropWhile P xs)))")
  case (Cons y ys)
  obtain zs where "rev (dropWhile P xs) = zs @ dropWhile P (rev (dropWhile P xs))"
    by (metis takeWhile_dropWhile_id)
  then have "dropWhile P xs = rev (dropWhile P (rev (dropWhile P xs))) @ rev zs"
    by (metis rev_append rev_rev_ident)
  then have "hd (dropWhile P xs) = y" "dropWhile P xs \<noteq> []" using Cons by (metis append_Cons list.sel(1), auto)
  then have "\<not> P y" using hd_dropWhile by metis
  then show ?thesis using Cons by simp
next
  case Nil
  show ?thesis unfolding Nil by simp
qed

lemma TrimSpace_idem [simp]: "TrimSpace (TrimSpace s) = TrimSpace s"
  unfolding TrimSpace_def [of "TrimSpace s"] Let_def chunks_trimmed dropWhile_trim
  by (simp add: dropWhile_trim) (simp add: TrimSpace_def Let_def)

lemma fields_from_leading: "fields_from [] (dropWhile (\<lambda>(r, _). is_space r) cs) = fields_from [] cs"
  by (induction cs) auto

lemma fields_from_spaces: "\<forall>(r, bs) \<in> set cs. is_space r \<Longrightarrow> fields_from w cs = (if w = [] then [] else [w])"
  by (induction cs arbitrary: w) auto

lemma fields_from_trailing:
  "\<forall>(r, bs) \<in> set cs'. is_space r \<Longrightarrow> fields_from w (cs @ cs') = fields_from w cs"
  by (induction cs arbitrary: w) (auto simp: fields_from_spaces)

lemma Fields_TrimSpace [simp]: "Fields (TrimSpace s) = Fields s"
proof -
  let ?P = "\<lambda>(r, _::string). is_space r"
  let ?xs = "dropWhile ?P (chunks s)"
  have "rev ?xs = takeWhile ?P (rev ?xs) @ dropWhile ?P (rev ?xs)" by simp
  then have "?xs = rev (dropWhile ?P (rev ?xs)) @ rev (takeWhile ?P (rev ?xs))"
    by (metis rev_append rev_rev_ident)
  moreover have "\<forall>(r, bs) \<in> set (rev (takeWhile ?P (rev ?xs))). is_space r"
    by (auto dest: set_takeWhileD)
  ultimately have "fields_from [] ?xs = fields_from [] (rev (dropWhile ?P (rev ?xs)))"
    using fields_from_trailing by metis
  then show ?thesis by (simp add: Fields_def chunks_trimmed fields_from_leading)
qed

end
