(* ===== verification/Isbn.thy ===== *)
theory Isbn
  imports Go_Strings
begin

text \<open>
  ISBN canonicalisation (\<open>internal/books/isbn.go\<close>): the separators are removed, letters
  are folded to upper case, and the shape is checked.
\<close>

section \<open>The code\<close>

text \<open>The runes the strip function drops: hyphen, blank, tab, no-break space.\<close>

definition isbn_separator :: "rune \<Rightarrow> bool" where
  "isbn_separator r \<longleftrightarrow> r = 45 \<or> r = 32 \<or> r = 9 \<or> r = 160"

definition stripISBNSeparators :: "string \<Rightarrow> string" where
  "stripISBNSeparators raw = strings_Map (\<lambda>r. if isbn_separator r then None else Some r) raw"

definition is_digit :: "char \<Rightarrow> bool" where
  "is_digit c \<longleftrightarrow> CHR ''0'' \<le> c \<and> c \<le> CHR ''9''"

text \<open>
  The regular expression \<open>isbnShape\<close>: nine digits and a digit or X, or thirteen digits, and
  nothing before or after.
\<close>

definition isbnShape :: "string \<Rightarrow> bool" where
  "isbnShape s \<longleftrightarrow>
     length s = 10 \<and> list_all is_digit (take 9 s) \<and> (is_digit (s ! 9) \<or> s ! 9 = CHR ''X'')
   \<or> length s = 13 \<and> list_all is_digit s"

definition canonicalISBN :: "unicode \<Rightarrow> string \<Rightarrow> go_error + string" where
  "canonicalISBN U raw =
     (let isbn = ToUpper U (stripISBNSeparators raw)
      in if \<not> isbnShape isbn then Inl (Sentinel InvalidISBN) else Inr isbn)"

section \<open>Shape\<close>

lemma is_digit_byte: "is_digit c \<longleftrightarrow> 48 \<le> byte c \<and> byte c \<le> (57::nat)"
  by (simp add: is_digit_def less_eq_char_def)

lemma isbn_char:
  assumes "isbnShape s" "c \<in> set s"
  shows "is_digit c \<or> c = CHR ''X''"
proof (cases "length s = 10")
  case True
  obtain i where i: "i < 10" "c = s ! i" using assms(2) True by (auto simp: in_set_conv_nth)
  have "list_all is_digit (take 9 s)" and last: "is_digit (s ! 9) \<or> s ! 9 = CHR ''X''"
    using assms(1) True by (auto simp: isbnShape_def)
  then have "i < 9 \<Longrightarrow> is_digit c" using i True by (simp add: list_all_length)
  moreover have "i < 9 \<or> i = 9" using i(1) by linarith
  ultimately show ?thesis using last i(2) by auto
next
  case False
  with assms show ?thesis by (auto simp: isbnShape_def list_all_iff)
qed

lemma isbnShape_ascii: "isbnShape s \<Longrightarrow> ascii s"
  unfolding ascii_def list_all_iff using isbn_char by (fastforce simp: is_digit_byte)

lemma isbnShape_nonempty: "isbnShape s \<Longrightarrow> s \<noteq> []"
  by (auto simp: isbnShape_def)

lemma isbnShape_length: "isbnShape s \<Longrightarrow> length s = 10 \<or> length s = 13"
  by (auto simp: isbnShape_def)

lemma isbn_char_fixed:
  assumes "isbnShape s" "c \<in> set s"
  shows "upper_rune U (byte c) = byte c" "\<not> isbn_separator (byte c)" "byte c < (128::nat)"
  using isbn_char [OF assms] by (auto simp: upper_rune_def isbn_separator_def is_digit_byte)


section \<open>What the canonical form is\<close>

lemma runes_stripped: "runes (stripISBNSeparators raw) = filter (\<lambda>r. \<not> isbn_separator r) (runes raw)"
  by (simp add: stripISBNSeparators_def runes_strip)

text \<open>
  The input's code points without separators, in upper case: what an ISBN is read from.
\<close>

definition isbn_reading :: "unicode \<Rightarrow> string \<Rightarrow> rune list" where
  "isbn_reading U raw = map (upper_rune U) (filter (\<lambda>r. \<not> isbn_separator r) (runes raw))"

lemma canonicalISBN_alt:
  "canonicalISBN U raw =
     (let isbn = encode_runes (isbn_reading U raw)
      in if isbnShape isbn then Inr isbn else Inl (Sentinel InvalidISBN))"
  by (simp add: canonicalISBN_def ToUpper_def runes_stripped isbn_reading_def Let_def)

lemma canonicalISBN_shape: "canonicalISBN U raw = Inr isbn \<Longrightarrow> isbnShape isbn"
  by (auto simp: canonicalISBN_def Let_def split: if_splits)

lemma canonicalISBN_error: "canonicalISBN U raw = Inl e \<Longrightarrow> e = Sentinel InvalidISBN"
  by (auto simp: canonicalISBN_def Let_def split: if_splits)

lemma reading_of_canonical:
  assumes "isbnShape isbn"
  shows "isbn_reading U isbn = map byte isbn"
proof -
  have "filter (\<lambda>r. \<not> isbn_separator r) (map byte isbn) = map byte isbn"
    using isbn_char_fixed(2) [OF assms] by (simp add: filter_id_conv)
  moreover have "map (upper_rune U) (map byte isbn) = map byte isbn"
    using isbn_char_fixed(1) [OF assms] by simp
  ultimately show ?thesis
    by (simp add: isbn_reading_def runes_ascii [OF isbnShape_ascii [OF assms]])
qed

text \<open>
  C33: \<open>canonicalISBN\<close> accepts an input exactly when its code points, without hyphens, blanks,
  tabs and no-break spaces and in upper case, are the characters of a well-shaped ISBN
  (ten with a digit or X at the end, or thirteen digits), and then it returns that ISBN.
\<close>
theorem canonicalISBN_iff:
  "canonicalISBN U raw = Inr isbn \<longleftrightarrow> isbnShape isbn \<and> isbn_reading U raw = map byte isbn"
proof
  assume c: "canonicalISBN U raw = Inr isbn"
  have sh: "isbnShape isbn" using c by (rule canonicalISBN_shape)
  have "encode_runes (isbn_reading U raw) = isbn"
    using c by (auto simp: canonicalISBN_alt Let_def split: if_splits)
  with sh show "isbnShape isbn \<and> isbn_reading U raw = map byte isbn"
    by (simp add: encode_runes_eq_ascii isbnShape_ascii)
next
  assume "isbnShape isbn \<and> isbn_reading U raw = map byte isbn"
  then show "canonicalISBN U raw = Inr isbn"
    by (simp add: canonicalISBN_alt encode_runes_ascii isbnShape_ascii)
qed

lemma canonical_fixed: "isbnShape isbn \<Longrightarrow> canonicalISBN U isbn = Inr isbn"
  by (simp add: canonicalISBN_alt reading_of_canonical encode_runes_ascii isbnShape_ascii)

lemma canonical_same_reading:
  "isbn_reading U a = isbn_reading U b \<Longrightarrow> canonicalISBN U a = canonicalISBN U b"
  by (simp add: canonicalISBN_alt)

text \<open>
  C34: two spellings of one ISBN are one key. Inputs, of any bytes, whose code points are the
  same once hyphens (45), blanks (32), tabs (9) and no-break spaces (160) are left out and a
  small x (120) is read as a capital X (88) canonicalise to the same result, error included;
  and the canonical form canonicalises to itself, so storing it and reading it back is stable.
\<close>
theorem canonicalISBN_one_spelling:
  assumes "map (\<lambda>r. if r = 120 then 88 else r) (filter (\<lambda>r. r \<notin> {45, 32, 9, 160}) (runes a))
    = map (\<lambda>r. if r = 120 then 88 else r) (filter (\<lambda>r. r \<notin> {45, 32, 9, 160}) (runes b))"
  shows "canonicalISBN U a = canonicalISBN U b
    \<and> (\<forall>isbn. canonicalISBN U a = Inr isbn \<longrightarrow> canonicalISBN V isbn = Inr isbn)"
proof (intro conjI allI impI)
  let ?X = "\<lambda>r. if r = (120::nat) then 88 else r"
  have sep: "(\<lambda>r. \<not> isbn_separator r) = (\<lambda>r. r \<notin> {45, 32, 9, 160})"
    by (auto simp: isbn_separator_def)
  have "isbn_reading U raw = map (upper_rune U) (map ?X (filter (\<lambda>r. r \<notin> {45, 32, 9, 160}) (runes raw)))" for raw
    unfolding isbn_reading_def sep by (simp add: upper_rune_def)
  then show "canonicalISBN U a = canonicalISBN U b"
    using arg_cong [OF assms, of "map (upper_rune U)"] by (intro canonical_same_reading) (simp only:)
next
  fix isbn assume "canonicalISBN U a = Inr isbn"
  then show "canonicalISBN V isbn = Inr isbn"
    by (intro canonical_fixed) (rule canonicalISBN_shape)
qed

text \<open>The case mapping of the witnesses: no letter beyond ASCII has a case.\<close>

definition plain_unicode :: unicode where
  "plain_unicode = \<lparr>to_upper = id, to_lower = id\<rparr>"

text \<open>With a hyphen, a tab, a blank, a no-break space (two bytes in UTF-8) and a small x.\<close>

theorem canonicalISBN_one_spelling_witness:
  "canonicalISBN plain_unicode (''0-8044'' @ [CHR 0x09] @ ''2 957'' @ [CHR 0xC2, CHR 0xA0] @ ''x'')
     = Inr ''080442957X''"
proof -
  let ?a = "''0-8044'' @ [CHR 0x09] @ ''2 957'' @ [CHR 0xC2, CHR 0xA0] @ ''x''"
  have b: "canonicalISBN plain_unicode ''080442957X'' = Inr ''080442957X''"
    by (rule canonical_fixed) (simp add: isbnShape_def is_digit_byte)
  have "runes ?a = [48, 45, 56, 48, 52, 52, 9, 50, 32, 57, 53, 55, 160, 120]" by code_simp
  moreover have "runes ''080442957X'' = [48, 56, 48, 52, 52, 50, 57, 53, 55, 88]" by code_simp
  ultimately show ?thesis
    using canonicalISBN_one_spelling [of ?a "''080442957X''" plain_unicode plain_unicode] b by simp
qed

end
