(* ===== verification/Catalog.thy ===== *)
theory Catalog
  imports Book Isbn
begin

text \<open>
  The abstract specification of the persistence layer: one catalogue of books, shared
  editions and covers, and what each operation of the store interfaces promises to do to it.
  Both stores are shown to implement it (theories \<open>Memory_Store\<close> and \<open>Postgres_Store\<close>), and
  the HTTP handlers and the worker are verified against it.
\<close>

section \<open>State\<close>

text \<open>An edition is the data shared by every book with its ISBN.\<close>

record edition =
  ed_meta :: metadata
  ed_status :: status
  ed_at :: "time option"
  ed_cover :: bool

definition blank_metadata :: metadata where
  "blank_metadata = \<lparr>m_Title = [], m_Author = [], m_Description = [], m_Publisher = [],
     m_PublishedDate = [], m_PageCount = 0\<rparr>"

definition pending_edition :: edition where
  "pending_edition = \<lparr>ed_meta = blank_metadata, ed_status = StatusPending, ed_at = None,
     ed_cover = False\<rparr>"

record catalog =
  cat_books :: "string \<rightharpoonup> book"
  cat_editions :: "string \<rightharpoonup> edition"
  cat_covers :: "string \<rightharpoonup> cover"

definition empty_catalog :: catalog where
  "empty_catalog = \<lparr>cat_books = Map.empty, cat_editions = Map.empty, cat_covers = Map.empty\<rparr>"

text \<open>
  The invariant: a book is filed under its own identifier and holds no enrichment data of
  its own, and an edition announces a cover exactly when one is stored.
\<close>

definition wf_catalog :: "catalog \<Rightarrow> bool" where
  "wf_catalog c \<longleftrightarrow>
     (\<forall>i b. cat_books c i = Some b \<longrightarrow> ID b = i \<and> bare b = b)
   \<and> (\<forall>k. cat_covers c k \<noteq> None \<longleftrightarrow> (\<exists>e. cat_editions c k = Some e \<and> ed_cover e))"

section \<open>What a reader sees\<close>

definition edition_of :: "catalog \<Rightarrow> book \<Rightarrow> edition option" where
  "edition_of c b = (if ISBN b = [] then None else cat_editions c (ISBN b))"

definition reader_view :: "catalog \<Rightarrow> book \<Rightarrow> book" where
  "reader_view c b =
     (case edition_of c b of
        Some e \<Rightarrow> (bare b)\<lparr>
          Title := (if Title b = [] then m_Title (ed_meta e) else Title b),
          Author := (if Author b = [] then m_Author (ed_meta e) else Author b),
          Description := m_Description (ed_meta e), Publisher := m_Publisher (ed_meta e),
          PublishedDate := m_PublishedDate (ed_meta e), PageCount := m_PageCount (ed_meta e),
          EnrichmentStatus := ed_status e, EnrichedAt := ed_at e, HasCover := ed_cover e\<rparr>
      | None \<Rightarrow> (bare b)\<lparr>EnrichmentStatus := (if ISBN b = [] then ''skipped'' else ''pending'')\<rparr>)"

definition owned :: "catalog \<Rightarrow> string \<Rightarrow> string \<Rightarrow> book option" where
  "owned c u i =
     (case cat_books c i of None \<Rightarrow> None | Some b \<Rightarrow> if UserID b = u then Some b else None)"

section \<open>What each operation promises\<close>

type_synonym 'a promise = "(go_error + 'a) \<times> catalog"

definition stamped :: "time \<Rightarrow> string \<Rightarrow> string \<Rightarrow> book \<Rightarrow> book" where
  "stamped now i u b = b\<lparr>ID := i, UserID := u,
     Status := (if Status b = [] then ''to_read'' else Status b), CreatedAt := now, UpdatedAt := now\<rparr>"

definition put_book :: "book \<Rightarrow> catalog \<Rightarrow> catalog" where
  "put_book b c = c\<lparr>cat_books := (cat_books c)(ID b \<mapsto> bare b)\<rparr>"

definition put_edition :: "string \<Rightarrow> edition \<Rightarrow> catalog \<Rightarrow> catalog" where
  "put_edition k e c = c\<lparr>cat_editions := (cat_editions c)(k \<mapsto> e)\<rparr>"

definition spec_create :: "time \<Rightarrow> string \<Rightarrow> string \<Rightarrow> book \<Rightarrow> catalog \<Rightarrow> book promise" where
  "spec_create now i u b c = (let b' = stamped now i u b in (Inr b', put_book b' c))"

definition spec_get :: "string \<Rightarrow> string \<Rightarrow> catalog \<Rightarrow> book promise" where
  "spec_get u i c =
     (case owned c u i of None \<Rightarrow> Inl (Sentinel BookNotFound) | Some b \<Rightarrow> Inr (reader_view c b), c)"

definition spec_list :: "string list \<Rightarrow> string \<Rightarrow> catalog \<Rightarrow> book list promise" where
  "spec_list ks u c =
     (Inr (sort_key CreatedAt (map (reader_view c)
        (filter (\<lambda>b. UserID b = u) (entries ks (cat_books c))))), c)"

definition spec_update :: "time \<Rightarrow> string \<Rightarrow> book \<Rightarrow> catalog \<Rightarrow> book promise" where
  "spec_update now u b c =
     (case owned c u (ID b) of
        None \<Rightarrow> (Inl (Sentinel BookNotFound), c)
      | Some old \<Rightarrow>
          (let b' = b\<lparr>UserID := u, CreatedAt := CreatedAt old, UpdatedAt := now\<rparr>
           in (Inr b', put_book b' c)))"

definition spec_delete :: "string \<Rightarrow> string \<Rightarrow> catalog \<Rightarrow> unit promise" where
  "spec_delete u i c =
     (case owned c u i of
        None \<Rightarrow> (Inl (Sentinel BookNotFound), c)
      | Some _ \<Rightarrow> (Inr (), c\<lparr>cat_books := (cat_books c)(i := None)\<rparr>))"

definition spec_ensure :: "string \<Rightarrow> catalog \<Rightarrow> unit promise" where
  "spec_ensure k c =
     (Inr (), case cat_editions c k of None \<Rightarrow> put_edition k pending_edition c | Some _ \<Rightarrow> c)"

definition edition_or_new :: "string \<Rightarrow> catalog \<Rightarrow> edition" where
  "edition_or_new k c = (case cat_editions c k of None \<Rightarrow> pending_edition | Some e \<Rightarrow> e)"

definition spec_mark_pending :: "string \<Rightarrow> catalog \<Rightarrow> unit promise" where
  "spec_mark_pending k c =
     (Inr (), put_edition k ((edition_or_new k c)\<lparr>ed_status := StatusPending\<rparr>) c)"

definition spec_edition_status :: "string \<Rightarrow> catalog \<Rightarrow> (status \<times> bool) promise" where
  "spec_edition_status k c =
     (Inr (case cat_editions c k of None \<Rightarrow> ([], False) | Some e \<Rightarrow> (ed_status e, True)), c)"

definition spec_save_enrichment ::
  "time \<Rightarrow> string \<Rightarrow> metadata option \<Rightarrow> status \<Rightarrow> catalog \<Rightarrow> unit promise" where
  "spec_save_enrichment now k m st c =
     (let e = (edition_or_new k c)\<lparr>ed_status := st\<rparr>
      in (Inr (), put_edition k
            (case m of None \<Rightarrow> e | Some md \<Rightarrow> e\<lparr>ed_meta := md, ed_at := Some now\<rparr>) c))"

definition spec_save_cover :: "string \<Rightarrow> cover \<Rightarrow> catalog \<Rightarrow> unit promise" where
  "spec_save_cover k cv c =
     (Inr (), put_edition k ((edition_or_new k c)\<lparr>ed_cover := True\<rparr>)
        (c\<lparr>cat_covers := (cat_covers c)(k \<mapsto> cv)\<rparr>))"

text \<open>The part of a cover a response is made of.\<close>

definition served :: "cover \<Rightarrow> string \<times> string \<times> string" where
  "served cv = (c_ContentType cv, c_Bytes cv, c_ETag cv)"

definition spec_cover :: "string \<Rightarrow> string \<Rightarrow> catalog \<Rightarrow> go_error + string \<times> string \<times> string" where
  "spec_cover u i c =
     (case owned c u i of
        None \<Rightarrow> Inl (Sentinel BookNotFound)
      | Some b \<Rightarrow> (case cat_covers c (ISBN b) of
          None \<Rightarrow> Inl (Sentinel BookNotFound) | Some cv \<Rightarrow> Inr (served cv)))"

text \<open>An edition the reconciler must still work on.\<close>

definition unfinished :: "catalog \<Rightarrow> string \<Rightarrow> bool" where
  "unfinished c k \<longleftrightarrow> (\<exists>e. cat_editions c k = Some e \<and> ed_status e \<in> {StatusPending, StatusFailed})"

section \<open>The promises keep the invariant\<close>

lemma wf_catalogD:
  assumes "wf_catalog c"
  shows "cat_books c i = Some b \<Longrightarrow> ID b = i" "cat_books c i = Some b \<Longrightarrow> bare b = b"
    "cat_covers c k \<noteq> None \<longleftrightarrow> (\<exists>e. cat_editions c k = Some e \<and> ed_cover e)"
  using assms by (auto simp: wf_catalog_def)

lemma wf_empty [simp]: "wf_catalog empty_catalog"
  by (simp add: wf_catalog_def empty_catalog_def)

lemma put_book_simps [simp]:
  "cat_books (put_book b c) = (cat_books c)(ID b \<mapsto> bare b)"
  "cat_editions (put_book b c) = cat_editions c" "cat_covers (put_book b c) = cat_covers c"
  by (simp_all add: put_book_def)

lemma put_edition_simps [simp]:
  "cat_books (put_edition k e c) = cat_books c" "cat_covers (put_edition k e c) = cat_covers c"
  "cat_editions (put_edition k e c) = (cat_editions c)(k \<mapsto> e)"
  by (simp_all add: put_edition_def)

lemma edition_or_new_Some [simp]: "cat_editions c k = Some e \<Longrightarrow> edition_or_new k c = e"
  by (simp add: edition_or_new_def)

lemma edition_or_new_None [simp]: "cat_editions c k = None \<Longrightarrow> edition_or_new k c = pending_edition"
  by (simp add: edition_or_new_def)

lemma pending_edition_simps [simp]:
  "ed_status pending_edition = StatusPending" "ed_cover pending_edition = False"
  "ed_at pending_edition = None" "ed_meta pending_edition = blank_metadata"
  by (simp_all add: pending_edition_def)

lemma wf_put_book: "wf_catalog c \<Longrightarrow> wf_catalog (put_book b c)"
  by (auto simp: wf_catalog_def)

lemma wf_put_edition:
  "wf_catalog c \<Longrightarrow> ed_cover e = ed_cover (edition_or_new k c) \<Longrightarrow> wf_catalog (put_edition k e c)"
  unfolding wf_catalog_def by (cases "cat_editions c k") auto

lemma wf_spec_create: "wf_catalog c \<Longrightarrow> wf_catalog (snd (spec_create now i u b c))"
  by (simp add: spec_create_def Let_def wf_put_book)

lemma wf_spec_update: "wf_catalog c \<Longrightarrow> wf_catalog (snd (spec_update now u b c))"
  by (simp add: spec_update_def Let_def wf_put_book split: option.split)

lemma wf_spec_delete: "wf_catalog c \<Longrightarrow> wf_catalog (snd (spec_delete u i c))"
  by (auto simp: spec_delete_def wf_catalog_def split: option.split)

lemma wf_spec_ensure: "wf_catalog c \<Longrightarrow> wf_catalog (snd (spec_ensure k c))"
  by (auto simp: spec_ensure_def intro!: wf_put_edition split: option.split)

lemma wf_spec_mark_pending: "wf_catalog c \<Longrightarrow> wf_catalog (snd (spec_mark_pending k c))"
  by (simp add: spec_mark_pending_def wf_put_edition)

lemma wf_spec_save_enrichment:
  "wf_catalog c \<Longrightarrow> wf_catalog (snd (spec_save_enrichment now k m st c))"
  by (auto simp: spec_save_enrichment_def Let_def intro!: wf_put_edition split: option.split)

lemma wf_spec_save_cover: "wf_catalog c \<Longrightarrow> wf_catalog (snd (spec_save_cover k cv c))"
  by (auto simp: spec_save_cover_def wf_catalog_def)

lemmas wf_spec = wf_spec_create wf_spec_update wf_spec_delete wf_spec_ensure wf_spec_mark_pending
  wf_spec_save_enrichment wf_spec_save_cover

section \<open>Facts about the reader's view\<close>

lemma reader_view_simps [simp]:
  "ID (reader_view c b) = ID b" "UserID (reader_view c b) = UserID b"
  "ISBN (reader_view c b) = ISBN b" "Status (reader_view c b) = Status b"
  "Rating (reader_view c b) = Rating b" "Opinion (reader_view c b) = Opinion b"
  "Tags (reader_view c b) = Tags b" "CreatedAt (reader_view c b) = CreatedAt b"
  "UpdatedAt (reader_view c b) = UpdatedAt b" "CoverURL (reader_view c b) = []"
  by (simp_all add: reader_view_def split: option.split)

lemma reader_view_own_names:
  "Title b \<noteq> [] \<Longrightarrow> Title (reader_view c b) = Title b"
  "Author b \<noteq> [] \<Longrightarrow> Author (reader_view c b) = Author b"
  by (simp_all add: reader_view_def split: option.split)

lemma reader_view_cong: "edition_of c b = edition_of d b \<Longrightarrow> reader_view c b = reader_view d b"
  by (simp add: reader_view_def)

lemma reader_view_cover:
  "wf_catalog c \<Longrightarrow> ISBN b \<noteq> [] \<Longrightarrow> HasCover (reader_view c b) \<longleftrightarrow> cat_covers c (ISBN b) \<noteq> None"
  using wf_catalogD(3) [of c "ISBN b"]
  by (auto simp: reader_view_def edition_of_def split: option.split)

lemma owned_SomeD: "owned c u i = Some b \<Longrightarrow> cat_books c i = Some b \<and> UserID b = u"
  by (auto simp: owned_def split: option.splits if_splits)

lemma catalog_eqI:
  fixes c d :: catalog
  assumes "\<And>i. cat_books c i = cat_books d i" "\<And>k. cat_editions c k = cat_editions d k"
    and "\<And>k. cat_covers c k = cat_covers d k"
  shows "c = d"
  using assms by (cases c, cases d) (auto simp: fun_eq_iff)

lemma snd_reads [simp]:
  "snd (spec_get u i c) = c" "snd (spec_list ks u c) = c" "snd (spec_edition_status k c) = c"
  by (simp_all add: spec_get_def spec_list_def spec_edition_status_def)

end
