(* ===== verification/Repository.thy ===== *)
theory Repository
  imports Catalog
begin

text \<open>
  The store interfaces (\<open>internal/books/store.go\<close>) and their contracts. An interface value
  is the record of its methods; the contract of a record of methods is a locale, which says
  through an abstraction to the catalogue that every call either does what the catalogue
  specification promises or reports a failure of the backend.
\<close>

section \<open>The interface\<close>

text \<open>
  \<open>books.Repository\<close> embeds \<open>enrich.Store\<close>. \<open>Create\<close> takes the instant and the identifier
  the store would read from the clock and mint, \<open>ListBooks\<close> (the code's \<open>List\<close>) the
  order in which the store enumerates its books. \<open>Create\<close> and \<open>Update\<close> change the book they
  are given, which the model returns.
\<close>

record 's repository_ops = "'s enrich_store_ops" +
  Create :: "time \<Rightarrow> string \<Rightarrow> string \<Rightarrow> book \<Rightarrow> ('s, go_error, book) call"
  Get :: "string \<Rightarrow> string \<Rightarrow> ('s, go_error, book) call"
  ListBooks :: "string list \<Rightarrow> string \<Rightarrow> ('s, go_error, book list) call"
  Update :: "time \<Rightarrow> string \<Rightarrow> book \<Rightarrow> ('s, go_error, book) call"
  Delete :: "string \<Rightarrow> string \<Rightarrow> ('s, go_error, unit) call"
  EnsureEdition :: "string \<Rightarrow> ('s, go_error, unit) call"
  MarkEditionPending :: "string \<Rightarrow> ('s, go_error, unit) call"
  CoverForBook :: "string \<Rightarrow> string \<Rightarrow> ('s, go_error, cover) call"

section \<open>Contracts\<close>

text \<open>A failure of the backend: any error but the one that says there is no such book.\<close>

definition failed :: "go_error + 'a \<Rightarrow> bool" where
  "failed r \<longleftrightarrow> (\<exists>e. r = Inl e \<and> \<not> errors_Is e BookNotFound)"

lemma failed_simps [simp]:
  "\<not> failed (Inr x)" "\<not> failed (Inl (Sentinel BookNotFound))"
  by (simp_all add: failed_def)

text \<open>
  A call answers its promise: the result and the new catalogue are the promised ones, or the
  backend failed, and then the catalogue is the old one or, when only the reply was lost, the
  promised one.
\<close>

definition answers ::
  "('s \<Rightarrow> catalog) \<Rightarrow> ('s \<Rightarrow> bool) \<Rightarrow> 's \<Rightarrow> (go_error + 'a) \<times> 's \<Rightarrow> 'a promise \<Rightarrow> bool" where
  "answers cat valid s res p \<longleftrightarrow>
     valid (snd res)
   \<and> (fst res = fst p \<and> cat (snd res) = snd p
      \<or> failed (fst res) \<and> (cat (snd res) = cat s \<or> cat (snd res) = snd p))"

text \<open>A call on a healthy backend does not fail and leaves the backend healthy.\<close>

definition delivers :: "('s \<Rightarrow> bool) \<Rightarrow> (go_error + 'a) \<times> 's \<Rightarrow> bool" where
  "delivers ok res \<longleftrightarrow> ok (snd res) \<and> \<not> failed (fst res)"

text \<open>
  What a sweep returns: different ISBNs of unfinished editions, as many as there are up to
  the limit.
\<close>

definition sweep_of :: "int \<Rightarrow> catalog \<Rightarrow> string list \<Rightarrow> bool" where
  "sweep_of limit c xs \<longleftrightarrow> distinct xs \<and> set xs \<subseteq> Collect (unfinished c)
     \<and> length xs = min (nat limit) (card (Collect (unfinished c)))"

definition int4 :: "int \<Rightarrow> bool" where
  "int4 n \<longleftrightarrow> - (2 ^ 31) \<le> n \<and> n < 2 ^ 31"

text \<open>The texts a store is given with a book, with metadata and with a cover.\<close>

definition book_texts :: "book \<Rightarrow> string list" where
  "book_texts b = [ID b, UserID b, ISBN b, Title b, Author b, Status b, Opinion b] @ Tags b"

definition metadata_texts :: "metadata \<Rightarrow> string list" where
  "metadata_texts m = [m_Title m, m_Author m, m_Description m, m_Publisher m, m_PublishedDate m]"

definition cover_texts :: "cover \<Rightarrow> string list" where
  "cover_texts c = [c_ContentType c, c_ETag c, c_SourceURL c]"

lemma sweep_prefix:
  assumes "distinct xs" "set xs = Collect (unfinished c)"
  shows "sweep_of limit c (take (nat limit) xs)"
  using assms set_take_subset [of "nat limit" xs] distinct_card [OF assms(1)]
  unfolding sweep_of_def by (simp add: min.commute)

locale enrich_store =
  fixes R :: "('s, 'z) enrich_store_ops_scheme"
    and cat :: "'s \<Rightarrow> catalog" and valid :: "'s \<Rightarrow> bool" and ok :: "'s \<Rightarrow> bool"
    and accepts :: "string \<Rightarrow> bool" and stamp :: "time \<Rightarrow> time"
  assumes accepts_plain: "ascii t \<Longrightarrow> CHR 0x00 \<notin> set t \<Longrightarrow> accepts t"
    and valid_wf: "valid s \<Longrightarrow> wf_catalog (cat s)"
    and law_pending: "valid s \<Longrightarrow> enumerates ks (cat_editions (cat s)) \<Longrightarrow> 0 < limit \<Longrightarrow>
      (\<exists>xs. answers cat valid s (PendingEnrichment R ks limit s) (Inr xs, cat s)
            \<and> sweep_of limit (cat s) xs)"
    and law_status: "valid s \<Longrightarrow>
      answers cat valid s (EditionStatus R k s) (spec_edition_status k (cat s))"
    and law_save: "valid s \<Longrightarrow>
      answers cat valid s (SaveEnrichment R now k m st s)
        (spec_save_enrichment (stamp now) k m st (cat s))"
    and law_save_cover: "valid s \<Longrightarrow>
      answers cat valid s (SaveCover R k cv s) (spec_save_cover k cv (cat s))"
    and ok_status: "valid s \<Longrightarrow> ok s \<Longrightarrow> accepts k \<Longrightarrow> delivers ok (EditionStatus R k s)"
    and ok_save: "valid s \<Longrightarrow> ok s \<Longrightarrow> accepts k \<Longrightarrow> accepts st \<Longrightarrow>
      \<forall>md. m = Some md \<longrightarrow> int4 (m_PageCount md) \<and> list_all accepts (metadata_texts md) \<Longrightarrow>
      delivers ok (SaveEnrichment R now k m st s)"
    and ok_save_cover: "valid s \<Longrightarrow> ok s \<Longrightarrow> cat_editions (cat s) k \<noteq> None \<Longrightarrow>
      accepts k \<Longrightarrow> list_all accepts (cover_texts cv) \<Longrightarrow> delivers ok (SaveCover R k cv s)"

locale repository = enrich_store R cat valid ok accepts stamp
  for R :: "('s, 'y) repository_ops_scheme"
    and cat :: "'s \<Rightarrow> catalog" and valid :: "'s \<Rightarrow> bool" and ok :: "'s \<Rightarrow> bool"
    and accepts :: "string \<Rightarrow> bool" and stamp :: "time \<Rightarrow> time" +
  assumes law_create: "valid s \<Longrightarrow> CoverURL b = [] \<Longrightarrow>
      answers cat valid s (Create R now i u b s) (spec_create (stamp now) i u b (cat s))"
    and law_get: "valid s \<Longrightarrow> answers cat valid s (Get R u i s) (spec_get u i (cat s))"
    and law_list: "valid s \<Longrightarrow> enumerates ks (cat_books (cat s)) \<Longrightarrow>
      answers cat valid s (ListBooks R ks u s) (spec_list ks u (cat s))"
    and law_update: "valid s \<Longrightarrow> CoverURL b = [] \<Longrightarrow>
      answers cat valid s (Update R now u b s) (spec_update (stamp now) u b (cat s))"
    and law_delete: "valid s \<Longrightarrow> answers cat valid s (Delete R u i s) (spec_delete u i (cat s))"
    and law_ensure: "valid s \<Longrightarrow> answers cat valid s (EnsureEdition R k s) (spec_ensure k (cat s))"
    and law_mark: "valid s \<Longrightarrow>
      answers cat valid s (MarkEditionPending R k s) (spec_mark_pending k (cat s))"
    and law_cover: "valid s \<Longrightarrow>
      answers cat valid s (map_prod (map_sum id served) id (CoverForBook R u i s))
        (spec_cover u i (cat s), cat s)"
    and ok_create: "valid s \<Longrightarrow> ok s \<Longrightarrow> cat_books (cat s) i = None \<Longrightarrow> isbnShape (ISBN b) \<Longrightarrow>
      int4 (Rating b) \<Longrightarrow> list_all accepts (book_texts (stamped 0 i u b)) \<Longrightarrow>
      delivers ok (Create R now i u b s)"
    and ok_get: "valid s \<Longrightarrow> ok s \<Longrightarrow> accepts u \<Longrightarrow> accepts i \<Longrightarrow> delivers ok (Get R u i s)"
    and ok_list: "valid s \<Longrightarrow> ok s \<Longrightarrow> accepts u \<Longrightarrow> delivers ok (ListBooks R ks u s)"
    and ok_update: "valid s \<Longrightarrow> ok s \<Longrightarrow>
      isbnShape (ISBN b) \<or> (\<exists>old. cat_books (cat s) (ID b) = Some old \<and> ISBN old = ISBN b) \<Longrightarrow>
      int4 (Rating b) \<Longrightarrow> list_all accepts (book_texts (b\<lparr>UserID := u\<rparr>)) \<Longrightarrow>
      delivers ok (Update R now u b s)"
    and ok_delete: "valid s \<Longrightarrow> ok s \<Longrightarrow> accepts u \<Longrightarrow> accepts i \<Longrightarrow> delivers ok (Delete R u i s)"
    and ok_ensure: "valid s \<Longrightarrow> ok s \<Longrightarrow> accepts k \<Longrightarrow> delivers ok (EnsureEdition R k s)"
    and ok_mark: "valid s \<Longrightarrow> ok s \<Longrightarrow> accepts k \<Longrightarrow> delivers ok (MarkEditionPending R k s)"
    and ok_cover: "valid s \<Longrightarrow> ok s \<Longrightarrow> accepts u \<Longrightarrow> accepts i \<Longrightarrow> delivers ok (CoverForBook R u i s)"

section \<open>Reading a contract\<close>

lemma answersE:
  assumes "answers cat valid s res p"
  obtains (kept) "valid (snd res)" "fst res = fst p" "cat (snd res) = snd p"
    | (lost) "valid (snd res)" "failed (fst res)" "cat (snd res) = cat s \<or> cat (snd res) = snd p"
  using assms by (auto simp: answers_def)

lemma answers_inv: "answers cat valid s res p \<Longrightarrow> valid (snd res)"
  by (auto simp: answers_def)

lemma answers_Inr:
  "answers cat valid s (Inr x, s') p \<Longrightarrow> valid s' \<and> fst p = Inr x \<and> cat s' = snd p"
  by (auto simp: answers_def)

lemma answers_delivered:
  "answers cat valid s res p \<Longrightarrow> delivers ok res \<Longrightarrow>
   fst res = fst p \<and> cat (snd res) = snd p \<and> valid (snd res) \<and> ok (snd res)"
  by (auto simp: answers_def delivers_def)

lemma answers_read: "answers cat valid s res (r, cat s) \<Longrightarrow> cat (snd res) = cat s"
  by (auto simp: answers_def)

end
