(* ===== verification/Auth.thy ===== *)
theory Auth
  imports Go_Strings
begin

text \<open>
  Authentication and authorisation (\<open>internal/auth/auth.go\<close>): reading the bearer token of a
  request, checking it, requiring a group, and attaching the identity to the request's
  context. The OpenID Connect library that checks a token's signature, issuer, audience and
  expiry and decodes its claims is third-party code: it is the argument \<open>oidc\<close>.
\<close>

section \<open>Identity and context\<close>

record identity =
  Subject :: string
  Username :: string
  Groups :: "string list"

definition zero_identity :: identity where
  "zero_identity = \<lparr>Subject = [], Username = [], Groups = []\<rparr>"

text \<open>The one value the program stores in a request context.\<close>

type_synonym request_context = "identity option"

definition FromContext :: "request_context \<Rightarrow> identity \<times> bool" where
  "FromContext ctx = (case ctx of None \<Rightarrow> (zero_identity, False) | Some i \<Rightarrow> (i, True))"

definition ContextWithIdentity :: "request_context \<Rightarrow> identity \<Rightarrow> request_context" where
  "ContextWithIdentity ctx i = Some i"

section \<open>Verifying a token\<close>

text \<open>A verified token: its subject, and the result of decoding its claims.\<close>

record token =
  tok_Subject :: string
  tok_Claims :: "go_error + string \<times> string list"

fun contains :: "string list \<Rightarrow> string \<Rightarrow> bool" where
  "contains [] want = False"
| "contains (g # gs) want = (if g = want then True else contains gs want)"

text \<open>\<open>Verify\<close> returns an identity together with an error, and the identity also when refused.\<close>

definition Verify ::
  "(string \<Rightarrow> go_error + token) \<Rightarrow> string \<Rightarrow> string \<Rightarrow> identity \<times> go_error option" where
  "Verify oidc requiredGroup rawToken =
     (case oidc rawToken of
        Inl err \<Rightarrow> (zero_identity, Some (Wrap ''verify token'' (Sentinel Unauthenticated)))
      | Inr token \<Rightarrow>
          (case tok_Claims token of
             Inl err \<Rightarrow> (zero_identity, Some (Wrap ''decode claims'' (Sentinel Unauthenticated)))
           | Inr (username, groups) \<Rightarrow>
               (let i = \<lparr>Subject = tok_Subject token, Username = username, Groups = groups\<rparr>
                in if requiredGroup \<noteq> [] \<and> \<not> contains groups requiredGroup
                   then (i, Some (Wrap ''not in group'' (Sentinel Forbidden)))
                   else (i, None))))"

text \<open>
  The constructor runs discovery against the issuer; what it finds verifies tokens for an
  audience.
\<close>

definition NewOIDCVerifier ::
  "(string \<Rightarrow> go_error + (string \<Rightarrow> string \<Rightarrow> go_error + token)) \<Rightarrow> string \<Rightarrow> string \<Rightarrow> string
     \<Rightarrow> go_error + (string \<Rightarrow> identity \<times> go_error option)" where
  "NewOIDCVerifier discover issuer audience requiredGroup =
     (case discover issuer of
        Inl err \<Rightarrow> Inl (Wrap (''oidc discovery for '' @ issuer) err)
      | Inr verifier \<Rightarrow> Inr (Verify (verifier audience) requiredGroup))"

section \<open>The middlewares\<close>

text \<open>
  \<open>strings.EqualFold\<close> against the scheme name: none of its letters is the case variant of a
  code point beyond ASCII, so only ASCII letters fold.
\<close>

definition ascii_fold :: "char \<Rightarrow> char" where
  "ascii_fold c = (if CHR ''A'' \<le> c \<and> c \<le> CHR ''Z'' then char_of (byte c + 32 :: nat) else c)"

definition EqualFold :: "string \<Rightarrow> string \<Rightarrow> bool" where
  "EqualFold s t \<longleftrightarrow> map ascii_fold s = map ascii_fold t"

definition parseBearer :: "string \<Rightarrow> string \<times> bool" where
  "parseBearer h =
     (let prefix = ''Bearer ''
      in if length h < length prefix \<or> \<not> EqualFold (take (length prefix) h) prefix
         then ([], False)
         else let token = TrimSpace (drop (length prefix) h) in (token, token \<noteq> []))"

text \<open>
  A middleware either writes an error status (\<open>Inl\<close>) or calls the handler with the context
  that carries the identity.
\<close>

definition NewHumaMiddleware ::
  "(string \<Rightarrow> identity \<times> go_error option) \<Rightarrow> string \<Rightarrow> (request_context \<Rightarrow> 'r) \<Rightarrow> nat + 'r" where
  "NewHumaMiddleware verify header next =
     (case parseBearer header of (raw, ok) \<Rightarrow>
        if \<not> ok then Inl 401
        else (case verify raw of (i, err) \<Rightarrow>
          (case err of
             Some e \<Rightarrow> Inl (if errors_Is e Forbidden then 403 else 401)
           | None \<Rightarrow> Inr (next (ContextWithIdentity None i)))))"

definition StaticHumaMiddleware :: "identity \<Rightarrow> string \<Rightarrow> (request_context \<Rightarrow> 'r) \<Rightarrow> nat + 'r" where
  "StaticHumaMiddleware i header next = Inr (next (ContextWithIdentity None i))"

section \<open>Who gets through\<close>

lemma contains_iff [simp]: "contains gs want \<longleftrightarrow> want \<in> set gs"
  by (induction gs) auto

definition authorised :: "(string \<Rightarrow> go_error + token) \<Rightarrow> string \<Rightarrow> string \<Rightarrow> identity \<Rightarrow> bool" where
  "authorised oidc grp raw i \<longleftrightarrow>
     (\<exists>t. oidc raw = Inr t \<and> tok_Claims t = Inr (Username i, Groups i) \<and> Subject i = tok_Subject t
          \<and> (grp = [] \<or> grp \<in> set (Groups i)))"

lemma Verify_accepts: "Verify oidc grp raw = (i, None) \<longleftrightarrow> authorised oidc grp raw i"
  by (cases i) (auto simp: Verify_def authorised_def Let_def split: sum.splits prod.splits)

lemma Verify_forbidden:
  "(\<exists>i e. Verify oidc grp raw = (i, Some e) \<and> errors_Is e Forbidden) \<longleftrightarrow>
   grp \<noteq> [] \<and> (\<exists>t u gs. oidc raw = Inr t \<and> tok_Claims t = Inr (u, gs) \<and> grp \<notin> set gs)"
  by (auto simp: Verify_def Let_def split: sum.splits prod.splits)

lemma Verify_rejects:
  "(\<exists>i e. Verify oidc grp raw = (i, Some e) \<and> \<not> errors_Is e Forbidden) \<longleftrightarrow>
   \<not> (\<exists>t u gs. oidc raw = Inr t \<and> tok_Claims t = Inr (u, gs))"
  by (auto simp: Verify_def Let_def split: sum.splits prod.splits)

text \<open>
  The middleware runs the handler exactly for a request whose Authorization header
  carries a non-empty bearer token that the verifier accepts and whose claims contain the
  required group (when one is configured), with the identity of that token; it answers 403
  exactly when the token is valid but the group is missing, and 401 exactly when there is no
  bearer token or the verifier rejects it or its claims do not decode.
\<close>
theorem middleware_admits:
  "(\<forall>x. NewHumaMiddleware (Verify oidc grp) h (\<lambda>ctx. ctx) = Inr x \<longleftrightarrow>
      (\<exists>i. snd (parseBearer h) \<and> authorised oidc grp (fst (parseBearer h)) i \<and> x = Some i))
   \<and> (NewHumaMiddleware (Verify oidc grp) h (\<lambda>ctx. ctx) = Inl 403 \<longleftrightarrow>
      snd (parseBearer h) \<and> grp \<noteq> [] \<and>
      (\<exists>t u gs. oidc (fst (parseBearer h)) = Inr t \<and> tok_Claims t = Inr (u, gs) \<and> grp \<notin> set gs))
   \<and> (NewHumaMiddleware (Verify oidc grp) h (\<lambda>ctx. ctx) = Inl 401 \<longleftrightarrow>
      \<not> (snd (parseBearer h) \<and>
        (\<exists>t u gs. oidc (fst (parseBearer h)) = Inr t \<and> tok_Claims t = Inr (u, gs))))"
proof (cases "parseBearer h")
  case (Pair raw ok)
  obtain i err where v: "Verify oidc grp raw = (i, err)" by fastforce
  show ?thesis
    using Verify_accepts [of oidc grp raw] Verify_forbidden [of oidc grp raw]
      Verify_rejects [of oidc grp raw]
    by (cases err) (auto simp: NewHumaMiddleware_def Pair v ContextWithIdentity_def)
qed

end
