(* ===== verification/Handlers.thy ===== *)
theory Handlers
  imports Repository Auth
begin

text \<open>
  The book handlers (\<open>internal/books/handlers.go\<close>), written over the store interface as the
  code writes them, with the server's state (the store and the enrichment queue) passed
  through. Routing and the validation of the inputs by their tags are in the theory \<open>Api\<close>; log
  lines have no effect on the state and are left out. The lemmas of the handlers are proved in the contract of the interface, so they hold for both stores.
\<close>

section \<open>Requests, responses and state\<close>

datatype api_error = ApiError (api_status: nat) (api_message: string)

abbreviation error_401 :: api_error where "error_401 \<equiv> ApiError 401 ''unauthenticated''"
abbreviation error_404 :: "string \<Rightarrow> api_error" where "error_404 m \<equiv> ApiError 404 m"
abbreviation error_422 :: "string \<Rightarrow> api_error" where "error_422 m \<equiv> ApiError 422 m"
abbreviation error_500 :: "string \<Rightarrow> api_error" where "error_500 m \<equiv> ApiError 500 m"

text \<open>What one request reads from its surroundings: the clock, the UUID generator, the case tables.\<close>

record runtime =
  clock :: time
  mint :: string
  case_tables :: unicode

record book_write =
  w_ISBN :: string
  w_Title :: string
  w_Author :: string
  w_Status :: string
  w_Rating :: int
  w_Opinion :: string
  w_Tags :: "string list"

record book_patch =
  p_ISBN :: "string option"
  p_Title :: "string option"
  p_Author :: "string option"
  p_Status :: "string option"
  p_Rating :: "int option"
  p_Opinion :: "string option"
  p_Tags :: "string list option"

record ('s, 'w) server =
  db :: 's
  queue :: 'w

type_synonym ('s, 'w, 'a) handler = "('s, 'w) server \<Rightarrow> (api_error + 'a) \<times> ('s, 'w) server"

section \<open>Helpers\<close>

definition toBook :: "book_write \<Rightarrow> book" where
  "toBook w = zero_book\<lparr>ISBN := w_ISBN w, Title := w_Title w, Author := w_Author w,
     Status := w_Status w, Rating := w_Rating w, Opinion := w_Opinion w, Tags := w_Tags w\<rparr>"

definition applyTo :: "book_patch \<Rightarrow> book \<Rightarrow> book" where
  "applyTo p b =
     (let b1 = (case p_ISBN p of None \<Rightarrow> b | Some v \<Rightarrow> b\<lparr>ISBN := v\<rparr>);
          b2 = (case p_Title p of None \<Rightarrow> b1 | Some v \<Rightarrow> b1\<lparr>Title := v\<rparr>);
          b3 = (case p_Author p of None \<Rightarrow> b2 | Some v \<Rightarrow> b2\<lparr>Author := v\<rparr>);
          b4 = (case p_Status p of None \<Rightarrow> b3 | Some v \<Rightarrow> b3\<lparr>Status := v\<rparr>);
          b5 = (case p_Rating p of None \<Rightarrow> b4 | Some v \<Rightarrow> b4\<lparr>Rating := v\<rparr>);
          b6 = (case p_Opinion p of None \<Rightarrow> b5 | Some v \<Rightarrow> b5\<lparr>Opinion := v\<rparr>)
      in (case p_Tags p of None \<Rightarrow> b6 | Some v \<Rightarrow> b6\<lparr>Tags := v\<rparr>))"

definition requireUser :: "request_context \<Rightarrow> api_error + string" where
  "requireUser ctx =
     (case FromContext ctx of (i, ok) \<Rightarrow>
        if \<not> ok \<or> Subject i = [] then Inl error_401 else Inr (Subject i))"

definition ErrInvalidISBN_text :: string where
  "ErrInvalidISBN_text = ''isbn must be 10 or 13 characters once separators are removed''"

definition isbnFromInput :: "runtime \<Rightarrow> string \<Rightarrow> api_error + string" where
  "isbnFromInput rt raw =
     (case canonicalISBN (case_tables rt) raw of
        Inl err \<Rightarrow> Inl (error_422 ErrInvalidISBN_text)
      | Inr isbn \<Rightarrow> Inr isbn)"

definition setCoverURL :: "book \<Rightarrow> book" where
  "setCoverURL b = (if HasCover b then b\<lparr>CoverURL := ''/books/'' @ ID b @ ''/cover''\<rparr> else b)"

definition enqueueEnrichment ::
  "('s, 'y) repository_ops_scheme \<Rightarrow> 'w enqueuer \<Rightarrow> string \<Rightarrow> ('s, 'w) server \<Rightarrow> ('s, 'w) server" where
  "enqueueEnrichment R enq isbn sv =
     (if isbn = [] then sv
      else (case EnsureEdition R isbn (db sv) of
              (Inl err, s1) \<Rightarrow> sv\<lparr>db := s1\<rparr>
            | (Inr _, s1) \<Rightarrow> sv\<lparr>db := s1, queue := enq isbn (queue sv)\<rparr>))"

section \<open>Handlers\<close>

definition h_create ::
  "('s, 'y) repository_ops_scheme \<Rightarrow> 'w enqueuer \<Rightarrow> runtime \<Rightarrow> request_context \<Rightarrow> book_write
     \<Rightarrow> ('s, 'w, book) handler" where
  "h_create R enq rt ctx body sv =
     (case requireUser ctx of
        Inl err \<Rightarrow> (Inl err, sv)
      | Inr userID \<Rightarrow>
     (case isbnFromInput rt (w_ISBN body) of
        Inl err \<Rightarrow> (Inl err, sv)
      | Inr isbn \<Rightarrow>
     (case Create R (clock rt) (mint rt) userID ((toBook body)\<lparr>ISBN := isbn\<rparr>) (db sv) of
        (Inl err, s1) \<Rightarrow> (Inl (error_500 ''could not save book''), sv\<lparr>db := s1\<rparr>)
      | (Inr b, s1) \<Rightarrow>
          (let sv2 = enqueueEnrichment R enq (ISBN b) (sv\<lparr>db := s1\<rparr>)
           in case Get R userID (ID b) (db sv2) of
                (Inl err, s3) \<Rightarrow> (Inl (error_500 ''could not fetch book''), sv2\<lparr>db := s3\<rparr>)
              | (Inr created, s3) \<Rightarrow> (Inr (setCoverURL created), sv2\<lparr>db := s3\<rparr>)))))"

definition h_list ::
  "('s, 'y) repository_ops_scheme \<Rightarrow> string list \<Rightarrow> request_context \<Rightarrow> ('s, 'w, book list) handler" where
  "h_list R order ctx sv =
     (case requireUser ctx of
        Inl err \<Rightarrow> (Inl err, sv)
      | Inr userID \<Rightarrow>
     (case ListBooks R order userID (db sv) of
        (Inl err, s1) \<Rightarrow> (Inl (error_500 ''could not list books''), sv\<lparr>db := s1\<rparr>)
      | (Inr bs, s1) \<Rightarrow> (Inr (map setCoverURL bs), sv\<lparr>db := s1\<rparr>)))"

definition h_get ::
  "('s, 'y) repository_ops_scheme \<Rightarrow> request_context \<Rightarrow> string \<Rightarrow> ('s, 'w, book) handler" where
  "h_get R ctx bid sv =
     (case requireUser ctx of
        Inl err \<Rightarrow> (Inl err, sv)
      | Inr userID \<Rightarrow>
     (case Get R userID bid (db sv) of
        (Inl err, s1) \<Rightarrow>
          (Inl (if errors_Is err BookNotFound then error_404 ''book not found''
                else error_500 ''could not fetch book''), sv\<lparr>db := s1\<rparr>)
      | (Inr b, s1) \<Rightarrow> (Inr (setCoverURL b), sv\<lparr>db := s1\<rparr>)))"

text \<open>A PATCH with an ISBN carries the canonical form from here on.\<close>

definition canonical_patch :: "runtime \<Rightarrow> book_patch \<Rightarrow> api_error + book_patch" where
  "canonical_patch rt body =
     (case p_ISBN body of
        None \<Rightarrow> Inr body
      | Some raw \<Rightarrow>
          (case isbnFromInput rt raw of
             Inl err \<Rightarrow> Inl err
           | Inr canonical \<Rightarrow> Inr (body\<lparr>p_ISBN := Some canonical\<rparr>)))"

definition h_update ::
  "('s, 'y) repository_ops_scheme \<Rightarrow> 'w enqueuer \<Rightarrow> runtime \<Rightarrow> request_context \<Rightarrow> string \<Rightarrow> book_patch
     \<Rightarrow> ('s, 'w, book) handler" where
  "h_update R enq rt ctx bid body sv =
     (case requireUser ctx of
        Inl err \<Rightarrow> (Inl err, sv)
      | Inr userID \<Rightarrow>
     (case Get R userID bid (db sv) of
        (Inl err, s1) \<Rightarrow>
          (Inl (if errors_Is err BookNotFound then error_404 ''book not found''
                else error_500 ''could not fetch book''), sv\<lparr>db := s1\<rparr>)
      | (Inr existing, s1) \<Rightarrow>
     (case canonical_patch rt body of
        Inl err \<Rightarrow> (Inl err, sv\<lparr>db := s1\<rparr>)
      | Inr body' \<Rightarrow>
          (let oldISBN = ISBN existing
           in case Update R (clock rt) userID (applyTo body' existing) s1 of
                (Inl err, s2) \<Rightarrow>
                  (Inl (if errors_Is err BookNotFound then error_404 ''book not found''
                        else error_500 ''could not update book''), sv\<lparr>db := s2\<rparr>)
              | (Inr updated, s2) \<Rightarrow>
                  (let sv2 = sv\<lparr>db := s2\<rparr>;
                       sv3 = (if ISBN updated \<noteq> oldISBN
                              then enqueueEnrichment R enq (ISBN updated) sv2 else sv2)
                   in case Get R userID bid (db sv3) of
                        (Inl err, s4) \<Rightarrow> (Inl (error_500 ''could not fetch book''), sv3\<lparr>db := s4\<rparr>)
                      | (Inr b, s4) \<Rightarrow> (Inr (setCoverURL b), sv3\<lparr>db := s4\<rparr>))))))"

definition h_delete ::
  "('s, 'y) repository_ops_scheme \<Rightarrow> request_context \<Rightarrow> string \<Rightarrow> ('s, 'w, unit) handler" where
  "h_delete R ctx bid sv =
     (case requireUser ctx of
        Inl err \<Rightarrow> (Inl err, sv)
      | Inr userID \<Rightarrow>
     (case Delete R userID bid (db sv) of
        (Inl err, s1) \<Rightarrow>
          (Inl (if errors_Is err BookNotFound then error_404 ''book not found''
                else error_500 ''could not delete book''), sv\<lparr>db := s1\<rparr>)
      | (Inr _, s1) \<Rightarrow> (Inr (), sv\<lparr>db := s1\<rparr>)))"

record cover_output =
  out_ContentType :: string
  out_CacheControl :: string
  out_ETag :: string
  out_Body :: string

definition h_cover ::
  "('s, 'y) repository_ops_scheme \<Rightarrow> request_context \<Rightarrow> string \<Rightarrow> ('s, 'w, cover_output) handler" where
  "h_cover R ctx bid sv =
     (case requireUser ctx of
        Inl err \<Rightarrow> (Inl err, sv)
      | Inr userID \<Rightarrow>
     (case CoverForBook R userID bid (db sv) of
        (Inl err, s1) \<Rightarrow>
          (Inl (if errors_Is err BookNotFound then error_404 ''cover not found''
                else error_500 ''could not fetch cover''), sv\<lparr>db := s1\<rparr>)
      | (Inr c, s1) \<Rightarrow>
          (Inr \<lparr>out_ContentType = c_ContentType c, out_CacheControl = ''private, max-age=86400'',
                out_ETag = c_ETag c, out_Body = c_Bytes c\<rparr>, sv\<lparr>db := s1\<rparr>)))"

record refresh_output =
  out_Status :: string
  out_ISBN :: string

definition h_refresh ::
  "('s, 'y) repository_ops_scheme \<Rightarrow> 'w enqueuer \<Rightarrow> request_context \<Rightarrow> string
     \<Rightarrow> ('s, 'w, refresh_output) handler" where
  "h_refresh R enq ctx bid sv =
     (case requireUser ctx of
        Inl err \<Rightarrow> (Inl err, sv)
      | Inr userID \<Rightarrow>
     (case Get R userID bid (db sv) of
        (Inl err, s1) \<Rightarrow>
          (Inl (if errors_Is err BookNotFound then error_404 ''book not found''
                else error_500 ''could not fetch book''), sv\<lparr>db := s1\<rparr>)
      | (Inr b, s1) \<Rightarrow>
          (if ISBN b = [] then (Inl (error_422 ''book has no ISBN to enrich''), sv\<lparr>db := s1\<rparr>)
           else (case MarkEditionPending R (ISBN b) s1 of
                   (Inl err, s2) \<Rightarrow> (Inl (error_500 ''could not queue refresh''), sv\<lparr>db := s2\<rparr>)
                 | (Inr _, s2) \<Rightarrow>
                     (Inr \<lparr>out_Status = ''queued'', out_ISBN = ISBN b\<rparr>,
                      sv\<lparr>db := s2, queue := enq (ISBN b) (queue sv)\<rparr>)))))"

section \<open>Dispatch\<close>

text \<open>The operations \<open>Register\<close> wires to the routes.\<close>

datatype request =
    CreateBook book_write
  | ListTheBooks
  | GetBook string
  | UpdateBook string book_patch
  | DeleteBook string
  | GetCover string
  | RefreshBook string

datatype response =
    RBook book
  | RBooks "book list"
  | RNoContent
  | RCover cover_output
  | RRefresh refresh_output

definition handle ::
  "('s, 'y) repository_ops_scheme \<Rightarrow> 'w enqueuer \<Rightarrow> string list \<Rightarrow> runtime \<Rightarrow> request_context \<Rightarrow> request
     \<Rightarrow> ('s, 'w, response) handler" where
  "handle R enq order rt ctx req sv =
     (case req of
        CreateBook w \<Rightarrow> apfst (map_sum id RBook) (h_create R enq rt ctx w sv)
      | ListTheBooks \<Rightarrow> apfst (map_sum id RBooks) (h_list R order ctx sv)
      | GetBook i \<Rightarrow> apfst (map_sum id RBook) (h_get R ctx i sv)
      | UpdateBook i p \<Rightarrow> apfst (map_sum id RBook) (h_update R enq rt ctx i p sv)
      | DeleteBook i \<Rightarrow> apfst (map_sum id (\<lambda>_. RNoContent)) (h_delete R ctx i sv)
      | GetCover i \<Rightarrow> apfst (map_sum id RCover) (h_cover R ctx i sv)
      | RefreshBook i \<Rightarrow> apfst (map_sum id RRefresh) (h_refresh R enq ctx i sv))"

end
