(* ===== verification/Http_Client.thy ===== *)
theory Http_Client
  imports Go_Strings
begin

text \<open>
  The shared HTTP client of the providers (\<open>internal/enrich/httpclient.go\<close>): one GET with
  retries. The network is a state of arbitrary type; what it answers, which addresses the
  library refuses to build a request for, and whether the caller's context ends during a
  pause are the operations of the record \<open>http\<close>. Durations are nanoseconds.
\<close>

section \<open>The network\<close>

text \<open>
  A response: the header lookup, and the body as the bytes it delivers followed by its end
  or by a read error.
\<close>

record http_response =
  StatusCode :: int
  Header :: "string \<Rightarrow> string"
  body_bytes :: string
  body_error :: "go_error option"

record 'n http =
  NewRequest :: "string \<Rightarrow> go_error option"
  Do :: "string \<Rightarrow> string \<Rightarrow> ('n, go_error, http_response) call"
  Pause :: "int \<Rightarrow> 'n \<Rightarrow> go_error option \<times> 'n"

definition StatusTooManyRequests :: int where
  "StatusTooManyRequests = 429"

section \<open>A GET with retries\<close>

definition maxAttempts :: int where
  "maxAttempts = 3"

definition transient :: "go_error + http_response \<Rightarrow> bool" where
  "transient a = (case a of Inl err \<Rightarrow> True
     | Inr resp \<Rightarrow> StatusCode resp = StatusTooManyRequests \<or> StatusCode resp \<ge> 500)"

text \<open>The error the loop remembers of a transient answer.\<close>

definition attempt_error :: "go_error + http_response \<Rightarrow> go_error" where
  "attempt_error a = (case a of Inl err \<Rightarrow> err
     | Inr resp \<Rightarrow> Opaque (''status '' @ Itoa (StatusCode resp)))"

text \<open>
  The loop: \<open>lastErr\<close> is nil before the first attempt. The pause after an attempt ends by the
  timer or by the context.
\<close>

function get_loop ::
  "('n, 'z) http_scheme \<Rightarrow> string \<Rightarrow> string \<Rightarrow> int \<Rightarrow> go_error option \<Rightarrow> ('n, go_error, http_response) call"
where
  "get_loop H rawURL agent attempt lastErr n =
     (if attempt \<le> maxAttempts then
        (case NewRequest H rawURL of
           Some err \<Rightarrow> (Inl err, n)
         | None \<Rightarrow>
             (case Do H rawURL agent n of (a, n1) \<Rightarrow>
                if \<not> transient a then (a, n1)
                else if attempt < maxAttempts then
                  (case Pause H (attempt * attempt * (200 * 1000000)) n1 of
                     (Some err, n2) \<Rightarrow> (Inl err, n2)
                   | (None, n2) \<Rightarrow> get_loop H rawURL agent (attempt + 1) (Some (attempt_error a)) n2)
                else get_loop H rawURL agent (attempt + 1) (Some (attempt_error a)) n1))
      else
        (Inl (case lastErr of
                None \<Rightarrow> Opaque ''request failed after 3 attempts''
              | Some err \<Rightarrow> Wrap ''request failed after 3 attempts'' err), n))"
  by pat_completeness auto

termination
  by (relation "measure (\<lambda>(H, rawURL, agent, attempt, lastErr, n). nat (maxAttempts + 1 - attempt))") auto

declare get_loop.simps [simp del]

definition httpGetWithRetry ::
  "('n, 'z) http_scheme \<Rightarrow> string \<Rightarrow> string \<Rightarrow> ('n, go_error, http_response) call" where
  "httpGetWithRetry H rawURL agent = get_loop H rawURL agent 1 None"

text \<open>The three iterations, written out.\<close>

lemma get_loop_unfold:
  "get_loop H u ag 4 e n = (Inl (case e of None \<Rightarrow> Opaque ''request failed after 3 attempts''
      | Some err \<Rightarrow> Wrap ''request failed after 3 attempts'' err), n)"
  "get_loop H u ag 3 e n = (case NewRequest H u of Some err \<Rightarrow> (Inl err, n)
      | None \<Rightarrow> (case Do H u ag n of (a, n1) \<Rightarrow> if \<not> transient a then (a, n1)
          else get_loop H u ag 4 (Some (attempt_error a)) n1))"
  "get_loop H u ag 2 e n = (case NewRequest H u of Some err \<Rightarrow> (Inl err, n)
      | None \<Rightarrow> (case Do H u ag n of (a, n1) \<Rightarrow> if \<not> transient a then (a, n1)
          else (case Pause H 800000000 n1 of (Some err, n2) \<Rightarrow> (Inl err, n2)
            | (None, n2) \<Rightarrow> get_loop H u ag 3 (Some (attempt_error a)) n2)))"
  "get_loop H u ag 1 e n = (case NewRequest H u of Some err \<Rightarrow> (Inl err, n)
      | None \<Rightarrow> (case Do H u ag n of (a, n1) \<Rightarrow> if \<not> transient a then (a, n1)
          else (case Pause H 200000000 n1 of (Some err, n2) \<Rightarrow> (Inl err, n2)
            | (None, n2) \<Rightarrow> get_loop H u ag 2 (Some (attempt_error a)) n2)))"
  by (subst get_loop.simps, simp add: maxAttempts_def cong: option.case_cong prod.case_cong if_cong)+

lemmas retry_simps = httpGetWithRetry_def get_loop_unfold

section \<open>What a GET does to the network\<close>

text \<open>The events of a run, recorded beside the network's state.\<close>

datatype http_event = Sent string string | Paused int

definition recorded :: "('n, 'z) http_scheme \<Rightarrow> ('n \<times> http_event list) http" where
  "recorded H =
     \<lparr>NewRequest = NewRequest H,
      Do = (\<lambda>u ag (n, tr). case Do H u ag n of (a, n') \<Rightarrow> (a, (n', tr @ [Sent u ag]))),
      Pause = (\<lambda>d (n, tr). case Pause H d n of (e, n') \<Rightarrow> (e, (n', tr @ [Paused d])))\<rparr>"

lemma recorded_simps [simp]:
  "NewRequest (recorded H) = NewRequest H"
  "Do (recorded H) u ag (n, tr) = (fst (Do H u ag n), (snd (Do H u ag n), tr @ [Sent u ag]))"
  "Pause (recorded H) d (n, tr) = (fst (Pause H d n), (snd (Pause H d n), tr @ [Paused d]))"
  by (simp_all add: recorded_def split: prod.split)

text \<open>The longest run: three requests for the one address, 200 and 800 milliseconds between them.\<close>

definition longest_run :: "string \<Rightarrow> string \<Rightarrow> http_event list" where
  "longest_run u ag = [Sent u ag, Paused 200000000, Sent u ag, Paused 800000000, Sent u ag]"

lemma recorded_run:
  "\<exists>m \<le> 5. snd (snd (httpGetWithRetry (recorded H) u ag (n, tr))) = tr @ take m (longest_run u ag)
     \<and> fst (httpGetWithRetry (recorded H) u ag (n, tr)) = fst (httpGetWithRetry H u ag n)"
proof (cases "NewRequest H u")
  case (Some err)
  then show ?thesis by (intro exI [of _ 0]) (simp add: retry_simps)
next
  case ok: None
  obtain a1 n1 where d1: "Do H u ag n = (a1, n1)" by fastforce
  obtain e1 n2 where p1: "Pause H 200000000 n1 = (e1, n2)" by fastforce
  obtain a2 n3 where d2: "Do H u ag n2 = (a2, n3)" by fastforce
  obtain e2 n4 where p2: "Pause H 800000000 n3 = (e2, n4)" by fastforce
  obtain a3 n5 where d3: "Do H u ag n4 = (a3, n5)" by fastforce
  let ?m = "if \<not> transient a1 then 1 else if e1 \<noteq> None then 2 else if \<not> transient a2 then 3
    else if e2 \<noteq> None then 4 else (5::nat)"
  show ?thesis
    by (intro exI [of _ ?m])
       (simp add: retry_simps ok d1 p1 d2 p2 d3 longest_run_def numeral_eq_Suc split: option.split)
qed

fun requests :: "http_event list \<Rightarrow> nat" where
  "requests [] = 0"
| "requests (Sent u ag # tr) = Suc (requests tr)"
| "requests (Paused d # tr) = requests tr"

fun pauses :: "http_event list \<Rightarrow> int" where
  "pauses [] = 0"
| "pauses (Sent u ag # tr) = pauses tr"
| "pauses (Paused d # tr) = d + pauses tr"

lemma take_longest_run:
  "m \<le> 5 \<Longrightarrow> requests (take m (longest_run u ag)) \<le> 3 \<and> pauses (take m (longest_run u ag)) \<le> 1000000000
    \<and> set (take m (longest_run u ag)) \<subseteq> {Sent u ag, Paused 200000000, Paused 800000000}"
proof -
  assume "m \<le> 5"
  then have "m \<in> {0, 1, 2, 3, 4, 5}" by auto
  then show ?thesis by (auto simp: longest_run_def numeral_eq_Suc)
qed

text \<open>
  C20: whatever the network does, a GET sends at most three requests, all for the address and
  with the user agent it was given, and pauses at most one second in all; recording the
  events does not change its answer.
\<close>
theorem http_requests_bounded:
  "\<exists>new. snd (snd (httpGetWithRetry (recorded H) u ag (n, tr))) = tr @ new
     \<and> fst (httpGetWithRetry (recorded H) u ag (n, tr)) = fst (httpGetWithRetry H u ag n)
     \<and> requests new \<le> 3 \<and> pauses new \<le> 1000000000
     \<and> set new \<subseteq> {Sent u ag, Paused 200000000, Paused 800000000}"
  using recorded_run [of H u ag n tr] take_longest_run [of _ u ag] by blast

section \<open>What a GET answers\<close>

lemma retry_settled: "fst (httpGetWithRetry H u ag n) = Inr resp \<Longrightarrow> \<not> transient (Inr resp)"
  by (auto simp: retry_simps split: option.splits prod.splits if_splits)

text \<open>What a GET gets to see of the network: the answers to its requests and how its pauses end.\<close>

datatype exchange = Got "go_error + http_response" | Slept "go_error option"

definition watched :: "('n, 'z) http_scheme \<Rightarrow> ('n \<times> exchange list) http" where
  "watched H =
     \<lparr>NewRequest = NewRequest H,
      Do = (\<lambda>u ag (n, tr). case Do H u ag n of (a, n') \<Rightarrow> (a, (n', tr @ [Got a]))),
      Pause = (\<lambda>d (n, tr). case Pause H d n of (e, n') \<Rightarrow> (e, (n', tr @ [Slept e])))\<rparr>"

lemma watched_simps [simp]:
  "NewRequest (watched H) = NewRequest H"
  "Do (watched H) u ag (n, tr) = (fst (Do H u ag n), (snd (Do H u ag n), tr @ [Got (fst (Do H u ag n))]))"
  "Pause (watched H) d (n, tr) = (fst (Pause H d n), (snd (Pause H d n), tr @ [Slept (fst (Pause H d n))]))"
  by (simp_all add: watched_def split: prod.split)

text \<open>The events after which a GET goes on, and the answers among them.\<close>

fun goes_on :: "exchange \<Rightarrow> bool" where
  "goes_on (Got a) = transient a"
| "goes_on (Slept e) = (e = None)"

fun is_got :: "exchange \<Rightarrow> bool" where
  "is_got (Got a) = True"
| "is_got (Slept e) = False"

text \<open>The event that ends a GET as its attempt of a number, and the answer it makes.\<close>

fun concludes :: "nat \<Rightarrow> exchange \<Rightarrow> go_error + http_response \<Rightarrow> bool" where
  "concludes k (Got a) r \<longleftrightarrow>
     (if transient a then k = 3 \<and> r = Inl (Wrap ''request failed after 3 attempts'' (attempt_error a)) else r = a)"
| "concludes k (Slept e) r \<longleftrightarrow> (case e of None \<Rightarrow> False | Some err \<Rightarrow> r = Inl err)"

lemma watched_run:
  assumes "NewRequest H u = None"
  shows "\<exists>before last n'. httpGetWithRetry (watched H) u ag (n, tr)
        = (fst (httpGetWithRetry H u ag n), (n', tr @ before @ [last]))
     \<and> list_all goes_on before
     \<and> concludes (length (filter is_got (before @ [last]))) last (fst (httpGetWithRetry H u ag n))"
proof -
  obtain a1 n1 where d1: "Do H u ag n = (a1, n1)" by fastforce
  obtain e1 n2 where p1: "Pause H 200000000 n1 = (e1, n2)" by fastforce
  obtain a2 n3 where d2: "Do H u ag n2 = (a2, n3)" by fastforce
  obtain e2 n4 where p2: "Pause H 800000000 n3 = (e2, n4)" by fastforce
  obtain a3 n5 where d3: "Do H u ag n4 = (a3, n5)" by fastforce
  let ?k = "if \<not> transient a1 then 0 else if e1 \<noteq> None then 1 else if \<not> transient a2 then 2
    else if e2 \<noteq> None then 3 else (4::nat)"
  let ?evs = "[Got a1, Slept e1, Got a2, Slept e2, Got a3]" and ?ns = "[n1, n2, n3, n4, n5]"
  show ?thesis
    by (rule exI [of _ "take ?k ?evs"], rule exI [of _ "?evs ! ?k"], rule exI [of _ "?ns ! ?k"])
       (simp add: retry_simps assms d1 p1 d2 p2 d3 numeral_eq_Suc split: option.split)
qed

text \<open>
  C21: with any network, a GET whose address the library refuses fails with that error and
  sends nothing. Otherwise its answer is that of the first event that settles it: it goes on
  after a network error, a 429 or a 5xx and after a pause that ran its time, and ends with the
  first other response, with the error of the context that ended during a pause, or, when its
  third request is answered like that too, with the error of that third answer.
\<close>
theorem http_first_settled:
  "case NewRequest H u of
     Some err \<Rightarrow> httpGetWithRetry (watched H) u ag (n, tr) = (Inl err, (n, tr))
       \<and> httpGetWithRetry H u ag n = (Inl err, n)
   | None \<Rightarrow> \<exists>before last n'. httpGetWithRetry (watched H) u ag (n, tr)
         = (fst (httpGetWithRetry H u ag n), (n', tr @ before @ [last]))
       \<and> list_all goes_on before
       \<and> concludes (length (filter is_got (before @ [last]))) last (fst (httpGetWithRetry H u ag n))"
proof (cases "NewRequest H u")
  case None
  then show ?thesis using watched_run [OF None] by simp
qed (simp add: retry_simps)

section \<open>A network that plays a script\<close>

text \<open>A network that plays a script of answers, refuses no address and never ends the context.\<close>

fun next_answer :: "(go_error + http_response) list \<Rightarrow>
  (go_error + http_response) \<times> (go_error + http_response) list" where
  "next_answer [] = (Inl (Opaque ''connection refused''), [])"
| "next_answer (a # as) = (a, as)"

definition scripted :: "(go_error + http_response) list http" where
  "scripted = \<lparr>NewRequest = (\<lambda>u. None), Do = (\<lambda>u ag. next_answer), Pause = (\<lambda>d n. (None, n))\<rparr>"

end
