(* ===== verification/Provider_Contract.thy ===== *)
theory Provider_Contract
  imports Http_Client Enrich_Types
begin

text \<open>
  What the providers of \<open>internal/enrich\<close> share: the interface with the network made explicit,
  the bounded reading of a body, and the contract their covers meet.
\<close>

section \<open>A provider on the network\<close>

record 'n net_provider =
  net_Lookup :: "string \<Rightarrow> ('n, go_error, metadata) call"
  net_FetchCover :: "string \<Rightarrow> ('n, go_error, cover) call"

text \<open>
  What a caller that asks for the metadata of an ISBN and then for its cover observes, from a
  given state of the network.
\<close>

definition observed :: "('n, 'z) net_provider_scheme \<Rightarrow> 'n \<Rightarrow> provider" where
  "observed P n = \<lparr>Lookup = (\<lambda>k. fst (net_Lookup P k n)),
     FetchCover = (\<lambda>k. fst (net_FetchCover P k (snd (net_Lookup P k n))))\<rparr>"

lemma observed_simps [simp]:
  "Lookup (observed P n) k = fst (net_Lookup P k n)"
  "FetchCover (observed P n) k = fst (net_FetchCover P k (snd (net_Lookup P k n)))"
  by (simp_all add: observed_def)

section \<open>Reading a body\<close>

text \<open>
  \<open>io.ReadAll\<close> of \<open>io.LimitReader\<close>: at most \<open>limit\<close> bytes, and the read error only when the
  body ends before.
\<close>

definition read_limited :: "int \<Rightarrow> http_response \<Rightarrow> go_error + string" where
  "read_limited limit resp =
     (if limit \<le> int (length (body_bytes resp)) then Inr (take (nat limit) (body_bytes resp))
      else case body_error resp of Some err \<Rightarrow> Inl err | None \<Rightarrow> Inr (body_bytes resp))"

definition StatusOK :: int where "StatusOK = 200"
definition StatusNotFound :: int where "StatusNotFound = 404"

definition userAgent :: string where
  "userAgent = ''ex-libris/1.0 (self-hosted book tracker)''"

definition defaultCoverMaxBytes :: int where
  "defaultCoverMaxBytes = push_bit 20 5"

lemma defaultCoverMaxBytes_value [simp]: "defaultCoverMaxBytes = 5242880"
  by (simp add: defaultCoverMaxBytes_def push_bit_eq_mult)

section \<open>The contract of covers\<close>

definition cover_within :: "int \<Rightarrow> cover \<Rightarrow> bool" where
  "cover_within cap c \<longleftrightarrow> c_Bytes c \<noteq> [] \<and> int (length (c_Bytes c)) \<le> cap \<and> c_ContentType c \<noteq> []"

locale cover_source =
  fixes P :: "'n net_provider" and cap :: int
  assumes cover_law: "fst (net_FetchCover P k n) = Inr c \<Longrightarrow> cover_within cap c"
begin

lemma observed_within: "FetchCover (observed P n) k = Inr c \<Longrightarrow> cover_within cap c"
  by (auto intro: cover_law)

end

end
