(* ===== verification/Open_Library.thy ===== *)
theory Open_Library
  imports Provider_Contract Isbn
begin

text \<open>
  The Open Library provider (\<open>internal/enrich/openlibrary.go\<close>): the lookup of an ISBN, the
  free-text search, and the cover. The JSON decoder of the standard library is a parameter:
  it turns a response body into the fields the code declares, or an error.
\<close>

section \<open>The provider\<close>

record ol_provider =
  ol_baseURL :: string
  ol_coversURL :: string
  ol_coverMaxBytes :: int

definition defaultOpenLibraryBase :: string where
  "defaultOpenLibraryBase = ''https://openlibrary.org''"
definition defaultCoversBase :: string where
  "defaultCoversBase = ''https://covers.openlibrary.org''"
definition defaultSearchLimit :: int where "defaultSearchLimit = 10"
definition maxSearchLimit :: int where "maxSearchLimit = 25"

definition NewOpenLibraryProvider :: "string \<Rightarrow> string \<Rightarrow> ol_provider" where
  "NewOpenLibraryProvider baseURL coversURL =
     (let b = (if baseURL = [] then defaultOpenLibraryBase else baseURL);
          c = (if coversURL = [] then defaultCoversBase else coversURL)
      in \<lparr>ol_baseURL = TrimRight b (CHR ''/''), ol_coversURL = TrimRight c (CHR ''/''),
          ol_coverMaxBytes = defaultCoverMaxBytes\<rparr>)"

text \<open>The payloads. A list of objects with one field is the list of that field.\<close>

record ol_data =
  od_Title :: string
  od_Authors :: "string list"
  od_Publishers :: "string list"
  od_PublishDate :: string
  od_Pages :: int
  od_Excerpts :: "string list"

record ol_doc =
  doc_Title :: string
  doc_AuthorName :: "string list"
  doc_FirstPublishYear :: int
  doc_Publisher :: "string list"
  doc_ISBN :: "string list"

record ol_json =
  decode_data :: "http_response \<Rightarrow> go_error + (string \<rightharpoonup> ol_data)"
  decode_search :: "http_response \<Rightarrow> go_error + ol_doc list"

definition ol_get :: "('n, 'z) http_scheme \<Rightarrow> string \<Rightarrow> ('n, go_error, http_response) call" where
  "ol_get H rawURL = httpGetWithRetry H rawURL userAgent"

section \<open>Lookup\<close>

definition ol_lookup_url :: "ol_provider \<Rightarrow> string \<Rightarrow> string" where
  "ol_lookup_url p isbn =
     ol_baseURL p @ ''/api/books?bibkeys=ISBN:'' @ QueryEscape isbn @ ''&format=json&jscmd=data''"

definition ol_metadata :: "ol_data \<Rightarrow> metadata" where
  "ol_metadata d = \<lparr>m_Title = od_Title d, m_Author = Join (od_Authors d) '', '',
     m_Description = (case od_Excerpts d of [] \<Rightarrow> [] | x # _ \<Rightarrow> x),
     m_Publisher = (case od_Publishers d of [] \<Rightarrow> [] | x # _ \<Rightarrow> x),
     m_PublishedDate = od_PublishDate d, m_PageCount = od_Pages d\<rparr>"

definition ol_Lookup ::
  "('n, 'z) http_scheme \<Rightarrow> ol_json \<Rightarrow> ol_provider \<Rightarrow> string \<Rightarrow> ('n, go_error, metadata) call" where
  "ol_Lookup H J p isbn n =
     (case ol_get H (ol_lookup_url p isbn) n of
        (Inl err, n1) \<Rightarrow> (Inl err, n1)
      | (Inr resp, n1) \<Rightarrow>
          (if StatusCode resp \<noteq> StatusOK
           then Inl (Opaque (''openlibrary lookup: status '' @ Itoa (StatusCode resp)))
           else case decode_data J resp of
               Inl err \<Rightarrow> Inl (Wrap ''decode openlibrary response'' err)
             | Inr payload \<Rightarrow>
                 (case payload (''ISBN:'' @ isbn) of
                    None \<Rightarrow> Inl (Sentinel EditionNotFound)
                  | Some d \<Rightarrow> Inr (ol_metadata d)), n1))"

section \<open>Choosing an ISBN\<close>

definition isbn13 :: "string \<Rightarrow> bool" where
  "isbn13 s \<longleftrightarrow> length s = 13 \<and> take 2 s = ''97'' \<and> s ! 2 \<in> {CHR ''8'', CHR ''9''}
     \<and> list_all is_digit (drop 3 s)"

definition ol_normal :: "unicode \<Rightarrow> string \<Rightarrow> string" where
  "ol_normal U raw = ToUpper U (filter (\<lambda>c. c \<noteq> CHR ''-'' \<and> c \<noteq> CHR '' '') raw)"

text \<open>The loop, with the fallback found so far.\<close>

fun pick_loop :: "unicode \<Rightarrow> string \<Rightarrow> string list \<Rightarrow> string" where
  "pick_loop U fallback [] = fallback"
| "pick_loop U fallback (raw # candidates) =
     (let isbn = ol_normal U raw
      in if isbn13 isbn then isbn
         else if fallback = [] \<and> length isbn = 10 then pick_loop U isbn candidates
         else pick_loop U fallback candidates)"

definition pickISBN :: "unicode \<Rightarrow> string list \<Rightarrow> string" where
  "pickISBN U candidates = pick_loop U [] candidates"

section \<open>Search\<close>

definition ol_search_url :: "ol_provider \<Rightarrow> string \<Rightarrow> int \<Rightarrow> string" where
  "ol_search_url p query limit =
     ol_baseURL p @ ''/search.json?q='' @ QueryEscape query
       @ ''&fields=title,author_name,first_publish_year,publisher,isbn&limit='' @ Itoa limit"

definition ol_result :: "string \<Rightarrow> ol_doc \<Rightarrow> search_result" where
  "ol_result isbn d = \<lparr>r_ISBN = isbn, r_Title = doc_Title d, r_Author = Join (doc_AuthorName d) '', '',
     r_Publisher = (case doc_Publisher d of [] \<Rightarrow> [] | x # _ \<Rightarrow> x), r_Year = doc_FirstPublishYear d\<rparr>"

fun ol_results :: "unicode \<Rightarrow> ol_doc list \<Rightarrow> search_result list" where
  "ol_results U [] = []"
| "ol_results U (d # docs) =
     (let isbn = pickISBN U (doc_ISBN d)
      in if isbn = [] then ol_results U docs else ol_result isbn d # ol_results U docs)"

definition ol_Search ::
  "unicode \<Rightarrow> ('n, 'z) http_scheme \<Rightarrow> ol_json \<Rightarrow> ol_provider \<Rightarrow> string \<Rightarrow> int \<Rightarrow>
   ('n, go_error, search_result list) call" where
  "ol_Search U H J p query limit n =
     (let query = TrimSpace query
      in if query = [] then (Inr [], n)
         else
           (let l1 = (if limit \<le> 0 then defaultSearchLimit else limit);
                l2 = (if l1 > maxSearchLimit then maxSearchLimit else l1)
            in case ol_get H (ol_search_url p query l2) n of
                 (Inl err, n1) \<Rightarrow> (Inl err, n1)
               | (Inr resp, n1) \<Rightarrow>
                   (if StatusCode resp \<noteq> StatusOK
                    then Inl (Opaque (''openlibrary search: status '' @ Itoa (StatusCode resp)))
                    else case decode_search J resp of
                        Inl err \<Rightarrow> Inl (Wrap ''decode openlibrary search'' err)
                      | Inr docs \<Rightarrow> Inr (ol_results U docs), n1)))"

section \<open>Covers\<close>

definition ol_cover_url :: "ol_provider \<Rightarrow> string \<Rightarrow> string" where
  "ol_cover_url p isbn = ol_coversURL p @ ''/b/isbn/'' @ PathEscape isbn @ ''-L.jpg?default=false''"

definition ol_FetchCover ::
  "('n, 'z) http_scheme \<Rightarrow> ol_provider \<Rightarrow> string \<Rightarrow> ('n, go_error, cover) call" where
  "ol_FetchCover H p isbn n =
     (let u = ol_cover_url p isbn
      in case ol_get H u n of
           (Inl err, n1) \<Rightarrow> (Inl err, n1)
         | (Inr resp, n1) \<Rightarrow>
             (if StatusCode resp = StatusNotFound then Inl (Sentinel NoCover)
              else if StatusCode resp \<noteq> StatusOK
              then Inl (Opaque (''openlibrary cover: status '' @ Itoa (StatusCode resp)))
              else case read_limited (ol_coverMaxBytes p + 1) resp of
                  Inl err \<Rightarrow> Inl (Wrap ''read cover'' err)
                | Inr body \<Rightarrow>
                    if int (length body) > ol_coverMaxBytes p
                    then Inl (Opaque (''cover exceeds '' @ Itoa (ol_coverMaxBytes p) @ '' bytes''))
                    else if body = [] then Inl (Sentinel NoCover)
                    else
                      (let ct = Header resp ''Content-Type''
                       in Inr \<lparr>c_ContentType = (if ct = [] then ''image/jpeg'' else ct),
                               c_Bytes = body, c_ETag = Header resp ''ETag'', c_SourceURL = u\<rparr>), n1))"

text \<open>The provider as the interface.\<close>

definition open_library :: "('n, 'z) http_scheme \<Rightarrow> ol_json \<Rightarrow> ol_provider \<Rightarrow> 'n net_provider" where
  "open_library H J p = \<lparr>net_Lookup = ol_Lookup H J p, net_FetchCover = ol_FetchCover H p\<rparr>"

lemma open_library_simps [simp]:
  "net_Lookup (open_library H J p) = ol_Lookup H J p"
  "net_FetchCover (open_library H J p) = ol_FetchCover H p"
  by (simp_all add: open_library_def)

interpretation ol: cover_source "open_library H J p" "ol_coverMaxBytes p"
proof
  fix k n c
  assume "fst (net_FetchCover (open_library H J p) k n) = Inr c"
  then show "cover_within (ol_coverMaxBytes p) c"
    by (auto simp: ol_FetchCover_def cover_within_def Let_def
        split: prod.splits sum.splits if_splits)
qed

section \<open>What the search returns\<close>

lemma isbn13_shape:
  assumes "isbn13 s"
  shows "isbnShape s"
proof -
  have s: "s = take 2 s @ s ! 2 # drop 3 s"
    using assms id_take_nth_drop [of 2 s] by (simp add: isbn13_def numeral_eq_Suc)
  have "list_all is_digit (take 2 s @ s ! 2 # drop 3 s)"
    using assms by (auto simp: isbn13_def is_digit_byte)
  then have "list_all is_digit s" using s by simp
  then show ?thesis using assms by (simp add: isbnShape_def isbn13_def)
qed

text \<open>The reference: the first candidate that reads as an ISBN-13, else the first of ten bytes.\<close>

definition first_such :: "(string \<Rightarrow> bool) \<Rightarrow> string list \<Rightarrow> string" where
  "first_such Q xs = (case filter Q xs of [] \<Rightarrow> [] | x # _ \<Rightarrow> x)"

lemma pick_loop_spec:
  "pick_loop U f cs =
     (if \<exists>x \<in> set cs. isbn13 (ol_normal U x) then first_such isbn13 (map (ol_normal U) cs)
      else if f \<noteq> [] then f
      else first_such (\<lambda>x. length x = 10) (map (ol_normal U) cs))"
  by (induction cs arbitrary: f) (auto simp: first_such_def Let_def)

lemma first_such_none: "(\<And>x. x \<in> set xs \<Longrightarrow> \<not> Q x) \<Longrightarrow> first_such Q xs = []"
  by (simp add: first_such_def)

lemma first_such_some:
  assumes "x \<in> set xs" "Q x"
  shows "Q (first_such Q xs) \<and> first_such Q xs \<in> set xs"
proof (cases "filter Q xs")
  case (Cons y ys)
  then have "y \<in> {x \<in> set xs. Q x}" by (metis list.set_intros(1) set_filter)
  then show ?thesis using Cons by (simp add: first_such_def)
qed (use assms in \<open>auto simp: filter_empty_conv\<close>)

text \<open>
  C26: of the ISBNs of a work the search takes the first that reads as an ISBN-13, wherever it
  stands, and only without any the first of ten bytes; it takes none exactly when there is
  neither. An ISBN-13 it takes is one that creating a book accepts unchanged.
\<close>
theorem pickISBN_choice:
  "(case filter isbn13 (map (ol_normal U) cs) of
      x # xs \<Rightarrow> pickISBN U cs = x \<and> canonicalISBN V x = Inr x
    | [] \<Rightarrow> pickISBN U cs = first_such (\<lambda>x. length x = 10) (map (ol_normal U) cs))
   \<and> (pickISBN U cs = [] \<longleftrightarrow>
        filter (\<lambda>x. isbn13 x \<or> length x = 10) (map (ol_normal U) cs) = [])"
proof (cases "filter isbn13 (map (ol_normal U) cs)")
  case (Cons x xs)
  then have "x \<in> {x \<in> set (map (ol_normal U) cs). isbn13 x}" by (metis list.set_intros(1) set_filter)
  then have x: "isbn13 x" "x \<in> set (map (ol_normal U) cs)" by simp_all
  then have "pickISBN U cs = x"
    using Cons by (auto simp: pickISBN_def pick_loop_spec first_such_def)
  moreover have "x \<noteq> []" using x(1) by (auto simp: isbn13_def)
  ultimately show ?thesis
    using x Cons canonical_fixed [OF isbn13_shape [OF x(1)]] by (auto simp: filter_empty_conv)
next
  case Nil
  then have none: "\<not> isbn13 (ol_normal U c)" if "c \<in> set cs" for c
    using that by (auto simp: filter_empty_conv)
  then have p: "pickISBN U cs = first_such (\<lambda>x. length x = 10) (map (ol_normal U) cs)"
    by (auto simp: pickISBN_def pick_loop_spec)
  moreover have "pickISBN U cs = [] \<longleftrightarrow> (\<forall>c \<in> set cs. length (ol_normal U c) \<noteq> 10)"
  proof
    assume e: "pickISBN U cs = []"
    show "\<forall>c \<in> set cs. length (ol_normal U c) \<noteq> 10"
    proof
      fix c assume "c \<in> set cs"
      then show "length (ol_normal U c) \<noteq> 10"
        using first_such_some [of "ol_normal U c" "map (ol_normal U) cs" "\<lambda>x. length x = 10"] e p by auto
    qed
  next
    assume "\<forall>c \<in> set cs. length (ol_normal U c) \<noteq> 10"
    then show "pickISBN U cs = []" unfolding p by (intro first_such_none) auto
  qed
  ultimately show ?thesis using Nil none by (auto simp: filter_empty_conv)
qed

end
