(* ===== verification/Url.thy ===== *)
theory Url
  imports Go_Strings
begin

text \<open>
  Reading the addresses the providers build: the decoding of an escaped query component and
  the splitting of a query into its parameters, as \<open>url.QueryUnescape\<close> and \<open>url.ParseQuery\<close>
  of the receiving side do, and the lemmas that escaping is undone by them.
\<close>

section \<open>Decoding\<close>

definition hex_value :: "char \<Rightarrow> nat" where
  "hex_value c = (let b = byte c in if b < 65 then b - 48 else b - 55)"

fun unescape :: "bool \<Rightarrow> string \<Rightarrow> string" where
  "unescape q (c # d # e # s) =
     (if c = CHR ''%'' then char_of (16 * hex_value d + hex_value e) # unescape q s
      else (if q \<and> c = CHR ''+'' then CHR '' '' else c) # unescape q (d # e # s))"
| "unescape q s = map (\<lambda>c. if q \<and> c = CHR ''+'' then CHR '' '' else c) s"

abbreviation QueryUnescape :: "string \<Rightarrow> string" where "QueryUnescape \<equiv> unescape True"
abbreviation PathUnescape :: "string \<Rightarrow> string" where "PathUnescape \<equiv> unescape False"

fun split_at :: "char \<Rightarrow> string \<Rightarrow> string list" where
  "split_at x [] = [[]]"
| "split_at x (c # s) = (if c = x then [] # split_at x s
     else case split_at x s of [] \<Rightarrow> [[c]] | w # ws \<Rightarrow> (c # w) # ws)"

definition parameter :: "string \<Rightarrow> string \<times> string" where
  "parameter s =
     (QueryUnescape (takeWhile (\<lambda>c. c \<noteq> CHR ''='') s),
      QueryUnescape (drop 1 (dropWhile (\<lambda>c. c \<noteq> CHR ''='') s)))"

definition ParseQuery :: "string \<Rightarrow> (string \<times> string) list" where
  "ParseQuery s = map parameter (split_at (CHR ''&'') s)"

section \<open>Escaping is undone\<close>

lemma hex_value_digit: "n < 16 \<Longrightarrow> hex_value (hex_digit n) = n"
  by (simp add: hex_value_def hex_digit_def Let_def)

lemma unescape_percent: "unescape q (percent c @ s) = c # unescape q s"
proof -
  have "byte c div 16 < (16::nat)"
    using byte_less_256 [of c] by (simp add: less_mult_imp_div_less)
  moreover have "16 * (byte c div 16) + byte c mod 16 = (byte c :: nat)" by simp
  ultimately show ?thesis
    by (simp only: percent_def append_Cons append_Nil unescape.simps if_True refl
        hex_value_digit mod_less_divisor zero_less_numeral char_of_byte)
qed

lemma unescape_plain:
  assumes "c \<noteq> CHR ''%''"
  shows "unescape q (c # s) = (if q \<and> c = CHR ''+'' then CHR '' '' else c) # unescape q s"
proof (cases "\<exists>d e t. s = d # e # t")
  case False
  then have "s = [] \<or> (\<exists>d. s = [d])" by (metis neq_Nil_conv)
  then show ?thesis by auto
qed (use assms in auto)

lemma unescape_literal:
  "\<forall>c \<in> set s. c \<noteq> CHR ''%'' \<and> c \<noteq> CHR ''+'' \<Longrightarrow> unescape q (s @ t) = s @ unescape q t"
  by (induction s) (auto simp: unescape_plain)

lemma unreserved_not:
  "unreserved (byte c) \<Longrightarrow> c \<noteq> CHR ''%'' \<and> c \<noteq> CHR ''+'' \<and> c \<noteq> CHR ''&'' \<and> c \<noteq> CHR ''=''"
  by (auto simp: unreserved_def)

lemma unescape_escape: "QueryUnescape (QueryEscape s @ t) = s @ QueryUnescape t"
proof (induction s)
  case (Cons c s)
  then show ?case
    using unreserved_not [of c]
    by (auto simp: QueryEscape_def unescape_percent unescape_plain)
qed (simp add: QueryEscape_def)

lemma unescape_path: "PathUnescape (PathEscape s @ t) = s @ PathUnescape t"
proof (induction s)
  case (Cons c s)
  then show ?case
    using unreserved_not [of c]
    by (auto simp: PathEscape_def unescape_percent unescape_plain)
qed (simp add: PathEscape_def)

lemma QueryUnescape_QueryEscape [simp]: "QueryUnescape (QueryEscape s) = s"
  using unescape_escape [of s "[]"] by simp

lemma PathUnescape_PathEscape [simp]: "PathUnescape (PathEscape s) = s"
  using unescape_path [of s "[]"] by simp

lemma QueryEscape_inject [simp]: "QueryEscape s = QueryEscape t \<longleftrightarrow> s = t"
  by (metis QueryUnescape_QueryEscape)

text \<open>What an escaped component is written with.\<close>

definition query_char :: "char \<Rightarrow> bool" where
  "query_char c \<longleftrightarrow> unreserved (byte c) \<or> c = CHR ''+'' \<or> c = CHR ''%''"

lemma hex_digit_unreserved: "n < 16 \<Longrightarrow> unreserved (byte (hex_digit n))"
  by (auto simp: unreserved_def hex_digit_def)

lemma percent_chars: "c \<in> set (percent d) \<Longrightarrow> query_char c"
  using byte_less_256 [of d] hex_digit_unreserved [of "byte d div 16"] hex_digit_unreserved [of "byte d mod 16"]
  by (auto simp: percent_def query_char_def less_mult_imp_div_less)

lemma QueryEscape_chars: "c \<in> set (QueryEscape s) \<Longrightarrow> query_char c"
  using percent_chars by (auto simp: QueryEscape_def query_char_def split: if_splits)

lemma query_char_not: "query_char c \<Longrightarrow> c \<noteq> CHR ''&'' \<and> c \<noteq> CHR ''=''"
  by (auto simp: query_char_def unreserved_def)

lemma PathEscape_separate: "set (PathEscape s) \<inter> {CHR ''/'', CHR ''?'', CHR ''#''} = {}"
  using percent_chars by (fastforce simp: PathEscape_def query_char_def unreserved_def split: if_splits)

lemma QueryEscape_separate: "CHR ''&'' \<notin> set (QueryEscape s)" "CHR ''='' \<notin> set (QueryEscape s)"
  using QueryEscape_chars query_char_not by blast+

section \<open>Splitting a query\<close>

lemma split_at_none: "x \<notin> set s \<Longrightarrow> split_at x s = [s]"
  by (induction s) auto

lemma split_at_sep: "x \<notin> set s \<Longrightarrow> split_at x (s @ x # t) = s # split_at x t"
  by (induction s) auto

lemma parameter_key:
  assumes "\<forall>c \<in> set k. c \<noteq> CHR ''='' \<and> c \<noteq> CHR ''%'' \<and> c \<noteq> CHR ''+''"
  shows "parameter (k @ CHR ''='' # v) = (k, QueryUnescape v)"
proof -
  have "takeWhile (\<lambda>c. c \<noteq> CHR ''='') (k @ CHR ''='' # v) = k"
    "dropWhile (\<lambda>c. c \<noteq> CHR ''='') (k @ CHR ''='' # v) = CHR ''='' # v"
    using assms by (induction k) auto
  moreover have "QueryUnescape k = k" using unescape_literal [of k True "[]"] assms by simp
  ultimately show ?thesis by (simp add: parameter_def)
qed

section \<open>Decimal numbers\<close>

lemma digits_of_chars: "c \<in> set (digits_of n) \<Longrightarrow> 48 \<le> byte c \<and> byte c \<le> (57::nat)"
proof (induction n rule: digits_of.induct)
  case (1 n)
  then show ?case by (subst (asm) (2) digits_of.simps) (auto split: if_splits)
qed

lemma digits_of_nonempty [simp]: "digits_of n \<noteq> []"
  by (subst digits_of.simps) simp

fun value_of :: "nat \<Rightarrow> string \<Rightarrow> nat" where
  "value_of a [] = a"
| "value_of a (c # s) = value_of (10 * a + (byte c - 48)) s"

lemma value_of_append: "value_of a (s @ t) = value_of (value_of a s) t"
  by (induction s arbitrary: a) simp_all

lemma value_of_digits [simp]: "value_of 0 (digits_of n) = n"
proof (induction n rule: digits_of.induct)
  case (1 n)
  show ?case
  proof (cases "n < 10")
    case True
    then show ?thesis by (subst digits_of.simps) simp
  next
    case False
    then show ?thesis using 1 by (subst digits_of.simps) (simp add: value_of_append)
  qed
qed

lemma Itoa_chars: "c \<in> set (Itoa i) \<Longrightarrow> c = CHR ''-'' \<or> 48 \<le> byte c \<and> byte c \<le> (57::nat)"
  using digits_of_chars by (auto simp: Itoa_def split: if_splits)

lemma Itoa_nonempty [simp]: "Itoa i \<noteq> []"
  by (simp add: Itoa_def)

lemma Itoa_inject [simp]: "Itoa i = Itoa j \<longleftrightarrow> i = j"
proof
  assume e: "Itoa i = Itoa j"
  have sign: "i < 0 \<longleftrightarrow> (\<exists>s. Itoa i = CHR ''-'' # s)" for i
    using digits_of_chars [of "CHR ''-''" "nat i"] by (auto simp: Itoa_def)
  have "(i < 0) = (j < 0)" using sign [of i] sign [of j] e by simp
  moreover have digits: "digits_of m = digits_of n \<longleftrightarrow> m = n" for m n
    by (metis value_of_digits)
  ultimately show "i = j" using e by (auto simp: Itoa_def digits split: if_splits)
qed simp

lemma Itoa_literal: "c \<in> set (Itoa i) \<Longrightarrow> c \<noteq> CHR ''%'' \<and> c \<noteq> CHR ''+'' \<and> c \<noteq> CHR ''&'' \<and> c \<noteq> CHR ''='' \<and> c \<noteq> CHR 0x00"
  using Itoa_chars [of c i] by auto

end
