(* ===== verification/Search.thy ===== *)
theory Search
  imports Handlers Open_Library Url
begin

text \<open>
  The search endpoint (\<open>internal/search/handlers.go\<close>) and its result cache. The mutex of the
  cache makes \<open>get\<close> and \<open>put\<close> atomic; what one request reads from its surroundings (the
  clock at each of its readings, the order in which the map of entries is ranged over) is the
  record \<open>moment\<close>.
\<close>

section \<open>The interface of the provider\<close>

text \<open>\<open>enrich.Searcher\<close>. The first argument is the time budget the caller's context carries.\<close>

record 'n searcher =
  Search :: "int option \<Rightarrow> string \<Rightarrow> int \<Rightarrow> ('n, go_error, search_result list) call"

text \<open>Open Library as a searcher: the network as a call with that budget meets it.\<close>

definition ol_searcher ::
  "unicode \<Rightarrow> (int option \<Rightarrow> 'n http) \<Rightarrow> ol_json \<Rightarrow> ol_provider \<Rightarrow> 'n searcher" where
  "ol_searcher U net J p = \<lparr>Search = (\<lambda>budget. ol_Search U (net budget) J p)\<rparr>"

section \<open>Data\<close>

definition defaultTimeout :: int where "defaultTimeout = 5 * 10 ^ 9"
definition cacheTTL :: int where "cacheTTL = 60 * 10 ^ 9"
definition cacheMaxSize :: nat where "cacheMaxSize = 256"

lemma cacheMaxSize_pos [simp]: "0 < cacheMaxSize"
  by (simp add: cacheMaxSize_def)

record search_hit =
  hit_ISBN :: string
  hit_Title :: string
  hit_Author :: string
  hit_Year :: int
  hit_Publisher :: string

record cache_entry =
  hits :: "search_hit list"
  expiresAt :: time

type_synonym result_cache = "string \<rightharpoonup> cache_entry"

definition newResultCache :: result_cache where
  "newResultCache = Map.empty"

section \<open>The cache\<close>

definition cacheKey :: "unicode \<Rightarrow> string \<Rightarrow> int \<Rightarrow> string" where
  "cacheKey U query limit = ToLower U (Join (Fields query) '' '') @ [CHR 0x00] @ Itoa limit"

definition cache_get ::
  "unicode \<Rightarrow> time \<Rightarrow> string \<Rightarrow> int \<Rightarrow> result_cache \<Rightarrow> search_hit list option" where
  "cache_get U now query limit c =
     (case c (cacheKey U query limit) of
        None \<Rightarrow> None
      | Some entry \<Rightarrow> if now > expiresAt entry then None else Some (hits entry))"

text \<open>
  The loop over the entries of a full cache, with the entry nearest to expiry found so far;
  the zero time stands for none.
\<close>

fun evict_loop ::
  "time \<Rightarrow> string list \<Rightarrow> result_cache \<Rightarrow> string \<Rightarrow> time \<Rightarrow> result_cache \<times> string \<times> time" where
  "evict_loop now [] c oldestKey oldestAt = (c, oldestKey, oldestAt)"
| "evict_loop now (k # ks) c oldestKey oldestAt =
     (case c k of
        None \<Rightarrow> evict_loop now ks c oldestKey oldestAt
      | Some e \<Rightarrow>
          if now > expiresAt e then evict_loop now ks (c(k := None)) oldestKey oldestAt
          else if oldestAt = 0 \<or> expiresAt e < oldestAt then evict_loop now ks c k (expiresAt e)
          else evict_loop now ks c oldestKey oldestAt)"

record moment =
  at_get :: time
  at_sweep :: time
  at_put :: time
  range_order :: "string list"

definition make_room :: "moment \<Rightarrow> result_cache \<Rightarrow> result_cache" where
  "make_room t c =
     (if card (dom c) \<ge> cacheMaxSize then
        (case evict_loop (at_sweep t) (range_order t) c [] 0 of (c1, oldestKey, oldestAt) \<Rightarrow>
           if card (dom c1) \<ge> cacheMaxSize \<and> oldestKey \<noteq> [] then c1(oldestKey := None) else c1)
      else c)"

definition cache_put ::
  "unicode \<Rightarrow> moment \<Rightarrow> string \<Rightarrow> int \<Rightarrow> search_hit list \<Rightarrow> result_cache \<Rightarrow> result_cache" where
  "cache_put U t query limit hs c =
     (make_room t c)(cacheKey U query limit \<mapsto> \<lparr>hits = hs, expiresAt = at_put t + cacheTTL\<rparr>)"

section \<open>The handler\<close>

record 'n search_handler =
  searcher :: "'n searcher option"
  timeout :: int
  cache :: result_cache

definition NewSearchHandler :: "'n searcher option \<Rightarrow> 'n search_handler" where
  "NewSearchHandler s = \<lparr>searcher = s, timeout = defaultTimeout, cache = newResultCache\<rparr>"

definition hit_of :: "search_result \<Rightarrow> search_hit" where
  "hit_of r = \<lparr>hit_ISBN = r_ISBN r, hit_Title = r_Title r, hit_Author = r_Author r,
     hit_Year = r_Year r, hit_Publisher = r_Publisher r\<rparr>"

definition h_search ::
  "unicode \<Rightarrow> moment \<Rightarrow> request_context \<Rightarrow> string \<Rightarrow> int \<Rightarrow> 'n search_handler \<times> 'n
     \<Rightarrow> (api_error + search_hit list) \<times> 'n search_handler \<times> 'n" where
  "h_search U t ctx q limit hn =
     (case hn of (h, n) \<Rightarrow>
      case FromContext ctx of (i, ok) \<Rightarrow>
        if \<not> ok \<or> Subject i = [] then (Inl error_401, (h, n))
        else
     (case searcher h of
        None \<Rightarrow> (Inl (ApiError 503 ''search is not available''), (h, n))
      | Some s \<Rightarrow>
          (let query = TrimSpace q
           in case cache_get U (at_get t) query limit (cache h) of
                Some hs \<Rightarrow> (Inr hs, (h, n))
              | None \<Rightarrow>
                  (case Search s (Some (timeout h)) query limit n of
                     (Inl err, n1) \<Rightarrow>
                       (Inl (if errors_Is err DeadlineExceeded then ApiError 504 ''search timed out''
                             else ApiError 502 ''search provider unavailable''), (h, n1))
                   | (Inr found, n1) \<Rightarrow>
                       (let hs = map hit_of found
                        in (Inr hs, (h\<lparr>cache := cache_put U t query limit hs (cache h)\<rparr>, n1)))))))"

section \<open>Keys\<close>

text \<open>The text a key is made of: case and spacing folded.\<close>

definition folded :: "unicode \<Rightarrow> string \<Rightarrow> string" where
  "folded U query = ToLower U (Join (Fields query) '' '')"

lemma first_separator:
  "x \<notin> set a \<Longrightarrow> x \<notin> set b \<Longrightarrow> a @ x # s = b @ x # t \<longleftrightarrow> a = b \<and> s = t"
proof (induction a arbitrary: b)
  case Nil
  then show ?case by (cases b) auto
next
  case (Cons y a)
  then show ?case by (cases b) auto
qed

lemma last_separator:
  assumes "x \<notin> set t" "x \<notin> set t'"
  shows "s @ x # t = s' @ x # t' \<longleftrightarrow> s = s' \<and> t = t'"
proof -
  have "s @ x # t = s' @ x # t' \<longleftrightarrow> rev (s @ x # t) = rev (s' @ x # t')" by (rule rev_is_rev_conv [symmetric])
  then show ?thesis using first_separator [of x "rev t" "rev t'" "rev s" "rev s'"] assms by auto
qed

text \<open>
  C29: two searches share a cache entry exactly when their texts agree up to case and spacing
  and they ask for the same number of results, whatever bytes the texts contain.
\<close>
theorem cacheKey_iff:
  "cacheKey U q l = cacheKey U q' l' \<longleftrightarrow> folded U q = folded U q' \<and> l = l'"
  using last_separator [of "CHR 0x00" "Itoa l" "Itoa l'" "folded U q" "folded U q'"] Itoa_literal
  by (auto simp: cacheKey_def folded_def)

lemma cacheKey_nonempty [simp]: "cacheKey U q l \<noteq> []"
  by (simp add: cacheKey_def)

section \<open>The size of the cache\<close>

text \<open>
  The invariant of the entries: few, with a key that is not empty (so the loop's initial key
  is told apart) and an expiry after the zero time (so the loop's initial time is).
\<close>

definition cache_ok :: "result_cache \<Rightarrow> bool" where
  "cache_ok c \<longleftrightarrow> finite (dom c) \<and> card (dom c) \<le> cacheMaxSize \<and> [] \<notin> dom c
     \<and> (\<forall>e \<in> ran c. 0 < expiresAt e)"

definition expired :: "time \<Rightarrow> result_cache \<Rightarrow> string \<Rightarrow> bool" where
  "expired now c k \<longleftrightarrow> (\<exists>e. c k = Some e \<and> expiresAt e < now)"

definition fresh_part :: "time \<Rightarrow> result_cache \<Rightarrow> result_cache" where
  "fresh_part now c = (\<lambda>k. if expired now c k then None else c k)"

text \<open>The loop drops the expired entries and finds an entry with the smallest expiry.\<close>

definition oldest :: "result_cache \<Rightarrow> string set \<Rightarrow> string \<Rightarrow> time \<Rightarrow> bool" where
  "oldest c A k t \<longleftrightarrow> k \<in> A \<and> (\<exists>e. c k = Some e \<and> expiresAt e = t)
     \<and> (\<forall>j \<in> A. \<forall>e. c j = Some e \<longrightarrow> t \<le> expiresAt e)"

lemma evict_loop_map:
  "distinct ks \<Longrightarrow> fst (evict_loop now ks c k t) = (\<lambda>j. if j \<in> set ks then fresh_part now c j else c j)"
proof (induction ks arbitrary: c k t)
  case (Cons i ks)
  then show ?case
    by (auto simp: fresh_part_def expired_def fun_eq_iff split: option.split)
qed simp

lemma evict_loop_fresh:
  assumes "enumerates ks c"
  shows "fst (evict_loop now ks c k t) = fresh_part now c"
  using assms evict_loop_map [of ks now c k t]
  by (auto simp: enumerates_def fun_eq_iff fresh_part_def expired_def)

lemma evict_loop_oldest:
  assumes "\<forall>j \<in> A \<union> set ks. \<exists>e. c j = Some e \<and> 0 < expiresAt e \<and> \<not> expiresAt e < now"
    and "A = {} \<and> t = 0 \<or> oldest c A k t" and "A \<union> set ks \<noteq> {}"
  shows "\<exists>k' t'. evict_loop now ks c k t = (c, k', t') \<and> oldest c (A \<union> set ks) k' t'"
  using assms
proof (induction ks arbitrary: A k t)
  case (Cons i ks)
  obtain e where e: "c i = Some e" "0 < expiresAt e" "\<not> expiresAt e < now" using Cons.prems(1) by auto
  have all: "\<forall>j \<in> insert i A \<union> set ks. \<exists>e. c j = Some e \<and> 0 < expiresAt e \<and> \<not> expiresAt e < now"
    using Cons.prems(1) by auto
  show ?case
  proof (cases "t = 0 \<or> expiresAt e < t")
    case True
    have "oldest c (insert i A) i (expiresAt e)"
      using True Cons.prems(1,2) e by (fastforce simp: oldest_def)
    then show ?thesis using Cons.IH [OF all, of "expiresAt e" i] True e by (simp add: insert_commute)
  next
    case False
    then have "oldest c (insert i A) k t" using Cons.prems(2) e by (auto simp: oldest_def)
    then show ?thesis using Cons.IH [OF all, of t k] False e by (simp add: insert_commute)
  qed
qed auto

lemma cache_ok_less:
  assumes "cache_ok c" "c' \<subseteq>\<^sub>m c"
  shows "cache_ok c'"
proof -
  have sub: "dom c' \<subseteq> dom c" using assms(2) by (rule map_le_implies_dom_le)
  have fin: "finite (dom c)" "card (dom c) \<le> cacheMaxSize" "[] \<notin> dom c"
    using assms(1) by (simp_all add: cache_ok_def)
  have "card (dom c') \<le> cacheMaxSize"
    using card_mono [OF fin(1) sub] fin(2) by (rule order_trans)
  moreover have "0 < expiresAt e" if "c' k = Some e" for k e
    using assms that unfolding cache_ok_def map_le_def ran_def
    by (metis (mono_tags, lifting) domI mem_Collect_eq)
  ultimately show ?thesis
    using fin sub finite_subset [OF sub fin(1)] by (auto simp: cache_ok_def ran_def)
qed

lemma fresh_part_le: "fresh_part now c \<subseteq>\<^sub>m c"
  by (auto simp: map_le_def fresh_part_def split: if_splits)

lemma fresh_part_all:
  assumes "finite (dom c)" "card (dom c) \<le> card (dom (fresh_part now c))"
  shows "fresh_part now c = c" "\<not> expired now c k"
proof -
  have sub: "dom (fresh_part now c) \<subseteq> dom c" using fresh_part_le by (rule map_le_implies_dom_le)
  have "dom (fresh_part now c) = dom c" using assms(1) sub assms(2) by (rule card_seteq)
  then show "\<not> expired now c k" for k
    by (auto simp: fresh_part_def expired_def dom_def split: if_splits)
  then show "fresh_part now c = c" by (simp add: fresh_part_def)
qed

text \<open>What a full cache gives up: its expired entries, or if there are none an oldest one.\<close>

lemma make_room_full:
  assumes "cache_ok c" "enumerates (range_order t) c" "card (dom c) = cacheMaxSize"
  shows "\<exists>k at. oldest c (dom c) k at
    \<and> make_room t c = (if \<exists>j. expired (at_sweep t) c j then fresh_part (at_sweep t) c else c(k := None))"
proof -
  let ?c1 = "fresh_part (at_sweep t) c"
  note fin = assms(1)[unfolded cache_ok_def]
  have loop: "fst (evict_loop (at_sweep t) (range_order t) c [] 0) = ?c1"
    by (rule evict_loop_fresh [OF assms(2)])
  show ?thesis
  proof (cases "\<exists>j. expired (at_sweep t) c j")
    case True
    then have "\<not> card (dom c) \<le> card (dom ?c1)"
      using fresh_part_all(2) [of c "at_sweep t"] fin by blast
    then have "make_room t c = ?c1"
      using assms(3) loop by (auto simp: make_room_def split: prod.split)
    moreover have "\<exists>k at. oldest c (dom c) k at"
    proof -
      have "dom c \<noteq> {}" using assms(3) cacheMaxSize_pos by force
      then have "\<exists>k' t'. evict_loop 0 (range_order t) c [] 0 = (c, k', t') \<and> oldest c ({} \<union> set (range_order t)) k' t'"
        using fin assms(2) by (intro evict_loop_oldest) (fastforce simp: enumerates_def ran_def)+
      then show ?thesis using assms(2) by (auto simp: enumerates_def)
    qed
    ultimately show ?thesis using True by auto
  next
    case False
    have "dom c \<noteq> {}" using assms(3) cacheMaxSize_pos by force
    then have "\<exists>k' t'. evict_loop (at_sweep t) (range_order t) c [] 0 = (c, k', t')
        \<and> oldest c ({} \<union> set (range_order t)) k' t'"
      using fin assms(2) False
      by (intro evict_loop_oldest) (fastforce simp: enumerates_def ran_def expired_def)+
    then obtain k at where k: "evict_loop (at_sweep t) (range_order t) c [] 0 = (c, k, at)"
      "oldest c (dom c) k at" using assms(2) by (auto simp: enumerates_def)
    have "k \<noteq> []" using k(2) fin by (auto simp: oldest_def)
    then show ?thesis using k False assms(3) by (auto simp: make_room_def)
  qed
qed

lemma make_room_ok:
  assumes "cache_ok c" "enumerates (range_order t) c"
  shows "cache_ok (make_room t c)" "card (dom (make_room t c)) < cacheMaxSize"
proof -
  have fin: "finite (dom c)" "card (dom c) \<le> cacheMaxSize" using assms(1) by (simp_all add: cache_ok_def)
  have "make_room t c \<subseteq>\<^sub>m c \<and> card (dom (make_room t c)) < cacheMaxSize"
  proof (cases "card (dom c) = cacheMaxSize")
    case True
    obtain k at where k: "oldest c (dom c) k at" and r: "make_room t c =
        (if \<exists>j. expired (at_sweep t) c j then fresh_part (at_sweep t) c else c(k := None))"
      using make_room_full [OF assms True] by blast
    have "card (dom (fresh_part (at_sweep t) c)) < cacheMaxSize" if "expired (at_sweep t) c j" for j
      using fresh_part_all(2) [OF fin(1), of "at_sweep t" j] True that by linarith
    moreover have "card (dom (c(k := None))) < cacheMaxSize"
      using k fin(1) True by (auto simp: oldest_def card_gt_0_iff)
    ultimately show ?thesis using r fresh_part_le by (auto simp: map_le_def)
  qed (use fin in \<open>simp add: make_room_def\<close>)
  then show "cache_ok (make_room t c)" "card (dom (make_room t c)) < cacheMaxSize"
    using cache_ok_less [OF assms(1)] by simp_all
qed

lemma cache_put_ok:
  assumes "cache_ok c" "enumerates (range_order t) c" "0 \<le> at_put t"
  shows "cache_ok (cache_put U t q l hs c)"
proof -
  note r = make_room_ok [OF assms(1,2)]
  then show ?thesis
    using assms(3)
    by (auto simp: cache_put_def cache_ok_def cacheTTL_def ran_def card_insert_if
        dest: sym [of "[]"] split: if_splits)
qed

end
