(* ===== verification/Search_Service.thy ===== *)
theory Search_Service
  imports Search
begin

text \<open>
  The properties of the search endpoint: what a full cache gives up, how long an answer is
  repeated, and the answers on errors.
\<close>

section \<open>A searcher and its network, for the concrete instances\<close>

definition hobbit :: search_result where
  "hobbit = \<lparr>r_ISBN = ''9780261103283'', r_Title = ''The Hobbit'', r_Author = ''J. R. R. Tolkien'',
     r_Publisher = ''HarperCollins'', r_Year = 1937\<rparr>"

definition shelf :: "nat searcher" where
  "shelf = \<lparr>Search = (\<lambda>budget q l n. (Inr [hobbit], n + 1))\<rparr>"

definition quiet :: moment where
  "quiet = \<lparr>at_get = 1000, at_sweep = 1000, at_put = 1000, range_order = []\<rparr>"

definition reader :: request_context where
  "reader = Some \<lparr>Subject = ''ann'', Username = ''ann'', Groups = []\<rparr>"

section \<open>The outcomes of a request\<close>

text \<open>The outcomes of a request of an authenticated user.\<close>

lemma h_search_cases:
  assumes "FromContext ctx = (i, True)" "Subject i \<noteq> []" "searcher h = Some s"
  obtains
    (hit) hs where "cache_get U (at_get t) (TrimSpace q) l (cache h) = Some hs"
      "h_search U t ctx q l (h, n) = (Inr hs, (h, n))"
  | (failed) err n1 where "cache_get U (at_get t) (TrimSpace q) l (cache h) = None"
      "Search s (Some (timeout h)) (TrimSpace q) l n = (Inl err, n1)"
      "h_search U t ctx q l (h, n) = (Inl (if errors_Is err DeadlineExceeded
         then ApiError 504 ''search timed out'' else ApiError 502 ''search provider unavailable''), (h, n1))"
  | (found) rs n1 where "cache_get U (at_get t) (TrimSpace q) l (cache h) = None"
      "Search s (Some (timeout h)) (TrimSpace q) l n = (Inr rs, n1)"
      "h_search U t ctx q l (h, n) = (Inr (map hit_of rs),
         (h\<lparr>cache := cache_put U t (TrimSpace q) l (map hit_of rs) (cache h)\<rparr>, n1))"
proof (cases "cache_get U (at_get t) (TrimSpace q) l (cache h)")
  case (Some hs)
  then show thesis using assms by (intro hit) (simp_all add: h_search_def)
next
  case None
  obtain r n1 where s: "Search s (Some (timeout h)) (TrimSpace q) l n = (r, n1)" by fastforce
  show thesis
  proof (cases r)
    case (Inl err)
    then show thesis using assms None s by (intro failed) (simp_all add: h_search_def)
  next
    case (Inr rs)
    then show thesis using assms None s by (intro found) (simp_all add: h_search_def Let_def)
  qed
qed

text \<open>Every request leaves the cache as it was or stores one answer it did not hold.\<close>

lemma h_search_cache:
  assumes "h_search U t ctx q l (h, n) = (r, (h', n'))"
  shows "h' = h \<or> (\<exists>hs. r = Inr hs \<and> cache_get U (at_get t) (TrimSpace q) l (cache h) = None
    \<and> h' = h\<lparr>cache := cache_put U t (TrimSpace q) l hs (cache h)\<rparr>)"
  using assms by (auto simp: h_search_def Let_def split: prod.splits if_splits option.splits sum.splits)

definition after_search :: "nat search_handler \<times> nat" where
  "after_search = snd (h_search plain_unicode quiet reader ''hobbit'' 10 (NewSearchHandler (Some shelf), 0))"

section \<open>What a full cache gives up\<close>

text \<open>
  C28: storing an answer in a full cache drops its expired entries and nothing else; when none
  is expired it drops exactly one, whose expiry is the nearest of all, whatever the order in
  which the map is ranged over.
\<close>
theorem cache_evicts:
  assumes "cache_ok c" "enumerates (range_order t) c" "card (dom c) = 256"
  shows "\<exists>k at. oldest c (dom c) k at
    \<and> cache_put U t q l hs c =
       (if \<exists>j. expired (at_sweep t) c j then fresh_part (at_sweep t) c else c(k := None))
         (cacheKey U q l \<mapsto> \<lparr>hits = hs, expiresAt = at_put t + 60000000000\<rparr>)"
proof -
  obtain k at where "oldest c (dom c) k at" "make_room t c =
      (if \<exists>j. expired (at_sweep t) c j then fresh_part (at_sweep t) c else c(k := None))"
    using make_room_full [OF assms(1,2)] assms(3) by (auto simp: cacheMaxSize_def)
  then show ?thesis by (intro exI conjI) (simp_all only: cache_put_def cacheTTL_def, simp)
qed

text \<open>A cache of 256 answers that expire at one time.\<close>

definition full_cache :: result_cache where
  "full_cache = (\<lambda>k. if k \<in> zeros ` {1..256} then Some \<lparr>hits = [], expiresAt = 2000\<rparr> else None)"

lemma full_cache_facts:
  "dom full_cache = zeros ` {1..256}" "cache_ok full_cache" "card (dom full_cache) = 256"
  "enumerates (map zeros [1..<257]) full_cache" "\<not> expired 1000 full_cache j"
proof -
  show d: "dom full_cache = zeros ` {1..256}" by (auto simp: full_cache_def split: if_splits)
  show c: "card (dom full_cache) = 256" using inj_zeros by (simp add: d card_image inj_on_subset)
  show "cache_ok full_cache"
    using c by (auto simp: cache_ok_def cacheMaxSize_def d) (auto simp: full_cache_def ran_def split: if_splits)
  show "enumerates (map zeros [1..<257]) full_cache"
    using inj_zeros by (intro enumeratesI) (auto simp: d distinct_map intro: inj_on_subset)
  show "\<not> expired 1000 full_cache j" by (auto simp: expired_def full_cache_def split: if_splits)
qed

theorem cache_evicts_witness:
  "\<exists>k \<in> zeros ` {1..256}. cache_put plain_unicode (quiet\<lparr>range_order := map zeros [1..<257]\<rparr>) ''hobbit'' 10 [] full_cache
     = full_cache(k := None, cacheKey plain_unicode ''hobbit'' 10 \<mapsto> \<lparr>hits = [], expiresAt = 60000001000\<rparr>)"
proof -
  let ?t = "quiet\<lparr>range_order := map zeros [1..<257]\<rparr>"
  have t: "at_sweep ?t = 1000" "at_put ?t = 1000" "range_order ?t = map zeros [1..<257]"
    by (simp_all only: quiet_def moment.simps)
  have en: "enumerates (range_order ?t) full_cache" unfolding t by (rule full_cache_facts(4))
  show ?thesis
    using cache_evicts [OF full_cache_facts(2) en full_cache_facts(3), of plain_unicode "''hobbit''" 10 "[]"]
    unfolding t by (auto simp: full_cache_facts(5) oldest_def full_cache_facts(1))
qed

section \<open>How long an answer is repeated\<close>

text \<open>
  A search of any user by an instant, for any text and whatever upstream does, on a cache that
  has room: it holds fewer than 256 answers or one of them has expired.
\<close>

inductive search_step :: "unicode \<Rightarrow> time \<Rightarrow> 'n search_handler \<Rightarrow> 'n search_handler \<Rightarrow> bool"
  for U T where
  search_step: "h_search U t ctx q l (h, n) = (r, (h', n')) \<Longrightarrow> at_get t \<le> T \<Longrightarrow> at_sweep t \<le> T \<Longrightarrow>
    0 \<le> at_put t \<Longrightarrow> enumerates (range_order t) (cache h) \<Longrightarrow>
    card (dom (cache h)) < 256 \<or> (\<exists>k. expired (at_sweep t) (cache h) k) \<Longrightarrow>
    search_step U T h h'"

lemma make_room_expired:
  assumes "cache_ok c" "enumerates (range_order t) c"
    and "card (dom c) < 256 \<or> (\<exists>k. expired (at_sweep t) c k)"
  shows "make_room t c = c \<or> make_room t c = fresh_part (at_sweep t) c"
proof (cases "card (dom c) = cacheMaxSize")
  case True
  then show ?thesis using make_room_full [OF assms(1,2)] assms(3) by (auto simp: cacheMaxSize_def)
next
  case False
  then show ?thesis using assms(1) by (simp add: make_room_def cache_ok_def)
qed

text \<open>Such a search keeps every answer that has not expired by then.\<close>

lemma search_step_keeps:
  assumes "search_step U T h h'" "cache_ok (cache h)" "cache h k = Some e" "T \<le> expiresAt e"
  shows "cache_ok (cache h') \<and> cache h' k = Some e \<and> searcher h' = searcher h \<and> timeout h' = timeout h"
  using assms(1)
proof cases
  case (search_step t ctx q l n r n')
  show ?thesis
  proof (cases "h' = h")
    case False
    then obtain hs where miss: "cache_get U (at_get t) (TrimSpace q) l (cache h) = None"
      and h': "h' = h\<lparr>cache := cache_put U t (TrimSpace q) l hs (cache h)\<rparr>"
      using h_search_cache [OF search_step(1)] by blast
    have "k \<noteq> cacheKey U (TrimSpace q) l"
      using miss assms(3,4) search_step(2) by (auto simp: cache_get_def split: if_splits)
    moreover have "make_room t (cache h) k = Some e"
      using make_room_expired [OF assms(2) search_step(5,6)] assms(3,4) search_step(3)
      by (auto simp: fresh_part_def expired_def)
    ultimately show ?thesis
      using cache_put_ok [OF assms(2) search_step(5,4)] by (simp add: h' cache_put_def)
  qed (use assms in simp)
qed

lemma searches_keep:
  assumes "(search_step U T)\<^sup>*\<^sup>* h h'" "cache_ok (cache h)" "cache h k = Some e" "T \<le> expiresAt e"
  shows "cache_ok (cache h') \<and> cache h' k = Some e \<and> searcher h' = searcher h \<and> timeout h' = timeout h"
  using assms(1)
proof (induction rule: rtranclp_induct)
  case (step x y)
  then show ?case using search_step_keeps [OF step(2) _ _ assms(4)] by metis
qed (use assms in simp)

text \<open>
  C27: the answer a search got from upstream is what every signed-in user gets for the same
  text, up to case and spacing, and the same number of results during the next minute, and no
  request is sent for it, whatever other searches were answered in between on a cache that was
  not full of unexpired answers; once the minute is over upstream is asked again.
\<close>
theorem cache_roundtrip:
  assumes "cache_ok (cache h)" "enumerates (range_order t) (cache h)" "0 \<le> at_put t"
    and "h_search U t ctx q l (h, n) = (Inr hs, (h1, n1))"
    and "cache_get U (at_get t) (TrimSpace q) l (cache h) = None"
    and "(search_step U (at_put t + 60000000000))\<^sup>*\<^sup>* h1 h2"
    and "FromContext ctx' = (i, True)" "Subject i \<noteq> []"
    and "folded U q' = folded U q"
  shows "if at_get t' \<le> at_put t + 60000000000
    then h_search U t' ctx' q' l (h2, n2) = (Inr hs, (h2, n2))
    else \<exists>s. searcher h = Some s \<and> snd (snd (h_search U t' ctx' q' l (h2, n2)))
           = snd (Search s (Some (timeout h)) (TrimSpace q') l n2)"
proof -
  let ?k = "cacheKey U (TrimSpace q) l" and ?e = "\<lparr>hits = hs, expiresAt = at_put t + 60000000000\<rparr>"
  obtain s where s: "searcher h = Some s"
    using assms(4) by (auto simp: h_search_def split: prod.splits if_splits option.splits)
  obtain j where j: "FromContext ctx = (j, True)" "Subject j \<noteq> []"
    using assms(4) by (auto simp: h_search_def split: prod.splits if_splits option.splits)
  have h1: "h1 = h\<lparr>cache := cache_put U t (TrimSpace q) l hs (cache h)\<rparr>"
    using j s by (rule h_search_cases [of ctx j h s U t q l n]) (use assms(4,5) in auto)
  have "cache_ok (cache h1)" "cache h1 ?k = Some ?e"
    using cache_put_ok [OF assms(1-3)] by (simp_all add: h1 cache_put_def cacheTTL_def)
  then have h2: "cache h2 ?k = Some ?e" "searcher h2 = Some s" "timeout h2 = timeout h"
    using searches_keep [OF assms(6)] s by (simp_all add: h1)
  have "cacheKey U (TrimSpace q') l = ?k" using assms(9) by (simp add: cacheKey_def folded_def)
  then have get: "cache_get U (at_get t') (TrimSpace q') l (cache h2)
      = (if at_get t' \<le> at_put t + 60000000000 then Some hs else None)"
    using h2(1) by (simp add: cache_get_def)
  show ?thesis
    using assms(7,8) h2(2)
    by (rule h_search_cases [of ctx' i h2 s U t' q' l n2]) (use get s h2(3) in \<open>auto split: if_splits\<close>)
qed

text \<open>After a search for another text, a nanosecond before the minute is over.\<close>

definition after_other :: "nat search_handler \<times> nat" where
  "after_other = snd (h_search plain_unicode (quiet\<lparr>range_order := [cacheKey plain_unicode ''hobbit'' 10]\<rparr>)
     reader ''dune'' 5 after_search)"

lemma after_search_cache:
  "cache (fst after_search) = [cacheKey plain_unicode ''hobbit'' 10 \<mapsto> \<lparr>hits = [hit_of hobbit], expiresAt = 60000001000\<rparr>]"
  by (simp add: after_search_def h_search_def NewSearchHandler_def newResultCache_def cache_get_def cache_put_def
      make_room_def cacheMaxSize_def cacheTTL_def quiet_def reader_def FromContext_def shelf_def Let_def cacheKey_def)

theorem cache_roundtrip_witness:
  "h_search plain_unicode (quiet\<lparr>at_get := 60000001000\<rparr>) reader ''hobbit'' 10 (fst after_other, 7)
     = (Inr [hit_of hobbit], (fst after_other, 7))"
proof -
  let ?h = "NewSearchHandler (Some shelf)" and ?u = "quiet\<lparr>range_order := [cacheKey plain_unicode ''hobbit'' 10]\<rparr>"
  have fresh: "cache_get plain_unicode (at_get quiet) (TrimSpace ''hobbit'') 10 (cache ?h) = None"
    by (simp add: cache_get_def NewSearchHandler_def newResultCache_def)
  have r: "FromContext reader = (\<lparr>Subject = ''ann'', Username = ''ann'', Groups = []\<rparr>, True)"
    by (simp add: FromContext_def reader_def)
  have first: "h_search plain_unicode quiet reader ''hobbit'' 10 (?h, 0)
      = (Inr [hit_of hobbit], (fst after_search, snd after_search))"
    using r fresh by (simp add: h_search_def after_search_def NewSearchHandler_def shelf_def Let_def)
  have ok: "cache_ok (cache ?h)" "enumerates (range_order quiet) (cache ?h)"
    by (simp_all add: NewSearchHandler_def newResultCache_def cache_ok_def enumerates_def quiet_def)
  have en: "enumerates (range_order ?u) (cache (fst after_search))"
    by (auto simp: after_search_cache enumerates_def quiet_def)
  have small: "card (dom (cache (fst after_search))) < 256" by (simp add: after_search_cache)
  obtain r' where dune: "h_search plain_unicode ?u reader ''dune'' 5 (fst after_search, snd after_search)
      = (r', (fst after_other, snd after_other))"
    unfolding after_other_def by (metis prod.collapse)
  have "search_step plain_unicode (at_put quiet + 60000000000) (fst after_search) (fst after_other)"
    by (rule search_step [OF dune _ _ _ en disjI1 [OF small]]) (simp_all add: quiet_def)
  then have between: "(search_step plain_unicode (at_put quiet + 60000000000))\<^sup>*\<^sup>* (fst after_search) (fst after_other)"
    by (rule r_into_rtranclp)
  show ?thesis
    using cache_roundtrip [OF ok _ first fresh between r _ refl, of "quiet\<lparr>at_get := 60000001000\<rparr>" 7]
    by (simp add: quiet_def)
qed

section \<open>Answers on errors\<close>

text \<open>
  The context ends during the pause after the first answer, or during the pause after the
  second; the answers until then are network errors, 429s and 5xxs.
\<close>

definition ended_in_pause ::
  "'n http \<Rightarrow> string \<Rightarrow> string \<Rightarrow> 'n \<Rightarrow> go_error \<Rightarrow> 'n \<Rightarrow> bool" where
  "ended_in_pause H u ag n err n' \<longleftrightarrow>
     (case Do H u ag n of (a1, n1) \<Rightarrow> transient a1 \<and>
       (case Pause H 200000000 n1 of
          (Some e1, n2) \<Rightarrow> e1 = err \<and> n2 = n'
        | (None, n2) \<Rightarrow>
            (case Do H u ag n2 of (a2, n3) \<Rightarrow> transient a2 \<and> Pause H 800000000 n3 = (Some err, n'))))"

text \<open>
  C30: the time budget holds in the middle of the retries. When the context of a search ends
  during either pause between two attempts for its address, the search stops there, after one
  request or after two: it answers 504 (502 if the context ended for another reason than its
  deadline), sends nothing more, and does not remember the failure.
\<close>
theorem search_timeout:
  assumes "FromContext ctx = (i, True)" "Subject i \<noteq> []" "TrimSpace q \<noteq> []"
    and "searcher h = Some (ol_searcher U net J p)"
    and "cache_get U (at_get t) (TrimSpace q) l (cache h) = None"
    and "url = ol_search_url p (TrimSpace q) (if l \<le> 0 then 10 else min l 25)"
    and "NewRequest (net (Some (timeout h))) url = None"
    and "ended_in_pause (net (Some (timeout h))) url userAgent n err n'"
  shows "h_search U t ctx q l (h, n) = (Inl (if errors_Is err DeadlineExceeded
      then ApiError 504 ''search timed out'' else ApiError 502 ''search provider unavailable''), (h, n'))"
proof -
  have "ol_get (net (Some (timeout h))) url n = (Inl err, n')"
    using assms(7,8) by (auto simp: ol_get_def retry_simps ended_in_pause_def split: prod.splits option.splits)
  then have s: "Search (ol_searcher U net J p) (Some (timeout h)) (TrimSpace q) l n = (Inl err, n')"
    using assms(3,6) by (auto simp: ol_searcher_def ol_Search_def Let_def defaultSearchLimit_def
        maxSearchLimit_def min_def split: if_splits)
  show ?thesis
    using assms(1,2,4) by (rule h_search_cases [of ctx i h "ol_searcher U net J p" U t q l n]) (use s assms(5) in auto)
qed

text \<open>A network that is overloaded, and a context that ends during the second pause.\<close>

definition busy :: "int option \<Rightarrow> nat http" where
  "busy budget = \<lparr>NewRequest = (\<lambda>u. None),
     Do = (\<lambda>u ag n. (Inr \<lparr>StatusCode = 429, Header = (\<lambda>k. []), body_bytes = [], body_error = None\<rparr>, n + 1)),
     Pause = (\<lambda>d n. (if budget = None \<or> d = 200000000 then None else Some (Sentinel DeadlineExceeded), n))\<rparr>"

definition no_json :: ol_json where
  "no_json = \<lparr>decode_data = (\<lambda>r. Inl (Opaque ''EOF'')), decode_search = (\<lambda>r. Inl (Opaque ''EOF''))\<rparr>"

definition busy_handler :: "nat search_handler" where
  "busy_handler = NewSearchHandler
     (Some (ol_searcher plain_unicode busy no_json (NewOpenLibraryProvider [] [])))"

theorem search_timeout_witness:
  "h_search plain_unicode quiet reader ''hobbit'' 10 (busy_handler, 0)
     = (Inl (ApiError 504 ''search timed out''), (busy_handler, 2))"
proof -
  have "TrimSpace ''hobbit'' = ''hobbit''" by (simp add: TrimSpace_def is_space_def del: chunks.simps(2))
  then show ?thesis
    using search_timeout [of reader "\<lparr>Subject = ''ann'', Username = ''ann'', Groups = []\<rparr>" "''hobbit''"
        busy_handler plain_unicode busy no_json "NewOpenLibraryProvider [] []" quiet 10 _ 0
        "Sentinel DeadlineExceeded" 2, OF _ _ _ _ _ refl]
    by (simp add: FromContext_def reader_def busy_handler_def NewSearchHandler_def ended_in_pause_def
        newResultCache_def cache_get_def busy_def transient_def StatusTooManyRequests_def)
qed

end
