(* ===== verification/Google_Books.thy ===== *)
theory Google_Books
  imports Provider_Contract
begin

text \<open>
  The Google Books provider (\<open>internal/enrich/googlebooks.go\<close>). The JSON decoder of the
  standard library is a parameter, as in \<open>Open_Library\<close>.
\<close>

record gb_provider =
  gb_baseURL :: string
  gb_apiKey :: string
  gb_coverMaxBytes :: int

definition defaultGoogleBooksBase :: string where
  "defaultGoogleBooksBase = ''https://www.googleapis.com''"

definition NewGoogleBooksProvider :: "string \<Rightarrow> string \<Rightarrow> gb_provider" where
  "NewGoogleBooksProvider baseURL apiKey =
     (let b = (if baseURL = [] then defaultGoogleBooksBase else baseURL)
      in \<lparr>gb_baseURL = TrimRight b (CHR ''/''), gb_apiKey = apiKey,
          gb_coverMaxBytes = defaultCoverMaxBytes\<rparr>)"

record gb_volume_info =
  gv_Title :: string
  gv_Authors :: "string list"
  gv_Publisher :: string
  gv_PublishedDate :: string
  gv_Description :: string
  gv_PageCount :: int
  gv_Thumbnail :: string

record gb_volumes_response =
  TotalItems :: int
  Items :: "gb_volume_info list"

type_synonym gb_json = "http_response \<Rightarrow> go_error + gb_volumes_response"

definition gb_lookup_url :: "gb_provider \<Rightarrow> string \<Rightarrow> string" where
  "gb_lookup_url p isbn =
     (let u = gb_baseURL p @ ''/books/v1/volumes?q=isbn:'' @ QueryEscape isbn
      in if gb_apiKey p \<noteq> [] then u @ ''&key='' @ QueryEscape (gb_apiKey p) else u)"

definition lookupVolume ::
  "('n, 'z) http_scheme \<Rightarrow> gb_json \<Rightarrow> gb_provider \<Rightarrow> string \<Rightarrow> ('n, go_error, gb_volume_info) call" where
  "lookupVolume H dec p isbn n =
     (case httpGetWithRetry H (gb_lookup_url p isbn) userAgent n of
        (Inl err, n1) \<Rightarrow> (Inl err, n1)
      | (Inr resp, n1) \<Rightarrow>
          (if StatusCode resp \<noteq> StatusOK
           then Inl (Opaque (''googlebooks lookup: status '' @ Itoa (StatusCode resp)))
           else case dec resp of
               Inl err \<Rightarrow> Inl (Wrap ''decode googlebooks response'' err)
             | Inr payload \<Rightarrow>
                 if TotalItems payload = 0 \<or> length (Items payload) = 0 then Inl (Sentinel EditionNotFound)
                 else Inr (Items payload ! 0), n1))"

definition gb_Lookup ::
  "('n, 'z) http_scheme \<Rightarrow> gb_json \<Rightarrow> gb_provider \<Rightarrow> string \<Rightarrow> ('n, go_error, metadata) call" where
  "gb_Lookup H dec p isbn n =
     (case lookupVolume H dec p isbn n of
        (Inl err, n1) \<Rightarrow> (Inl err, n1)
      | (Inr info, n1) \<Rightarrow>
          (Inr \<lparr>m_Title = gv_Title info, m_Author = Join (gv_Authors info) '', '',
                m_Description = gv_Description info, m_Publisher = gv_Publisher info,
                m_PublishedDate = gv_PublishedDate info, m_PageCount = gv_PageCount info\<rparr>, n1))"

definition gb_FetchCover ::
  "('n, 'z) http_scheme \<Rightarrow> gb_json \<Rightarrow> gb_provider \<Rightarrow> string \<Rightarrow> ('n, go_error, cover) call" where
  "gb_FetchCover H dec p isbn n =
     (case lookupVolume H dec p isbn n of
        (Inl err, n1) \<Rightarrow> (Inl err, n1)
      | (Inr info, n1) \<Rightarrow>
          if gv_Thumbnail info = [] then (Inl (Sentinel NoCover), n1)
          else
            (let coverURL = gv_Thumbnail info
             in case httpGetWithRetry H coverURL userAgent n1 of
                  (Inl err, n2) \<Rightarrow> (Inl err, n2)
                | (Inr resp, n2) \<Rightarrow>
                    (if StatusCode resp \<noteq> StatusOK
                     then Inl (Opaque (''googlebooks cover: status '' @ Itoa (StatusCode resp)))
                     else case read_limited (gb_coverMaxBytes p + 1) resp of
                         Inl err \<Rightarrow> Inl (Wrap ''read cover'' err)
                       | Inr body \<Rightarrow>
                           if int (length body) > gb_coverMaxBytes p
                           then Inl (Opaque (''cover exceeds '' @ Itoa (gb_coverMaxBytes p) @ '' bytes''))
                           else if body = [] then Inl (Sentinel NoCover)
                           else
                             (let ct = Header resp ''Content-Type''
                              in Inr \<lparr>c_ContentType = (if ct = [] then ''image/jpeg'' else ct),
                                      c_Bytes = body, c_ETag = [], c_SourceURL = coverURL\<rparr>), n2)))"

definition google_books :: "('n, 'z) http_scheme \<Rightarrow> gb_json \<Rightarrow> gb_provider \<Rightarrow> 'n net_provider" where
  "google_books H dec p = \<lparr>net_Lookup = gb_Lookup H dec p, net_FetchCover = gb_FetchCover H dec p\<rparr>"

lemma google_books_simps [simp]:
  "net_Lookup (google_books H dec p) = gb_Lookup H dec p"
  "net_FetchCover (google_books H dec p) = gb_FetchCover H dec p"
  by (simp_all add: google_books_def)

interpretation gb: cover_source "google_books H dec p" "gb_coverMaxBytes p"
proof
  fix k n c
  assume "fst (net_FetchCover (google_books H dec p) k n) = Inr c"
  then show "cover_within (gb_coverMaxBytes p) c"
    by (auto simp: gb_FetchCover_def cover_within_def Let_def
        split: prod.splits sum.splits if_splits)
qed

end
