(* ===== verification/Fallback.thy ===== *)
theory Fallback
  imports Open_Library Google_Books
begin

text \<open>
  The provider that tries a primary source and then a secondary one
  (\<open>internal/enrich/fallback.go\<close>), and the contract of covers for the combination.
\<close>

record 'n fallback_provider =
  primary :: "'n net_provider"
  secondary :: "'n net_provider"

definition NewFallbackProvider :: "'n net_provider \<Rightarrow> 'n net_provider \<Rightarrow> 'n fallback_provider" where
  "NewFallbackProvider p s = \<lparr>primary = p, secondary = s\<rparr>"

definition fb_Lookup :: "'n fallback_provider \<Rightarrow> string \<Rightarrow> ('n, go_error, metadata) call" where
  "fb_Lookup p isbn n =
     (case net_Lookup (primary p) isbn n of
        (Inr m, n1) \<Rightarrow> (Inr m, n1)
      | (Inl err, n1) \<Rightarrow>
          (case net_Lookup (secondary p) isbn n1 of
             (Inr m, n2) \<Rightarrow> (Inr m, n2)
           | (Inl err2, n2) \<Rightarrow> (Inl err2, n2)))"

definition fb_FetchCover :: "'n fallback_provider \<Rightarrow> string \<Rightarrow> ('n, go_error, cover) call" where
  "fb_FetchCover p isbn n =
     (case net_FetchCover (primary p) isbn n of
        (Inr c, n1) \<Rightarrow> (Inr c, n1)
      | (Inl err, n1) \<Rightarrow>
          (case net_FetchCover (secondary p) isbn n1 of
             (Inr c, n2) \<Rightarrow> (Inr c, n2)
           | (Inl err2, n2) \<Rightarrow> (Inl err2, n2)))"

definition fallback :: "'n fallback_provider \<Rightarrow> 'n net_provider" where
  "fallback p = \<lparr>net_Lookup = fb_Lookup p, net_FetchCover = fb_FetchCover p\<rparr>"

lemma fallback_simps [simp]:
  "net_Lookup (fallback p) = fb_Lookup p" "net_FetchCover (fallback p) = fb_FetchCover p"
  "primary (NewFallbackProvider a b) = a" "secondary (NewFallbackProvider a b) = b"
  by (simp_all add: fallback_def NewFallbackProvider_def)

text \<open>Two sources under one cap give a source under that cap.\<close>

locale cover_sources = first: cover_source P cap + second: cover_source S cap
  for P S :: "'n net_provider" and cap :: int

sublocale cover_sources \<subseteq> both: cover_source "fallback (NewFallbackProvider P S)" cap
proof
  fix k n c
  assume "fst (net_FetchCover (fallback (NewFallbackProvider P S)) k n) = Inr c"
  then have "fst (net_FetchCover P k n) = Inr c
      \<or> fst (net_FetchCover S k (snd (net_FetchCover P k n))) = Inr c"
    by (auto simp: fb_FetchCover_def split: prod.splits sum.splits)
  then show "cover_within cap c" using first.cover_law second.cover_law by blast
qed

text \<open>The two sources the program combines, both at the default cap.\<close>

interpretation sources: cover_sources
  "open_library H J (NewOpenLibraryProvider u v)" "google_books G dec (NewGoogleBooksProvider w key)"
  defaultCoverMaxBytes
proof -
  have "ol_coverMaxBytes (NewOpenLibraryProvider u v) = defaultCoverMaxBytes"
    "gb_coverMaxBytes (NewGoogleBooksProvider w key) = defaultCoverMaxBytes"
    by (simp_all only: NewOpenLibraryProvider_def NewGoogleBooksProvider_def Let_def
        ol_provider.select_convs gb_provider.select_convs)
  then show "cover_sources (open_library H J (NewOpenLibraryProvider u v))
      (google_books G dec (NewGoogleBooksProvider w key)) defaultCoverMaxBytes"
    using ol.cover_source_axioms [of H J "NewOpenLibraryProvider u v"]
      gb.cover_source_axioms [of G dec "NewGoogleBooksProvider w key"]
    by (simp only: cover_sources_def)
qed

end
