(* ===== verification/Spec_Store.thy ===== *)
theory Spec_Store
  imports Repository
begin

text \<open>
  The catalogue specification as a store: the record of operations that do on a catalogue
  exactly what the contract promises. It implements the contract itself, and the handlers and
  the worker run on it as they run on a store.
\<close>

definition spec_repo :: "catalog repository_ops" where
  "spec_repo = \<lparr>PendingEnrichment = (\<lambda>ks n c. (Inr (take (nat n) (filter (unfinished c) ks)), c)),
     EditionStatus = spec_edition_status, SaveEnrichment = spec_save_enrichment,
     SaveCover = spec_save_cover, Create = spec_create, Get = spec_get, ListBooks = spec_list,
     Update = spec_update, Delete = spec_delete, EnsureEdition = spec_ensure,
     MarkEditionPending = spec_mark_pending,
     CoverForBook = (\<lambda>u i c. (case owned c u i of
         None \<Rightarrow> Inl (Sentinel BookNotFound)
       | Some b \<Rightarrow> (case cat_covers c (ISBN b) of
           None \<Rightarrow> Inl (Sentinel BookNotFound) | Some cv \<Rightarrow> Inr cv), c))\<rparr>"

lemma spec_repo_simps [simp]:
  "EditionStatus spec_repo = spec_edition_status" "SaveEnrichment spec_repo = spec_save_enrichment"
  "SaveCover spec_repo = spec_save_cover" "Create spec_repo = spec_create"
  "Get spec_repo = spec_get" "ListBooks spec_repo = spec_list" "Update spec_repo = spec_update"
  "Delete spec_repo = spec_delete" "EnsureEdition spec_repo = spec_ensure"
  "MarkEditionPending spec_repo = spec_mark_pending"
  by (simp_all add: spec_repo_def)

lemma answers_self: "wf_catalog (snd p) \<Longrightarrow> answers id wf_catalog c p p"
  by (simp add: answers_def)

lemma spec_delivers:
  "delivers (\<lambda>_. True) (spec_create now i u b c)" "delivers (\<lambda>_. True) (spec_get u i c)"
  "delivers (\<lambda>_. True) (spec_list ks u c)" "delivers (\<lambda>_. True) (spec_update now u b c)"
  "delivers (\<lambda>_. True) (spec_delete u i c)" "delivers (\<lambda>_. True) (spec_ensure k c)"
  "delivers (\<lambda>_. True) (spec_mark_pending k c)" "delivers (\<lambda>_. True) (spec_edition_status k c)"
  "delivers (\<lambda>_. True) (spec_save_enrichment now k m st c)" "delivers (\<lambda>_. True) (spec_save_cover k cv c)"
  "delivers (\<lambda>_. True) (CoverForBook spec_repo u i c)"
  by (simp_all add: delivers_def spec_create_def spec_get_def spec_list_def spec_update_def
      spec_delete_def spec_ensure_def spec_mark_pending_def spec_edition_status_def
      spec_save_enrichment_def spec_save_cover_def spec_repo_def Let_def split: option.split)

lemma spec_pending:
  assumes "wf_catalog c" "enumerates ks (cat_editions c)"
  shows "\<exists>xs. answers id wf_catalog c (PendingEnrichment spec_repo ks limit c) (Inr xs, c)
    \<and> sweep_of limit c xs"
proof -
  have "set (filter (unfinished c) ks) = Collect (unfinished c)"
    using enumerates_dom [OF assms(2)] by (auto simp: unfinished_def)
  then have "sweep_of limit c (take (nat limit) (filter (unfinished c) ks))"
    using assms by (intro sweep_prefix) (auto simp: enumerates_distinct)
  then show ?thesis using assms by (auto simp: spec_repo_def answers_def)
qed

lemma spec_cover_served:
  "wf_catalog c \<Longrightarrow> answers id wf_catalog c (map_prod (map_sum id served) id (CoverForBook spec_repo u i c))
    (spec_cover u i c, c)"
  by (auto simp: spec_repo_def answers_def spec_cover_def split: option.split)

interpretation spec: repository spec_repo id wf_catalog "\<lambda>_. True" "\<lambda>_. True" id
  by unfold_locales (simp_all add: answers_self wf_spec spec_delivers spec_pending spec_cover_served)

end
