(* ===== verification/Handler_Laws.thy ===== *)
theory Handler_Laws
  imports Handlers Spec_Store
begin

text \<open>
  The handlers over the contract of the store. A server on any store, failing or not, leaves
  the other users' books and the shared data alone. The abstract server is the same handlers
  run on the catalogue specification itself (theory \<open>Spec_Store\<close>), and a server on a healthy
  store computes exactly what the abstract server computes.
\<close>

section \<open>What a request may change\<close>

text \<open>
  Between two catalogues the books of everyone but the user, the books outside a given set
  and the covers are as before, an edition is as before or as a given relation allows, and a
  book gets no new ISBN that is not in the canonical form.
\<close>

definition confined ::
  "string \<Rightarrow> string set \<Rightarrow> (string \<Rightarrow> edition option \<Rightarrow> bool) \<Rightarrow> catalog \<Rightarrow> catalog \<Rightarrow> bool" where
  "confined u Bs Es c d \<longleftrightarrow>
     (\<forall>v i. v \<noteq> u \<longrightarrow> owned d v i = owned c v i)
   \<and> (\<forall>i. i \<notin> Bs \<longrightarrow> cat_books d i = cat_books c i)
   \<and> cat_covers d = cat_covers c
   \<and> (\<forall>k. cat_editions d k = cat_editions c k \<or> Es k (cat_editions d k))
   \<and> (\<forall>i b. cat_books d i = Some b \<longrightarrow>
        isbnShape (ISBN b) \<or> (\<exists>a. cat_books c i = Some a \<and> ISBN a = ISBN b))"

text \<open>
  The one book each request may change: a create the identifier it mints, an update or a
  delete the book it names, when it is the user's. The one edition it may change, and what
  it may become: a create or an update that brings a new ISBN adds the pending edition of
  that ISBN when there is none, a refresh puts the edition of the user's book, its metadata
  and cover kept, back to pending. Every other request changes nothing.
\<close>

fun target_books :: "runtime \<Rightarrow> string \<Rightarrow> catalog \<Rightarrow> request \<Rightarrow> string set" where
  "target_books rt u c (CreateBook w) =
     (case isbnFromInput rt (w_ISBN w) of Inl err \<Rightarrow> {} | Inr isbn \<Rightarrow> {mint rt})"
| "target_books rt u c (UpdateBook i p) = (case owned c u i of None \<Rightarrow> {} | Some b \<Rightarrow> {i})"
| "target_books rt u c (DeleteBook i) = (case owned c u i of None \<Rightarrow> {} | Some b \<Rightarrow> {i})"
| "target_books rt u c req = {}"

fun edition_change ::
  "runtime \<Rightarrow> string \<Rightarrow> catalog \<Rightarrow> request \<Rightarrow> string \<Rightarrow> edition option \<Rightarrow> bool" where
  "edition_change rt u c (CreateBook w) k e \<longleftrightarrow>
     isbnFromInput rt (w_ISBN w) = Inr k \<and> cat_editions c k = None \<and> e = Some pending_edition"
| "edition_change rt u c (UpdateBook i p) k e \<longleftrightarrow>
     (case owned c u i of None \<Rightarrow> False | Some b \<Rightarrow> ISBN b \<noteq> k)
   \<and> (case p_ISBN p of None \<Rightarrow> False | Some raw \<Rightarrow> isbnFromInput rt raw = Inr k)
   \<and> cat_editions c k = None \<and> e = Some pending_edition"
| "edition_change rt u c (RefreshBook i) k e \<longleftrightarrow>
     (case owned c u i of None \<Rightarrow> False | Some b \<Rightarrow> ISBN b = k)
   \<and> k \<noteq> [] \<and> e = Some ((edition_or_new k c)\<lparr>ed_status := StatusPending\<rparr>)"
| "edition_change rt u c req k e \<longleftrightarrow> False"

definition request_confined ::
  "runtime \<Rightarrow> string \<Rightarrow> request \<Rightarrow> catalog \<Rightarrow> catalog \<Rightarrow> bool" where
  "request_confined rt u req c d \<longleftrightarrow>
     confined u (target_books rt u c req) (edition_change rt u c req) c d"

lemma confined_refl [simp]: "confined u Bs Es c c"
  by (auto simp: confined_def)

lemma confinedD:
  assumes "confined u Bs Es c d"
  shows "v \<noteq> u \<Longrightarrow> owned d v i = owned c v i" "i \<notin> Bs \<Longrightarrow> cat_books d i = cat_books c i"
    "cat_covers d = cat_covers c" "cat_editions d k = cat_editions c k \<or> Es k (cat_editions d k)"
    "cat_books d i = Some b \<Longrightarrow> isbnShape (ISBN b) \<or> (\<exists>a. cat_books c i = Some a \<and> ISBN a = ISBN b)"
  using assms by (auto simp: confined_def)

lemma confined_trans:
  assumes "confined u Bs Es c d" "confined u Bs Es d e"
  shows "confined u Bs Es c e"
  unfolding confined_def
proof (intro conjI allI impI)
  show "owned e v i = owned c v i" if "v \<noteq> u" for v i
    using confinedD(1) [OF assms(1) that] confinedD(1) [OF assms(2) that] by simp
  show "cat_books e i = cat_books c i" if "i \<notin> Bs" for i
    using confinedD(2) [OF assms(1) that] confinedD(2) [OF assms(2) that] by simp
  show "cat_covers e = cat_covers c" using assms [THEN confinedD(3)] by simp
  show "cat_editions e k = cat_editions c k \<or> Es k (cat_editions e k)" for k
    using confinedD(4) [OF assms(1), of k] confinedD(4) [OF assms(2), of k] by auto
  show "isbnShape (ISBN b) \<or> (\<exists>a. cat_books c i = Some a \<and> ISBN a = ISBN b)"
    if "cat_books e i = Some b" for i b
    using confinedD(5) [OF assms(2) that] confinedD(5) [OF assms(1)] by metis
qed

lemma confined_put_book:
  assumes "UserID b = u" "ID b \<in> Bs" "cat_books c (ID b) = None \<or> owned c u (ID b) \<noteq> None"
    "isbnShape (ISBN b) \<or> (\<exists>a. cat_books c (ID b) = Some a \<and> ISBN a = ISBN b)"
  shows "confined u Bs Es c (put_book b c)"
  unfolding confined_def
proof (intro conjI allI impI)
  show "owned (put_book b c) v i = owned c v i" if "v \<noteq> u" for v i
    using assms that by (auto simp: owned_def split: option.splits if_splits)
qed (use assms in \<open>auto split: if_splits\<close>)

lemma confined_put_edition: "Es k (Some e) \<Longrightarrow> confined u Bs Es c (put_edition k e c)"
  by (auto simp: confined_def owned_def split: option.split)

lemma confined_create:
  "cat_books c i = None \<Longrightarrow> isbnShape (ISBN b) \<Longrightarrow> i \<in> Bs \<Longrightarrow>
   confined u Bs Es c (snd (spec_create now i u b c))"
  by (simp add: spec_create_def Let_def confined_put_book stamped_def)

lemma confined_update:
  "isbnShape (ISBN b) \<or> (\<exists>a. cat_books c (ID b) = Some a \<and> ISBN a = ISBN b) \<Longrightarrow> ID b \<in> Bs \<Longrightarrow>
   confined u Bs Es c (snd (spec_update now u b c))"
  by (auto simp: spec_update_def Let_def intro: confined_put_book split: option.split)

lemma confined_delete:
  "(owned c u i \<noteq> None \<Longrightarrow> i \<in> Bs) \<Longrightarrow> confined u Bs Es c (snd (spec_delete u i c))"
  by (auto simp: spec_delete_def confined_def owned_def split: option.splits if_splits)

lemma confined_mark:
  "Es k (Some ((edition_or_new k c)\<lparr>ed_status := StatusPending\<rparr>)) \<Longrightarrow>
   confined u Bs Es c (snd (spec_mark_pending k c))"
  by (simp add: spec_mark_pending_def confined_put_edition)

lemma confined_ensure:
  "(cat_editions c k = None \<Longrightarrow> Es k (Some pending_edition)) \<Longrightarrow>
   confined u Bs Es c (snd (spec_ensure k c))"
  by (auto simp: spec_ensure_def intro: confined_put_edition split: option.split)

text \<open>The books a response shows are the user's own.\<close>

fun shows_own :: "string \<Rightarrow> api_error + response \<Rightarrow> bool" where
  "shows_own u (Inr (RBook b)) = (UserID b = u)"
| "shows_own u (Inr (RBooks bs)) = list_all (\<lambda>b. UserID b = u) bs"
| "shows_own u _ = True"

lemma applyTo_url [simp]: "CoverURL (applyTo p b) = CoverURL b" "ID (applyTo p b) = ID b"
  by (simp_all add: applyTo_def Let_def split: option.split)

lemma applyTo_user: "UserID (applyTo p b) = UserID b" "CreatedAt (applyTo p b) = CreatedAt b"
  by (simp_all add: applyTo_def Let_def split: option.split)

lemma applyTo_Title: "Title (applyTo p b) = (case p_Title p of None \<Rightarrow> Title b | Some t \<Rightarrow> t)"
  by (simp add: applyTo_def Let_def split: option.split)

lemma reader_view_edition_title:
  "edition_of c b = Some e \<Longrightarrow> Title b = [] \<Longrightarrow> Title (reader_view c b) = m_Title (ed_meta e)"
  by (simp add: reader_view_def)

lemma isbnFromInput_shape: "isbnFromInput rt raw = Inr isbn \<Longrightarrow> isbnShape isbn"
  by (auto simp: isbnFromInput_def split: sum.splits dest: canonicalISBN_shape)

text \<open>What a canonical patch leaves in the ISBN.\<close>

lemma applyTo_ISBN:
  assumes "canonical_patch rt p = Inr p'"
  shows "ISBN (applyTo p' b) = ISBN b \<or> isbnShape (ISBN (applyTo p' b))"
  using assms
  by (auto simp: canonical_patch_def applyTo_def Let_def dest: isbnFromInput_shape
      split: option.splits sum.splits)

text \<open>A patch that changes the ISBN asked for it.\<close>

lemma applyTo_ISBN_changed:
  assumes "canonical_patch rt p = Inr p'" "ISBN (applyTo p' b) \<noteq> ISBN b"
  shows "\<exists>raw. p_ISBN p = Some raw \<and> isbnFromInput rt raw = Inr (ISBN (applyTo p' b))"
  using assms
  by (auto simp: canonical_patch_def applyTo_def Let_def split: option.splits sum.splits)

section \<open>The calls of a handler\<close>

context repository
begin

lemma confined_answers:
  assumes "answers cat valid s res p" "confined u Bs Es (cat s) (snd p)"
  shows "confined u Bs Es (cat s) (cat (snd res))"
  using assms by (auto simp: answers_def)

lemma get_step:
  assumes "valid s" "Get R u i s = (r, s')"
  shows "valid s'" "cat s' = cat s"
    "r = Inr b \<Longrightarrow> \<exists>b0. owned (cat s) u i = Some b0 \<and> b = reader_view (cat s) b0"
    "r = Inl e \<Longrightarrow> errors_Is e BookNotFound \<Longrightarrow> owned (cat s) u i = None"
  using law_get [OF assms(1), of u i] assms(2)
  by (auto simp: answers_def spec_get_def failed_def split: option.splits)

lemma create_step:
  assumes "valid s" "cat_books (cat s) i = None" "CoverURL b = []" "isbnShape (ISBN b)"
    "Create R now i u b s = (r, s')"
  shows "valid s'" "i \<in> Bs \<Longrightarrow> confined u Bs Es (cat s) (cat s')"
    "r = Inr x \<Longrightarrow> x = stamped (stamp now) i u b \<and> cat s' = put_book x (cat s)"
  using confined_answers [OF law_create [OF assms(1,3), of now i u] confined_create [OF assms(2,4), of Bs]]
    law_create [OF assms(1,3), of now i u] assms(5)
  by (auto simp: answers_def spec_create_def Let_def)

lemma update_step:
  assumes "valid s" "CoverURL b = []" "Update R now u b s = (r, s')"
    "isbnShape (ISBN b) \<or> (\<exists>a. cat_books (cat s) (ID b) = Some a \<and> ISBN a = ISBN b)"
  shows "valid s'" "ID b \<in> Bs \<Longrightarrow> confined u Bs Es (cat s) (cat s')"
    "r = Inr x \<Longrightarrow> \<exists>old. owned (cat s) u (ID b) = Some old
       \<and> x = b\<lparr>UserID := u, CreatedAt := CreatedAt old, UpdatedAt := stamp now\<rparr>
       \<and> cat s' = put_book x (cat s)"
  using confined_answers [OF law_update [OF assms(1,2), of now u] confined_update [OF assms(4), of Bs]]
    law_update [OF assms(1,2), of now u] assms(3)
  by (auto simp: answers_def spec_update_def Let_def split: option.splits)

lemma delete_step:
  assumes "valid s" "Delete R u i s = (r, s')"
  shows "valid s'" "(owned (cat s) u i \<noteq> None \<Longrightarrow> i \<in> Bs) \<Longrightarrow> confined u Bs Es (cat s) (cat s')"
  using answers_inv [OF law_delete [OF assms(1), of u i]]
    confined_answers [OF law_delete [OF assms(1), of u i] confined_delete [of "cat s" u i Bs]] assms(2)
  by simp_all

lemma ensure_step:
  assumes "valid s" "EnsureEdition R k s = (r, s')"
  shows "valid s'"
    "(cat_editions (cat s) k = None \<Longrightarrow> Es k (Some pending_edition)) \<Longrightarrow> confined u Bs Es (cat s) (cat s')"
    "cat_books (cat s') = cat_books (cat s)"
proof -
  note law = law_ensure [OF assms(1), of k]
  show "valid s'" using answers_inv [OF law] assms(2) by simp
  show "confined u Bs Es (cat s) (cat s')" if "cat_editions (cat s) k = None \<Longrightarrow> Es k (Some pending_edition)"
    using confined_answers [OF law confined_ensure, where Es = Es, OF that] assms(2) by simp
  show "cat_books (cat s') = cat_books (cat s)"
    using law assms(2) by (auto simp: answers_def spec_ensure_def split: option.splits)
qed

lemma mark_step:
  assumes "valid s" "MarkEditionPending R k s = (r, s')"
  shows "valid s'" "Es k (Some ((edition_or_new k (cat s))\<lparr>ed_status := StatusPending\<rparr>)) \<Longrightarrow>
    confined u Bs Es (cat s) (cat s')"
  using answers_inv [OF law_mark [OF assms(1), of k]]
    confined_answers [OF law_mark [OF assms(1), of k] confined_mark, where Es = Es] assms(2)
  by simp_all

lemma list_step:
  assumes "valid s" "enumerates ks (cat_books (cat s))" "ListBooks R ks u s = (r, s')"
  shows "valid s'" "cat s' = cat s" "r = Inr bs \<Longrightarrow> list_all (\<lambda>b. UserID b = u) bs"
  using law_list [OF assms(1,2), of u] assms(3)
  by (auto simp: answers_def spec_list_def list_all_iff)

lemma cover_step:
  assumes "valid s" "CoverForBook R u i s = (r, s')"
  shows "valid s'" "cat s' = cat s"
    "r = Inr cv \<Longrightarrow> \<exists>b c0. owned (cat s) u i = Some b \<and> cat_covers (cat s) (ISBN b) = Some c0
       \<and> served cv = served c0"
  using law_cover [OF assms(1), of u i] assms(2)
  by (auto simp: answers_def spec_cover_def split: option.splits)

lemma enqueue_step:
  assumes "valid (db sv)"
  shows "valid (db (enqueueEnrichment R enq k sv))"
    "(cat_editions (cat (db sv)) k = None \<Longrightarrow> Es k (Some pending_edition)) \<Longrightarrow>
      confined u Bs Es (cat (db sv)) (cat (db (enqueueEnrichment R enq k sv)))"
    "cat_books (cat (db (enqueueEnrichment R enq k sv))) = cat_books (cat (db sv))"
  using ensure_step(1,3) [OF assms] ensure_step(2) [OF assms, where Es = Es] assms
  by (auto simp: enqueueEnrichment_def split: prod.split sum.split)

lemma h_get_safe:
  assumes "valid (db sv)" "requireUser ctx = Inr u" "h_get R ctx i sv = (r, sv')"
  shows "valid (db sv') \<and> cat (db sv') = cat (db sv) \<and> shows_own u (map_sum id RBook r)"
proof -
  obtain r1 s1 where g: "Get R u i (db sv) = (r1, s1)" by fastforce
  note step = get_step [OF assms(1) g]
  show ?thesis
    using assms(3) step
    by (cases r1) (auto simp: h_get_def assms(2) g setCoverURL_def owned_def split: option.splits if_splits)
qed

lemma h_list_safe:
  assumes "valid (db sv)" "requireUser ctx = Inr u" "enumerates ks (cat_books (cat (db sv)))"
    "h_list R ks ctx sv = (r, sv')"
  shows "valid (db sv') \<and> cat (db sv') = cat (db sv) \<and> shows_own u (map_sum id RBooks r)"
proof -
  obtain r1 s1 where g: "ListBooks R ks u (db sv) = (r1, s1)" by fastforce
  show ?thesis
    using assms(4) list_step [OF assms(1,3) g]
    by (cases r1) (auto simp: h_list_def assms(2) g setCoverURL_def list_all_iff)
qed

lemma h_cover_safe:
  assumes "valid (db sv)" "requireUser ctx = Inr u" "h_cover R ctx i sv = (r, sv')"
  shows "valid (db sv') \<and> cat (db sv') = cat (db sv)"
proof -
  obtain r1 s1 where g: "CoverForBook R u i (db sv) = (r1, s1)" by fastforce
  show ?thesis
    using assms(3) cover_step [OF assms(1) g] by (cases r1) (auto simp: h_cover_def assms(2) g)
qed

lemma h_delete_safe:
  assumes "valid (db sv)" "requireUser ctx = Inr u" "h_delete R ctx i sv = (r, sv')"
  shows "valid (db sv') \<and> request_confined rt u (DeleteBook i) (cat (db sv)) (cat (db sv'))"
proof -
  obtain r1 s1 where g: "Delete R u i (db sv) = (r1, s1)" by fastforce
  have "i \<in> target_books rt u (cat (db sv)) (DeleteBook i)" if "owned (cat (db sv)) u i \<noteq> None"
    using that by auto
  note step = delete_step(1) [OF assms(1) g] delete_step(2) [OF assms(1) g this]
  show ?thesis using assms(3) step
    by (cases r1) (auto simp: h_delete_def assms(2) g request_confined_def simp del: target_books.simps)
qed

lemma h_refresh_safe:
  assumes "valid (db sv)" "requireUser ctx = Inr u" "h_refresh R enq ctx i sv = (r, sv')"
  shows "valid (db sv') \<and> request_confined rt u (RefreshBook i) (cat (db sv)) (cat (db sv'))"
proof -
  obtain r1 s1 where g: "Get R u i (db sv) = (r1, s1)" by fastforce
  note s1 = get_step [OF assms(1) g]
  show ?thesis
  proof (cases r1)
    case (Inl e)
    then show ?thesis using assms(3) s1 by (auto simp: h_refresh_def assms(2) g request_confined_def)
  next
    case (Inr b)
    obtain r2 s2 where m: "MarkEditionPending R (ISBN b) s1 = (r2, s2)" by fastforce
    obtain b0 where b0: "owned (cat (db sv)) u i = Some b0" "ISBN b = ISBN b0"
      using s1(3) [OF Inr] by auto
    let ?Es = "edition_change rt u (cat (db sv)) (RefreshBook i)"
    have "valid s2" "ISBN b \<noteq> [] \<Longrightarrow> confined u {} ?Es (cat (db sv)) (cat s2)"
      using mark_step(1) [OF s1(1) m] mark_step(2) [OF s1(1) m, where Es = ?Es] b0 s1(2)
      by (auto simp: edition_or_new_def)
    then show ?thesis
      using assms(3) s1(1,2) Inr
      by (cases r2) (auto simp: h_refresh_def assms(2) g m request_confined_def
          simp del: edition_change.simps split: if_splits)
  qed
qed

lemma h_create_safe:
  assumes "valid (db sv)" "requireUser ctx = Inr u" "cat_books (cat (db sv)) (mint rt) = None"
    "h_create R enq rt ctx w sv = (r, sv')"
  shows "valid (db sv') \<and> request_confined rt u (CreateBook w) (cat (db sv)) (cat (db sv'))
    \<and> shows_own u (map_sum id RBook r)"
proof (cases "isbnFromInput rt (w_ISBN w)")
  case (Inl e)
  then show ?thesis using assms by (auto simp: h_create_def request_confined_def)
next
  case isbn: (Inr isbn)
  let ?b = "(toBook w)\<lparr>ISBN := isbn\<rparr>"
  have url: "CoverURL ?b = []" by (simp add: toBook_def zero_book_def)
  have shape: "isbnShape (ISBN ?b)" using isbnFromInput_shape [OF isbn] by simp
  obtain r1 s1 where c: "Create R (clock rt) (mint rt) u ?b (db sv) = (r1, s1)" by fastforce
  let ?Bs = "target_books rt u (cat (db sv)) (CreateBook w)"
    and ?Es = "edition_change rt u (cat (db sv)) (CreateBook w)"
  have in_Bs: "mint rt \<in> ?Bs" using isbn by simp
  note s1 = create_step(1) [OF assms(1,3) url shape c] create_step(2) [OF assms(1,3) url shape c in_Bs, where Es = ?Es]
    create_step(3) [OF assms(1,3) url shape c]
  show ?thesis
  proof (cases r1)
    case (Inl e)
    then show ?thesis using assms(4) s1 by (auto simp: h_create_def assms(2) isbn c request_confined_def)
  next
    case (Inr b)
    let ?sv2 = "enqueueEnrichment R enq (ISBN b) (sv\<lparr>db := s1\<rparr>)"
    have b: "ISBN b = isbn" "cat_editions (cat s1) = cat_editions (cat (db sv))"
      using s1(3) [OF Inr] by (simp_all add: stamped_def)
    have v: "valid (db (sv\<lparr>db := s1\<rparr>))" using s1(1) by simp
    have s2: "valid (db ?sv2)" "confined u ?Bs ?Es (cat s1) (cat (db ?sv2))"
      using enqueue_step(1) [OF v]
        enqueue_step(2) [OF v, where enq = enq and k = "ISBN b" and Es = ?Es and u = u and Bs = ?Bs] b isbn by simp_all
    obtain r3 s3 where g: "Get R u (ID b) (db ?sv2) = (r3, s3)" by fastforce
    note s3 = get_step [OF s2(1) g]
    have "confined u ?Bs ?Es (cat (db sv)) (cat s3)" using confined_trans [OF s1(2) s2(2)] s3(2) by simp
    then show ?thesis using assms(4) s3 unfolding request_confined_def
      by (cases r3)
         (auto simp: h_create_def assms(2) isbn c Inr Let_def g setCoverURL_def owned_def
          split: option.splits if_splits)
  qed
qed

lemma h_update_safe:
  assumes "valid (db sv)" "requireUser ctx = Inr u" "h_update R enq rt ctx i p sv = (r, sv')"
  shows "valid (db sv') \<and> request_confined rt u (UpdateBook i p) (cat (db sv)) (cat (db sv'))
    \<and> shows_own u (map_sum id RBook r)"
proof -
  let ?Bs = "target_books rt u (cat (db sv)) (UpdateBook i p)"
    and ?Es = "edition_change rt u (cat (db sv)) (UpdateBook i p)"
  obtain r1 s1 where g: "Get R u i (db sv) = (r1, s1)" by fastforce
  note s1 = get_step [OF assms(1) g]
  show ?thesis
  proof (cases r1)
    case (Inl e)
    then show ?thesis using assms(3) s1 by (auto simp: h_update_def assms(2) g request_confined_def)
  next
    case r1: (Inr old)
    show ?thesis
    proof (cases "canonical_patch rt p")
      case (Inl e)
      then show ?thesis using assms(3) s1 r1 by (auto simp: h_update_def assms(2) g request_confined_def)
    next
      case p': (Inr p')
      obtain r2 s2 where up: "Update R (clock rt) u (applyTo p' old) s1 = (r2, s2)" by fastforce
      obtain b0 where b0: "owned (cat (db sv)) u i = Some b0" "old = reader_view (cat (db sv)) b0"
        using s1(3) [OF r1] by blast
      have id: "ID b0 = i" "cat_books (cat s1) i = Some b0"
        using owned_SomeD [OF b0(1)] wf_catalogD(1) [OF valid_wf [OF assms(1)]] s1(2) by auto
      have url: "CoverURL (applyTo p' old) = []" using b0(2) by simp
      have shape: "isbnShape (ISBN (applyTo p' old))
          \<or> (\<exists>a. cat_books (cat s1) (ID (applyTo p' old)) = Some a \<and> ISBN a = ISBN (applyTo p' old))"
        using applyTo_ISBN [OF p', of old] id b0(2) by auto
      have in_Bs: "ID (applyTo p' old) \<in> ?Bs" using b0 id(1) by simp
      note s2 = update_step(1) [OF s1(1) url up shape] update_step(2) [OF s1(1) url up shape in_Bs, where Es = ?Es]
        update_step(3) [OF s1(1) url up shape]
      show ?thesis
      proof (cases r2)
        case (Inl e)
        then show ?thesis using assms(3) s1(2) s2(1,2) r1 p'
          by (auto simp: h_update_def assms(2) g up Let_def request_confined_def)
      next
        case r2: (Inr b)
        define sv3 where "sv3 = (if ISBN b \<noteq> ISBN old
          then enqueueEnrichment R enq (ISBN b) (sv\<lparr>db := s2\<rparr>) else sv\<lparr>db := s2\<rparr>)"
        have b: "ISBN b = ISBN (applyTo p' old)" "cat_editions (cat s2) = cat_editions (cat (db sv))"
          using s2(3) [OF r2] s1(2) by auto
        have new: "?Es (ISBN b) (Some pending_edition)"
          if "ISBN b \<noteq> ISBN old" "cat_editions (cat s2) (ISBN b) = None"
          using applyTo_ISBN_changed [OF p', of old] that b b0 by auto
        have s3: "valid (db sv3)" "confined u ?Bs ?Es (cat s2) (cat (db sv3))"
          using enqueue_step(1) [where sv = "sv\<lparr>db := s2\<rparr>" and enq = enq and k = "ISBN b"]
            enqueue_step(2) [where sv = "sv\<lparr>db := s2\<rparr>" and enq = enq and k = "ISBN b" and Es = ?Es and u = u and Bs = ?Bs] s2(1) new
          by (auto simp: sv3_def simp del: edition_change.simps target_books.simps)
        obtain r4 s4 where g4: "Get R u i (db sv3) = (r4, s4)" by fastforce
        note s4 = get_step [OF s3(1) g4]
        have "confined u ?Bs ?Es (cat (db sv)) (cat s4)"
          using confined_trans [OF s2(2) s3(2)] s1(2) s4(2) by simp
        then show ?thesis using assms(3) s4 r1 r2 p' unfolding request_confined_def
          by (cases r4)
             (auto simp: h_update_def assms(2) g up Let_def sv3_def [symmetric] g4 setCoverURL_def
                owned_def split: option.splits if_splits)
      qed
    qed
  qed
qed

lemma handle_safe:
  assumes "valid (db sv)" "requireUser ctx = Inr u" "enumerates ks (cat_books (cat (db sv)))"
    "\<forall>w. req = CreateBook w \<longrightarrow> cat_books (cat (db sv)) (mint rt) = None"
    "handle R enq ks rt ctx req sv = (r, sv')"
  shows "valid (db sv') \<and> request_confined rt u req (cat (db sv)) (cat (db sv')) \<and> shows_own u r"
proof -
  have own: "shows_own u (map_sum id RCover x)" "shows_own u (map_sum id RRefresh y)"
    "shows_own u (map_sum id (\<lambda>_. RNoContent) z)" for x y and z :: "api_error + unit"
    by (cases x, simp_all) (cases y, simp_all, cases z, simp_all)
  show ?thesis
  proof (cases req)
    case (CreateBook w)
    then show ?thesis using h_create_safe [OF assms(1,2), of rt enq w] assms(4,5)
      by (cases "h_create R enq rt ctx w sv") (auto simp: handle_def request_confined_def)
  next
    case ListTheBooks
    then show ?thesis using h_list_safe [OF assms(1-3)] assms(5)
      by (cases "h_list R ks ctx sv") (auto simp: handle_def request_confined_def)
  next
    case (GetBook i)
    then show ?thesis using h_get_safe [OF assms(1,2), of i] assms(5)
      by (cases "h_get R ctx i sv") (auto simp: handle_def request_confined_def)
  next
    case (UpdateBook i p)
    then show ?thesis using h_update_safe [OF assms(1,2), of enq rt i p] assms(5)
      by (cases "h_update R enq rt ctx i p sv") (auto simp: handle_def request_confined_def)
  next
    case (DeleteBook i)
    then show ?thesis using h_delete_safe [OF assms(1,2), where i = i and rt = rt] assms(5) own(3)
      by (cases "h_delete R ctx i sv") (auto simp: handle_def request_confined_def)
  next
    case (GetCover i)
    then show ?thesis using h_cover_safe [OF assms(1,2), of i] assms(5) own(1)
      by (cases "h_cover R ctx i sv") (auto simp: handle_def request_confined_def)
  next
    case (RefreshBook i)
    then show ?thesis using h_refresh_safe [OF assms(1,2), where enq = enq and i = i and rt = rt] assms(5) own(2)
      by (cases "h_refresh R enq ctx i sv") (auto simp: handle_def request_confined_def)
  qed
qed

end

section \<open>A healthy server computes what the abstract server computes\<close>

text \<open>
  The requests a healthy store can serve: a fresh identifier, a rating the column can hold,
  and texts the store accepts.
\<close>

fun acceptable :: "(string \<Rightarrow> bool) \<Rightarrow> runtime \<Rightarrow> string \<Rightarrow> catalog \<Rightarrow> request \<Rightarrow> bool" where
  "acceptable A rt u c (CreateBook w) \<longleftrightarrow>
     cat_books c (mint rt) = None \<and> int4 (w_Rating w)
     \<and> list_all A (book_texts ((toBook w)\<lparr>ID := mint rt, UserID := u, ISBN := []\<rparr>))"
| "acceptable A rt u c ListTheBooks \<longleftrightarrow> A u"
| "acceptable A rt u c (GetBook i) \<longleftrightarrow> A u \<and> A i"
| "acceptable A rt u c (UpdateBook i p) \<longleftrightarrow> A u \<and> A i
     \<and> (case owned c u i of None \<Rightarrow> True | Some b \<Rightarrow>
         (case canonical_patch rt p of Inl e \<Rightarrow> True | Inr p' \<Rightarrow>
           (let b' = applyTo p' (reader_view c b)
            in int4 (Rating b') \<and> list_all A (book_texts b'))))"
| "acceptable A rt u c (DeleteBook i) \<longleftrightarrow> A u \<and> A i"
| "acceptable A rt u c (GetCover i) \<longleftrightarrow> A u \<and> A i"
| "acceptable A rt u c (RefreshBook i) \<longleftrightarrow> A u \<and> A i
     \<and> (case owned c u i of None \<Rightarrow> True | Some b \<Rightarrow> A (ISBN b))"

definition abs_server :: "('s \<Rightarrow> catalog) \<Rightarrow> ('s, 'w) server \<Rightarrow> (catalog, 'w) server" where
  "abs_server cat sv = \<lparr>db = cat (db sv), queue = queue sv\<rparr>"

lemma abs_server_simps [simp]:
  "db (abs_server cat sv) = cat (db sv)" "queue (abs_server cat sv) = queue sv"
  "(abs_server cat sv)\<lparr>db := c\<rparr> = \<lparr>db = c, queue = queue sv\<rparr>"
  by (simp_all add: abs_server_def)

lemma abs_server_update [simp]:
  "abs_server cat (sv\<lparr>db := s\<rparr>) = \<lparr>db = cat s, queue = queue sv\<rparr>"
  "abs_server cat (sv\<lparr>db := s, queue := q\<rparr>) = \<lparr>db = cat s, queue = q\<rparr>"
  by (simp_all add: abs_server_def)

context repository
begin

lemma promised:
  assumes "answers cat valid s res p" "delivers ok res"
  obtains s' where "res = (fst p, s')" "cat s' = snd p" "valid s'" "ok s'"
  using answers_delivered [OF assms] by (cases res) auto

lemma accepts_shape: "isbnShape k \<Longrightarrow> accepts k"
  by (rule accepts_plain) (auto simp: isbnShape_ascii dest!: isbn_char simp: is_digit_byte)

lemma get_ok:
  assumes "valid s" "ok s" "accepts u" "accepts i"
  obtains s' where "Get R u i s = (fst (spec_get u i (cat s)), s')" "cat s' = cat s" "valid s'" "ok s'"
  using promised [OF law_get [OF assms(1)] ok_get [OF assms]] by (metis snd_reads(1))

lemma enqueue_ok:
  assumes "valid (db sv)" "ok (db sv)" "accepts k"
  shows "abs_server cat (enqueueEnrichment R enq k sv)
      = enqueueEnrichment spec_repo enq k (abs_server cat sv)"
    and "valid (db (enqueueEnrichment R enq k sv))" "ok (db (enqueueEnrichment R enq k sv))"
proof -
  obtain d where d: "spec_ensure k (cat (db sv)) = (Inr (), d)" by (simp add: spec_ensure_def)
  obtain s' where s': "EnsureEdition R k (db sv) = (Inr (), s')" "cat s' = d" "valid s'" "ok s'"
    using promised [OF law_ensure [OF assms(1)] ok_ensure [OF assms]] d by (metis fst_conv snd_conv)
  show "abs_server cat (enqueueEnrichment R enq k sv)
      = enqueueEnrichment spec_repo enq k (abs_server cat sv)"
    using s' d by (simp add: enqueueEnrichment_def)
  show "valid (db (enqueueEnrichment R enq k sv))" "ok (db (enqueueEnrichment R enq k sv))"
    using s' assms by (simp_all add: enqueueEnrichment_def)
qed

text \<open>The result of a handler is what the abstract server computes, in a healthy state.\<close>

lemma h_get_refines:
  assumes "valid (db sv)" "ok (db sv)" "requireUser ctx = Inr u" "accepts u" "accepts i"
    "h_get R ctx i sv = (r, sv')"
  shows "h_get spec_repo ctx i (abs_server cat sv) = (r, abs_server cat sv') \<and> valid (db sv') \<and> ok (db sv')"
proof -
  obtain s1 where g: "Get R u i (db sv) = (fst (spec_get u i (cat (db sv))), s1)"
      "cat s1 = cat (db sv)" "valid s1" "ok s1"
    using get_ok [OF assms(1,2,4,5)] .
  show ?thesis
    using g assms(3,6) snd_reads(1) [of u i "cat (db sv)"]
    by (cases "spec_get u i (cat (db sv))") (auto simp: h_get_def split: sum.splits)
qed

lemma h_list_refines:
  assumes "valid (db sv)" "ok (db sv)" "requireUser ctx = Inr u" "accepts u"
    "enumerates ks (cat_books (cat (db sv)))" "h_list R ks ctx sv = (r, sv')"
  shows "h_list spec_repo ks ctx (abs_server cat sv) = (r, abs_server cat sv') \<and> valid (db sv') \<and> ok (db sv')"
proof -
  obtain s1 where g: "ListBooks R ks u (db sv) = (fst (spec_list ks u (cat (db sv))), s1)"
      "cat s1 = cat (db sv)" "valid s1" "ok s1"
    using promised [OF law_list [OF assms(1,5)] ok_list [OF assms(1,2,4)]] by (metis snd_reads(2))
  show ?thesis
    using g assms(3,6) snd_reads(2) [of ks u "cat (db sv)"]
    by (cases "spec_list ks u (cat (db sv))") (auto simp: h_list_def split: sum.splits)
qed

lemma h_delete_refines:
  assumes "valid (db sv)" "ok (db sv)" "requireUser ctx = Inr u" "accepts u" "accepts i"
    "h_delete R ctx i sv = (r, sv')"
  shows "h_delete spec_repo ctx i (abs_server cat sv) = (r, abs_server cat sv') \<and> valid (db sv') \<and> ok (db sv')"
proof -
  obtain s1 where g: "Delete R u i (db sv) = (fst (spec_delete u i (cat (db sv))), s1)"
      "cat s1 = snd (spec_delete u i (cat (db sv)))" "valid s1" "ok s1"
    using promised [OF law_delete [OF assms(1)] ok_delete [OF assms(1,2,4,5)]] .
  show ?thesis
    using g assms(3,6)
    by (cases "spec_delete u i (cat (db sv))") (auto simp: h_delete_def split: sum.splits)
qed

lemma h_cover_refines:
  assumes "valid (db sv)" "ok (db sv)" "requireUser ctx = Inr u" "accepts u" "accepts i"
    "h_cover R ctx i sv = (r, sv')"
  shows "h_cover spec_repo ctx i (abs_server cat sv) = (r, abs_server cat sv') \<and> valid (db sv') \<and> ok (db sv')"
proof -
  let ?c = "cat (db sv)"
  have "delivers ok (map_prod (map_sum id served) id (CoverForBook R u i (db sv)))"
    using ok_cover [OF assms(1,2,4,5)]
    by (cases "CoverForBook R u i (db sv)"; cases "fst (CoverForBook R u i (db sv))")
       (auto simp: delivers_def failed_def)
  then obtain s1 where g: "map_prod (map_sum id served) id (CoverForBook R u i (db sv)) = (spec_cover u i ?c, s1)"
      "cat s1 = ?c" "valid s1" "ok s1"
    using promised [OF law_cover [OF assms(1)]] by (metis fst_conv snd_conv)
  obtain r1 where r1: "CoverForBook R u i (db sv) = (r1, s1)" "map_sum id served r1 = spec_cover u i ?c"
    using g(1) by (cases "CoverForBook R u i (db sv)") auto
  obtain r2 where r2: "CoverForBook spec_repo u i ?c = (r2, ?c)" "map_sum id served r2 = spec_cover u i ?c"
    by (simp add: spec_repo_def spec_cover_def split: option.split)
  have "map_sum id served r1 = map_sum id served r2" using r1(2) r2(2) by simp
  then show ?thesis
    using g(2-4) r1(1) r2(1) assms(3,6)
    by (cases r1; cases r2) (auto simp: h_cover_def served_def)
qed

lemma h_refresh_refines:
  assumes "valid (db sv)" "ok (db sv)" "requireUser ctx = Inr u" "acceptable accepts rt u (cat (db sv)) (RefreshBook i)"
    "h_refresh R enq ctx i sv = (r, sv')"
  shows "h_refresh spec_repo enq ctx i (abs_server cat sv) = (r, abs_server cat sv') \<and> valid (db sv') \<and> ok (db sv')"
proof -
  let ?c = "cat (db sv)"
  have acc: "accepts u" "accepts i" using assms(4) by simp_all
  obtain s1 where g: "Get R u i (db sv) = (fst (spec_get u i ?c), s1)" "cat s1 = ?c" "valid s1" "ok s1"
    using get_ok [OF assms(1,2) acc] .
  show ?thesis
  proof (cases "owned ?c u i")
    case None
    then show ?thesis using g assms(3,5) by (auto simp: h_refresh_def spec_get_def)
  next
    case (Some b)
    then have k: "accepts (ISBN b)" using assms(4) by simp
    obtain d where m: "spec_mark_pending (ISBN b) ?c = (Inr (), d)"
      by (simp add: spec_mark_pending_def)
    obtain s2 where s2: "MarkEditionPending R (ISBN b) s1 = (Inr (), s2)"
        "cat s2 = d" "valid s2" "ok s2"
      using promised [OF law_mark [OF g(3)] ok_mark [OF g(3,4) k]] m g(2) by (metis fst_conv snd_conv)
    have sp: "spec_get u i ?c = (Inr (reader_view ?c b), ?c)" using Some by (simp add: spec_get_def)
    show ?thesis
      using g s2 assms(3,5) m
      by (auto simp: h_refresh_def sp split: if_splits)
  qed
qed

lemma h_create_refines:
  assumes "valid (db sv)" "ok (db sv)" "requireUser ctx = Inr u"
    "acceptable accepts rt u (cat (db sv)) (CreateBook w)" "h_create R enq rt ctx w sv = (r, sv')"
  shows "h_create spec_repo enq (rt\<lparr>clock := stamp (clock rt)\<rparr>) ctx w (abs_server cat sv)
      = (r, abs_server cat sv') \<and> valid (db sv') \<and> ok (db sv')"
proof (cases "isbnFromInput rt (w_ISBN w)")
  case (Inl e)
  then show ?thesis using assms by (auto simp: h_create_def isbnFromInput_def split: sum.splits)
next
  case isbn: (Inr isbn)
  let ?c = "cat (db sv)" and ?rt = "rt\<lparr>clock := stamp (clock rt)\<rparr>"
  let ?b = "(toBook w)\<lparr>ISBN := isbn\<rparr>"
  let ?new = "stamped (stamp (clock rt)) (mint rt) u ?b"
  have isbn': "isbnFromInput ?rt (w_ISBN w) = Inr isbn" using isbn by (simp add: isbnFromInput_def)
  note shape = isbnFromInput_shape [OF isbn]
  have ok_b: "?c\<lparr>cat_books := cat_books ?c\<rparr> = ?c" "cat_books ?c (mint rt) = None" "isbnShape (ISBN ?b)"
      "int4 (Rating ?b)" "CoverURL ?b = []" "accepts isbn" "accepts u" "accepts (mint rt)"
    using assms(4) shape accepts_shape [OF shape]
    by (simp_all add: toBook_def zero_book_def book_texts_def)
  have status: "accepts ''to_read''" by (rule accepts_plain) (simp_all add: ascii_def)
  have texts: "list_all accepts (book_texts (stamped 0 (mint rt) u ?b))"
    using assms(4) status ok_b(6) by (auto simp: book_texts_def stamped_def toBook_def zero_book_def)
  have sc: "spec_create (stamp (clock rt)) (mint rt) u ?b ?c = (Inr ?new, put_book ?new ?c)"
    by (simp add: spec_create_def Let_def)
  obtain s1 where s1: "Create R (clock rt) (mint rt) u ?b (db sv) = (Inr ?new, s1)"
      "cat s1 = put_book ?new ?c" "valid s1" "ok s1"
    using promised [OF law_create [OF assms(1) ok_b(5)] ok_create [OF assms(1,2) ok_b(2,3,4) texts]] sc
    by (metis fst_conv snd_conv)
  have new: "ISBN ?new = isbn" "ID ?new = mint rt" by (simp_all add: stamped_def)
  let ?sv1 = "sv\<lparr>db := s1\<rparr>"
  let ?sv2 = "enqueueEnrichment R enq isbn ?sv1"
  have v1: "valid (db ?sv1)" "ok (db ?sv1)" using s1 by simp_all
  note e = enqueue_ok [OF v1 ok_b(6), of enq]
  obtain s3 where s3: "Get R u (mint rt) (db ?sv2) = (fst (spec_get u (mint rt) (cat (db ?sv2))), s3)"
      "cat s3 = cat (db ?sv2)" "valid s3" "ok s3"
    using get_ok [OF e(2,3) ok_b(7,8)] .
  have abs2: "enqueueEnrichment spec_repo enq isbn \<lparr>db = put_book ?new ?c, queue = queue sv\<rparr>
      = abs_server cat ?sv2"
    using e(1) s1(2) by simp
  have sg: "spec_get u (mint rt) (cat (db ?sv2)) = (fst (spec_get u (mint rt) (cat (db ?sv2))), cat (db ?sv2))"
    by (metis prod.collapse snd_reads(1))
  have conc: "h_create R enq rt ctx w sv = (case Get R u (mint rt) (db ?sv2) of
        (Inl err, s3) \<Rightarrow> (Inl (error_500 ''could not fetch book''), ?sv2\<lparr>db := s3\<rparr>)
      | (Inr created, s3) \<Rightarrow> (Inr (setCoverURL created), ?sv2\<lparr>db := s3\<rparr>))"
    using assms(3) isbn s1(1) new
    by (simp add: h_create_def Let_def cong: prod.case_cong sum.case_cong)
  have abst: "h_create spec_repo enq ?rt ctx w (abs_server cat sv) =
      (case spec_get u (mint rt) (cat (db ?sv2)) of
        (Inl err, s3) \<Rightarrow> (Inl (error_500 ''could not fetch book''), (abs_server cat ?sv2)\<lparr>db := s3\<rparr>)
      | (Inr created, s3) \<Rightarrow> (Inr (setCoverURL created), (abs_server cat ?sv2)\<lparr>db := s3\<rparr>))"
    using assms(3) isbn' sc new abs2
    by (simp add: h_create_def Let_def cong: prod.case_cong sum.case_cong)
  show ?thesis
    unfolding abst using conc assms(5) s3 sg
    by (cases "fst (spec_get u (mint rt) (cat (db ?sv2)))") (auto simp: abs_server_def)
qed

lemma h_update_refines:
  assumes "valid (db sv)" "ok (db sv)" "requireUser ctx = Inr u"
    "acceptable accepts rt u (cat (db sv)) (UpdateBook i p)" "h_update R enq rt ctx i p sv = (r, sv')"
  shows "h_update spec_repo enq (rt\<lparr>clock := stamp (clock rt)\<rparr>) ctx i p (abs_server cat sv)
      = (r, abs_server cat sv') \<and> valid (db sv') \<and> ok (db sv')"
proof -
  let ?c = "cat (db sv)" and ?rt = "rt\<lparr>clock := stamp (clock rt)\<rparr>"
  have acc: "accepts u" "accepts i" using assms(4) by simp_all
  have patch: "canonical_patch ?rt p = canonical_patch rt p"
    by (simp add: canonical_patch_def isbnFromInput_def split: option.split)
  obtain s1 where g: "Get R u i (db sv) = (fst (spec_get u i ?c), s1)" "cat s1 = ?c" "valid s1" "ok s1"
    using get_ok [OF assms(1,2) acc] .
  show ?thesis
  proof (cases "owned ?c u i")
    case None
    then show ?thesis using g assms(3,5) by (auto simp: h_update_def spec_get_def)
  next
    case own: (Some b0)
    let ?old = "reader_view ?c b0"
    have sp: "spec_get u i ?c = (Inr ?old, ?c)" using own by (simp add: spec_get_def)
    have b0: "cat_books ?c i = Some b0" "UserID b0 = u" using owned_SomeD [OF own] by simp_all
    then have id: "ID b0 = i" using wf_catalogD(1) [OF valid_wf [OF assms(1)]] by blast
    show ?thesis
    proof (cases "canonical_patch rt p")
      case (Inl e)
      then show ?thesis using g sp assms(3,5) patch by (auto simp: h_update_def)
    next
      case p': (Inr p')
      let ?b = "applyTo p' ?old"
      have texts: "int4 (Rating ?b)" "list_all accepts (book_texts ?b)"
        using assms(4) own p' by (simp_all add: Let_def)
      have b: "ID ?b = i" "CoverURL ?b = []" "UserID ?b = u" using id b0 by (simp_all add: applyTo_user)
      then have texts': "list_all accepts (book_texts (?b\<lparr>UserID := u\<rparr>))"
        using texts(2) by (simp add: book_texts_def)
      have isbn: "isbnShape (ISBN ?b) \<or> (\<exists>old. cat_books (cat s1) (ID ?b) = Some old \<and> ISBN old = ISBN ?b)"
        using applyTo_ISBN [OF p', of ?old] b b0 g(2) by auto
      let ?new = "?b\<lparr>UserID := u, CreatedAt := CreatedAt b0, UpdatedAt := stamp (clock rt)\<rparr>"
      have su: "spec_update (stamp (clock rt)) u ?b ?c = (Inr ?new, put_book ?new ?c)"
        using own b by (simp add: spec_update_def Let_def)
      obtain s2 where s2: "Update R (clock rt) u ?b s1 = (Inr ?new, s2)" "cat s2 = put_book ?new ?c"
          "valid s2" "ok s2"
        using promised [OF law_update [OF g(3) b(2)] ok_update [OF g(3,4) isbn texts(1) texts']] su g(2)
        by (metis fst_conv snd_conv)
      define sv3 where "sv3 = (if ISBN ?b \<noteq> ISBN ?old then enqueueEnrichment R enq (ISBN ?b) (sv\<lparr>db := s2\<rparr>)
        else sv\<lparr>db := s2\<rparr>)"
      define av3 where "av3 = (if ISBN ?b \<noteq> ISBN ?old
        then enqueueEnrichment spec_repo enq (ISBN ?b) \<lparr>db = put_book ?new ?c, queue = queue sv\<rparr>
        else \<lparr>db = put_book ?new ?c, queue = queue sv\<rparr>)"
      have k: "accepts (ISBN ?b)" using texts(2) by (simp add: book_texts_def)
      have v2: "valid (db (sv\<lparr>db := s2\<rparr>))" "ok (db (sv\<lparr>db := s2\<rparr>))" using s2 by simp_all
      have sv3: "valid (db sv3)" "ok (db sv3)" "av3 = abs_server cat sv3"
        using enqueue_ok [OF v2 k, of enq] s2 by (simp_all add: sv3_def av3_def)
      obtain s4 where s4: "Get R u i (db sv3) = (fst (spec_get u i (cat (db sv3))), s4)"
          "cat s4 = cat (db sv3)" "valid s4" "ok s4"
        using get_ok [OF sv3(1,2) acc] .
      have sg: "spec_get u i (cat (db sv3)) = (fst (spec_get u i (cat (db sv3))), cat (db sv3))"
        by (metis prod.collapse snd_reads(1))
      have conc: "h_update R enq rt ctx i p sv = (case Get R u i (db sv3) of
            (Inl err, s4) \<Rightarrow> (Inl (error_500 ''could not fetch book''), sv3\<lparr>db := s4\<rparr>)
          | (Inr b, s4) \<Rightarrow> (Inr (setCoverURL b), sv3\<lparr>db := s4\<rparr>))"
        using g sp s2 p' assms(3) by (simp add: h_update_def Let_def sv3_def cong: prod.case_cong sum.case_cong)
      have abst: "h_update spec_repo enq ?rt ctx i p (abs_server cat sv) = (case spec_get u i (db av3) of
            (Inl err, s4) \<Rightarrow> (Inl (error_500 ''could not fetch book''), av3\<lparr>db := s4\<rparr>)
          | (Inr b, s4) \<Rightarrow> (Inr (setCoverURL b), av3\<lparr>db := s4\<rparr>))"
        using sp su p' patch assms(3) by (simp add: h_update_def Let_def av3_def cong: prod.case_cong sum.case_cong)
      show ?thesis
        unfolding abst using conc assms(5) s4 sg sv3
        by (cases "fst (spec_get u i (cat (db sv3)))") (auto simp: abs_server_def)
    qed
  qed
qed

text \<open>
  The refinement: on a healthy store a request is answered, and the catalogue and the queue
  end, as the abstract server computes.
\<close>

lemma handle_refines:
  assumes "valid (db sv)" "ok (db sv)" "requireUser ctx = Inr u"
    "acceptable accepts rt u (cat (db sv)) req" "enumerates ks (cat_books (cat (db sv)))"
    "handle R enq ks rt ctx req sv = (r, sv')"
  shows "handle spec_repo enq ks (rt\<lparr>clock := stamp (clock rt)\<rparr>) ctx req (abs_server cat sv)
      = (r, abs_server cat sv') \<and> valid (db sv') \<and> ok (db sv')"
proof (cases req)
  case (CreateBook w)
  then show ?thesis using h_create_refines [OF assms(1-3), of rt w enq] assms(4,6)
    by (cases "h_create R enq rt ctx w sv") (auto simp: handle_def)
next
  case ListTheBooks
  then show ?thesis using h_list_refines [OF assms(1-3)] assms(4-6)
    by (cases "h_list R ks ctx sv") (auto simp: handle_def)
next
  case (GetBook i)
  then show ?thesis using h_get_refines [OF assms(1-3), of i] assms(4,6)
    by (cases "h_get R ctx i sv") (auto simp: handle_def)
next
  case (UpdateBook i p)
  then show ?thesis using h_update_refines [OF assms(1-3), of rt i p enq] assms(4,6)
    by (cases "h_update R enq rt ctx i p sv") (auto simp: handle_def)
next
  case (DeleteBook i)
  then show ?thesis using h_delete_refines [OF assms(1-3), of i] assms(4,6)
    by (cases "h_delete R ctx i sv") (auto simp: handle_def)
next
  case (GetCover i)
  then show ?thesis using h_cover_refines [OF assms(1-3), of i] assms(4,6)
    by (cases "h_cover R ctx i sv") (auto simp: handle_def)
next
  case (RefreshBook i)
  then show ?thesis using h_refresh_refines [OF assms(1-3), of rt i enq] assms(4,6)
    by (cases "h_refresh R enq ctx i sv") (auto simp: handle_def)
qed

end

end
