(* ===== verification/Service_Spec.thy ===== *)
theory Service_Spec
  imports Handler_Laws
begin

text \<open>
  What the abstract server answers: a user's requests do not depend on the books of the
  others, and the outcome of each operation in closed form.
\<close>

section \<open>What a user can observe\<close>

text \<open>Two catalogues a user cannot tell apart: the user's books and the shared data agree.\<close>

definition same_for :: "string \<Rightarrow> catalog \<Rightarrow> catalog \<Rightarrow> bool" where
  "same_for u c d \<longleftrightarrow> (\<forall>i. owned c u i = owned d u i)
     \<and> cat_editions c = cat_editions d \<and> cat_covers c = cat_covers d"

definition agree :: "string \<Rightarrow> (go_error + 'a) \<times> catalog \<Rightarrow> (go_error + 'a) \<times> catalog \<Rightarrow> bool" where
  "agree u x y \<longleftrightarrow> fst x = fst y \<and> same_for u (snd x) (snd y)"

lemma agreeE:
  assumes "agree u x y"
  obtains r c d where "x = (r, c)" "y = (r, d)" "same_for u c d"
  using assms by (cases x; cases y) (auto simp: agree_def)

lemma same_for_view: "same_for u c d \<Longrightarrow> reader_view c b = reader_view d b"
  by (rule reader_view_cong) (simp add: same_for_def edition_of_def)

lemma owned_put_book: "owned (put_book b c) u i =
    (if i = ID b then (if UserID b = u then Some (bare b) else None) else owned c u i)"
  by (simp add: owned_def)

lemma owned_put_edition [simp]: "owned (put_edition k e c) u i = owned c u i"
  by (simp add: owned_def)

lemma same_for_put: "same_for u c d \<Longrightarrow> same_for u (put_book b c) (put_book b d)"
  by (simp add: same_for_def owned_put_book)

lemma same_for_put_edition: "same_for u c d \<Longrightarrow> same_for u (put_edition k e c) (put_edition k e d)"
  by (simp add: same_for_def)

lemma same_for_edition: "same_for u c d \<Longrightarrow> edition_or_new k c = edition_or_new k d"
  by (simp add: same_for_def edition_or_new_def)

lemma agree_ops:
  assumes "same_for u c d"
  shows "agree u (spec_create now i u b c) (spec_create now i u b d)"
    and "agree u (spec_get u i c) (spec_get u i d)"
    and "agree u (spec_update now u b c) (spec_update now u b d)"
    and "agree u (spec_delete u i c) (spec_delete u i d)"
    and "agree u (spec_ensure k c) (spec_ensure k d)"
    and "agree u (spec_mark_pending k c) (spec_mark_pending k d)"
    and "agree u (CoverForBook spec_repo u i c) (CoverForBook spec_repo u i d)"
proof -
  have o: "owned c u i = owned d u i" for i using assms by (simp add: same_for_def)
  show "agree u (spec_create now i u b c) (spec_create now i u b d)"
    using assms by (simp add: agree_def spec_create_def Let_def same_for_put)
  show "agree u (spec_get u i c) (spec_get u i d)"
    using assms same_for_view [OF assms] by (simp add: agree_def spec_get_def o split: option.split)
  show "agree u (spec_update now u b c) (spec_update now u b d)"
    using assms by (simp add: agree_def spec_update_def Let_def o same_for_put split: option.split)
  show "agree u (spec_delete u i c) (spec_delete u i d)"
    using assms by (auto simp: agree_def spec_delete_def same_for_def owned_def split: option.split)
  show "agree u (spec_ensure k c) (spec_ensure k d)"
    using assms by (auto simp: agree_def spec_ensure_def same_for_put_edition same_for_def split: option.split)
  show "agree u (spec_mark_pending k c) (spec_mark_pending k d)"
    using assms by (simp add: agree_def spec_mark_pending_def same_for_edition [OF assms] same_for_put_edition)
  show "agree u (CoverForBook spec_repo u i c) (CoverForBook spec_repo u i d)"
    using assms o by (simp add: agree_def spec_repo_def same_for_def cong: option.case_cong)
qed

text \<open>The iteration orders over the two catalogues agree on the user's books.\<close>

definition same_order :: "string \<Rightarrow> catalog \<Rightarrow> catalog \<Rightarrow> string list \<Rightarrow> string list \<Rightarrow> bool" where
  "same_order u c d ks ks' \<longleftrightarrow>
     filter (\<lambda>i. owned c u i \<noteq> None) ks = filter (\<lambda>i. owned d u i \<noteq> None) ks'"

lemma own_entries:
  "filter (\<lambda>b. UserID b = u) (entries ks (cat_books c))
    = entries (filter (\<lambda>i. owned c u i \<noteq> None) ks) (owned c u)"
  by (induction ks) (auto simp: owned_def split: option.split)

lemma agree_list:
  assumes "same_for u c d" "same_order u c d ks ks'"
  shows "agree u (spec_list ks u c) (spec_list ks' u d)"
proof -
  have "owned c u = owned d u" using assms(1) by (auto simp: same_for_def)
  moreover have "reader_view c = reader_view d" using same_for_view [OF assms(1)] by (simp add: fun_eq_iff)
  ultimately show ?thesis
    using assms by (simp add: agree_def spec_list_def own_entries same_order_def)
qed

definition alike :: "string \<Rightarrow> ('r \<times> (catalog, 'w) server) \<Rightarrow> ('r \<times> (catalog, 'w) server) \<Rightarrow> bool" where
  "alike u x y \<longleftrightarrow> fst x = fst y \<and> queue (snd x) = queue (snd y) \<and> same_for u (db (snd x)) (db (snd y))"

lemma alike_enqueue:
  assumes "same_for u (db s) (db t)" "queue s = queue t"
  shows "same_for u (db (enqueueEnrichment spec_repo enq k s)) (db (enqueueEnrichment spec_repo enq k t))
    \<and> queue (enqueueEnrichment spec_repo enq k s) = queue (enqueueEnrichment spec_repo enq k t)"
proof -
  obtain r c d where "spec_ensure k (db s) = (r, c)" "spec_ensure k (db t) = (r, d)" "same_for u c d"
    using agreeE [OF agree_ops(5) [OF assms(1)]] .
  then show ?thesis using assms by (cases r) (simp_all add: enqueueEnrichment_def)
qed

lemma alike_create:
  assumes "same_for u (db s) (db t)" "queue s = queue t" "requireUser ctx = Inr u"
  shows "alike u (h_create spec_repo enq rt ctx w s) (h_create spec_repo enq rt ctx w t)"
proof (cases "isbnFromInput rt (w_ISBN w)")
  case (Inl e)
  then show ?thesis using assms by (simp add: h_create_def alike_def)
next
  case (Inr isbn)
  let ?b = "(toBook w)\<lparr>ISBN := isbn\<rparr>"
  obtain r c d where cr: "spec_create (clock rt) (mint rt) u ?b (db s) = (r, c)"
      "spec_create (clock rt) (mint rt) u ?b (db t) = (r, d)" "same_for u c d"
    using agreeE [OF agree_ops(1) [OF assms(1)]] .
  show ?thesis
  proof (cases r)
    case (Inl e)
    then show ?thesis using assms(2,3) Inr cr by (simp add: h_create_def alike_def)
  next
    case r: (Inr b)
    let ?s = "enqueueEnrichment spec_repo enq (ISBN b) (s\<lparr>db := c\<rparr>)"
    let ?t = "enqueueEnrichment spec_repo enq (ISBN b) (t\<lparr>db := d\<rparr>)"
    have e: "same_for u (db ?s) (db ?t)" "queue ?s = queue ?t"
      using alike_enqueue [of u "s\<lparr>db := c\<rparr>" "t\<lparr>db := d\<rparr>" enq "ISBN b"] cr(3) assms(2) by simp_all
    obtain r2 c2 d2 where g: "spec_get u (ID b) (db ?s) = (r2, c2)" "spec_get u (ID b) (db ?t) = (r2, d2)"
        "same_for u c2 d2"
      using agreeE [OF agree_ops(2) [OF e(1)]] .
    show ?thesis using assms(3) Inr cr(1,2) r g e(2) 
      by (cases r2) (simp_all add: h_create_def alike_def Let_def)
  qed
qed

lemma alike_update:
  assumes "same_for u (db s) (db t)" "queue s = queue t" "requireUser ctx = Inr u"
  shows "alike u (h_update spec_repo enq rt ctx i p s) (h_update spec_repo enq rt ctx i p t)"
proof -
  obtain r c d where g: "spec_get u i (db s) = (r, c)" "spec_get u i (db t) = (r, d)" "same_for u c d"
    using agreeE [OF agree_ops(2) [OF assms(1)]] .
  show ?thesis
  proof (cases r)
    case (Inl e)
    then show ?thesis using assms(2,3) g by (simp add: h_update_def alike_def)
  next
    case r: (Inr old)
    show ?thesis
    proof (cases "canonical_patch rt p")
      case (Inl e)
      then show ?thesis using assms(2,3) g r by (simp add: h_update_def alike_def)
    next
      case p': (Inr p')
      obtain r1 c1 d1 where up: "spec_update (clock rt) u (applyTo p' old) c = (r1, c1)"
          "spec_update (clock rt) u (applyTo p' old) d = (r1, d1)" "same_for u c1 d1"
        using agreeE [OF agree_ops(3) [OF g(3)]] .
      show ?thesis
      proof (cases r1)
        case (Inl e)
        then show ?thesis using assms(2,3) g r p' up by (simp add: h_update_def alike_def Let_def)
      next
        case r1: (Inr b)
        define s1 where "s1 = (if ISBN b \<noteq> ISBN old
          then enqueueEnrichment spec_repo enq (ISBN b) (s\<lparr>db := c1\<rparr>) else s\<lparr>db := c1\<rparr>)"
        define t1 where "t1 = (if ISBN b \<noteq> ISBN old
          then enqueueEnrichment spec_repo enq (ISBN b) (t\<lparr>db := d1\<rparr>) else t\<lparr>db := d1\<rparr>)"
        have e: "same_for u (db s1) (db t1)" "queue s1 = queue t1"
          using alike_enqueue [of u "s\<lparr>db := c1\<rparr>" "t\<lparr>db := d1\<rparr>" enq "ISBN b"] up(3) assms(2)
          by (simp_all add: s1_def t1_def)
        obtain r2 c2 d2 where g2: "spec_get u i (db s1) = (r2, c2)" "spec_get u i (db t1) = (r2, d2)"
            "same_for u c2 d2"
          using agreeE [OF agree_ops(2) [OF e(1)]] .
        show ?thesis using assms(3) g(1,2) r p' up(1,2) r1 g2 e(2)
          by (cases r2) (simp_all add: h_update_def alike_def Let_def s1_def [symmetric] t1_def [symmetric])
      qed
    qed
  qed
qed

lemma alike_refresh:
  assumes "same_for u (db s) (db t)" "queue s = queue t" "requireUser ctx = Inr u"
  shows "alike u (h_refresh spec_repo enq ctx i s) (h_refresh spec_repo enq ctx i t)"
proof -
  obtain r c d where g: "spec_get u i (db s) = (r, c)" "spec_get u i (db t) = (r, d)" "same_for u c d"
    using agreeE [OF agree_ops(2) [OF assms(1)]] .
  show ?thesis
  proof (cases r)
    case (Inl e)
    then show ?thesis using assms(2,3) g by (simp add: h_refresh_def alike_def)
  next
    case (Inr b)
    obtain r1 c1 d1 where m: "spec_mark_pending (ISBN b) c = (r1, c1)" "spec_mark_pending (ISBN b) d = (r1, d1)"
        "same_for u c1 d1"
      using agreeE [OF agree_ops(6) [OF g(3)]] .
    then show ?thesis using assms(2,3) g Inr by (cases r1) (simp_all add: h_refresh_def alike_def)
  qed
qed

text \<open>The abstract server gives a user the same answers on catalogues the user cannot tell apart.\<close>

lemma alike_handle:
  assumes "same_for u (db s) (db t)" "queue s = queue t" "requireUser ctx = Inr u"
    "same_order u (db s) (db t) ks ks'"
  shows "alike u (handle spec_repo enq ks rt ctx req s) (handle spec_repo enq ks' rt ctx req t)"
proof -
  have lift: "alike u (apfst f x) (apfst f y)" if "alike u x y" for f :: "'x \<Rightarrow> 'y" and x y
    using that by (simp add: alike_def)
  show ?thesis
  proof (cases req)
    case (CreateBook w)
    then show ?thesis using alike_create [OF assms(1-3)] by (simp add: handle_def lift)
  next
    case ListTheBooks
    obtain r c d where "spec_list ks u (db s) = (r, c)" "spec_list ks' u (db t) = (r, d)" "same_for u c d"
      using agreeE [OF agree_list [OF assms(1,4)]] .
    then have "alike u (h_list spec_repo ks ctx s) (h_list spec_repo ks' ctx t)"
      using assms(2,3) by (cases r) (simp_all add: h_list_def alike_def)
    then show ?thesis using ListTheBooks by (simp add: handle_def lift)
  next
    case (GetBook i)
    obtain r c d where "spec_get u i (db s) = (r, c)" "spec_get u i (db t) = (r, d)" "same_for u c d"
      using agreeE [OF agree_ops(2) [OF assms(1)]] .
    then have "alike u (h_get spec_repo ctx i s) (h_get spec_repo ctx i t)"
      using assms(2,3) by (cases r) (simp_all add: h_get_def alike_def)
    then show ?thesis using GetBook by (simp add: handle_def lift)
  next
    case (UpdateBook i p)
    then show ?thesis using alike_update [OF assms(1-3)] by (simp add: handle_def lift)
  next
    case (DeleteBook i)
    obtain r c d where "spec_delete u i (db s) = (r, c)" "spec_delete u i (db t) = (r, d)" "same_for u c d"
      using agreeE [OF agree_ops(4) [OF assms(1)]] .
    then have "alike u (h_delete spec_repo ctx i s) (h_delete spec_repo ctx i t)"
      using assms(2,3) by (cases r) (simp_all add: h_delete_def alike_def)
    then show ?thesis using DeleteBook by (simp add: handle_def lift)
  next
    case (GetCover i)
    obtain r c d where "CoverForBook spec_repo u i (db s) = (r, c)"
        "CoverForBook spec_repo u i (db t) = (r, d)" "same_for u c d"
      using agreeE [OF agree_ops(7) [OF assms(1)]] .
    then have "alike u (h_cover spec_repo ctx i s) (h_cover spec_repo ctx i t)"
      using assms(2,3) by (cases r) (simp_all add: h_cover_def alike_def)
    then show ?thesis using GetCover by (simp add: handle_def lift)
  next
    case (RefreshBook i)
    then show ?thesis using alike_refresh [OF assms(1-3)] by (simp add: handle_def lift)
  qed
qed

section \<open>Outcomes in closed form\<close>

text \<open>The book a POST stores, and the book a PATCH stores over an old one.\<close>

definition posted :: "time \<Rightarrow> runtime \<Rightarrow> string \<Rightarrow> string \<Rightarrow> book_write \<Rightarrow> book" where
  "posted now rt u isbn w = stamped now (mint rt) u ((toBook w)\<lparr>ISBN := isbn\<rparr>)"

definition patched :: "time \<Rightarrow> book_patch \<Rightarrow> catalog \<Rightarrow> book \<Rightarrow> book" where
  "patched now p c b = bare ((applyTo p (reader_view c b))\<lparr>CreatedAt := CreatedAt b, UpdatedAt := now\<rparr>)"

text \<open>The catalogue after enrichment of an ISBN was asked for.\<close>

definition ensured :: "string \<Rightarrow> catalog \<Rightarrow> catalog" where
  "ensured k c = snd (spec_ensure k c)"

lemma ensured_simps [simp]:
  "cat_books (ensured k c) = cat_books c" "cat_covers (ensured k c) = cat_covers c"
  "cat_editions (ensured k c) = (cat_editions c)(k \<mapsto> edition_or_new k c)"
  by (auto simp: ensured_def spec_ensure_def edition_or_new_def fun_eq_iff split: option.split)

lemma enqueue_spec:
  "k \<noteq> [] \<Longrightarrow> enqueueEnrichment spec_repo enq k sv
     = sv\<lparr>db := ensured k (db sv), queue := enq k (queue sv)\<rparr>"
  by (simp add: enqueueEnrichment_def ensured_def spec_ensure_def)

lemma posted_simps [simp]:
  "ID (posted now rt u k w) = mint rt" "UserID (posted now rt u k w) = u"
  "ISBN (posted now rt u k w) = k" "bare (posted now rt u k w) = posted now rt u k w"
  "Title (posted now rt u k w) = w_Title w" "Author (posted now rt u k w) = w_Author w"
  by (simp_all add: posted_def stamped_def toBook_def zero_book_def bare_def)

lemma spec_create_outcome:
  assumes "requireUser ctx = Inr u" "isbnFromInput rt (w_ISBN w) = Inr isbn"
  shows "h_create spec_repo enq rt ctx w sv =
    (let b = posted (clock rt) rt u isbn w; c = ensured isbn (put_book b (db sv))
     in (Inr (setCoverURL (reader_view c b)), \<lparr>db = c, queue = enq isbn (queue sv)\<rparr>))"
proof -
  let ?b = "posted (clock rt) rt u isbn w"
  have k: "isbn \<noteq> []" using isbnFromInput_shape [OF assms(2)] isbnShape_nonempty by blast
  have c: "spec_create (clock rt) (mint rt) u ((toBook w)\<lparr>ISBN := isbn\<rparr>) (db sv) = (Inr ?b, put_book ?b (db sv))"
    by (simp add: spec_create_def posted_def Let_def)
  have g: "spec_get u (mint rt) (ensured isbn (put_book ?b (db sv)))
      = (Inr (reader_view (ensured isbn (put_book ?b (db sv))) ?b), ensured isbn (put_book ?b (db sv)))"
    by (simp add: spec_get_def owned_def)
  show ?thesis
    using assms c g k
    by (cases sv) (simp add: h_create_def Let_def enqueue_spec cong: prod.case_cong sum.case_cong)
qed

lemma spec_update_outcome:
  assumes "requireUser ctx = Inr u" "owned (db sv) u i = Some b" "ID b = i" "canonical_patch rt p = Inr p'"
  shows "h_update spec_repo enq rt ctx i p sv =
    (let b' = patched (clock rt) p' (db sv) b; c1 = put_book b' (db sv);
         c = (if ISBN b' \<noteq> ISBN b then ensured (ISBN b') c1 else c1);
         q = (if ISBN b' \<noteq> ISBN b then enq (ISBN b') (queue sv) else queue sv)
     in (Inr (setCoverURL (reader_view c b')), \<lparr>db = c, queue = q\<rparr>))"
proof -
  let ?new = "(applyTo p' (reader_view (db sv) b))\<lparr>UserID := u, CreatedAt := CreatedAt b, UpdatedAt := clock rt\<rparr>"
  let ?b = "patched (clock rt) p' (db sv) b"
  have u: "UserID b = u" using owned_SomeD [OF assms(2)] by simp
  have same: "?new = (applyTo p' (reader_view (db sv) b))\<lparr>CreatedAt := CreatedAt b, UpdatedAt := clock rt\<rparr>"
    using u applyTo_user(1) [of p' "reader_view (db sv) b"]
    by (cases "applyTo p' (reader_view (db sv) b)") simp
  have bare: "bare ?new = ?b" "put_book ?new (db sv) = put_book ?b (db sv)" "ISBN ?new = ISBN ?b"
    unfolding same by (simp_all add: patched_def put_book_def)
  have k: "ISBN ?b = ISBN b \<or> ISBN ?b \<noteq> []"
    using applyTo_ISBN [OF assms(4), of "reader_view (db sv) b"] isbnShape_nonempty
    by (auto simp: patched_def)
  have own: "owned (put_book ?b (db sv)) u i = Some ?b" "ID ?b = i" "UserID ?b = u"
    using assms(3) u by (simp_all add: owned_put_book patched_def applyTo_user)
  have g: "spec_get u i (db sv) = (Inr (reader_view (db sv) b), db sv)"
    using assms(2) by (simp add: spec_get_def)
  have up: "spec_update (clock rt) u (applyTo p' (reader_view (db sv) b)) (db sv) = (Inr ?new, put_book ?b (db sv))"
    using assms(2,3) bare by (simp add: spec_update_def Let_def)
  have own2: "owned (ensured (ISBN ?b) (put_book ?b (db sv))) u i = Some ?b"
    using own by (simp add: owned_def)
  show ?thesis
  proof (cases "ISBN ?b = ISBN b")
    case True
    then show ?thesis using assms(1,4) g up bare(3) own
      by (cases sv) (simp add: h_update_def Let_def spec_get_def cong: prod.case_cong sum.case_cong)
  next
    case False
    then show ?thesis using assms(1,4) g up bare(3) own2 k
      by (cases sv) (simp add: h_update_def Let_def spec_get_def enqueue_spec cong: prod.case_cong sum.case_cong)
  qed
qed

lemma spec_get_outcome:
  assumes "requireUser ctx = Inr u"
  shows "h_get spec_repo ctx i sv =
    (case owned (db sv) u i of
       None \<Rightarrow> Inl (error_404 ''book not found'')
     | Some b \<Rightarrow> Inr (setCoverURL (reader_view (db sv) b)), sv)"
  using assms by (cases sv; cases "owned (db sv) u i") (simp_all add: h_get_def spec_get_def)

definition cover_reply :: "cover \<Rightarrow> cover_output" where
  "cover_reply cv = \<lparr>out_ContentType = c_ContentType cv, out_CacheControl = ''private, max-age=86400'',
     out_ETag = c_ETag cv, out_Body = c_Bytes cv\<rparr>"

lemma spec_cover_outcome:
  assumes "requireUser ctx = Inr u"
  shows "h_cover spec_repo ctx i sv =
    (case owned (db sv) u i of
       None \<Rightarrow> Inl (error_404 ''cover not found'')
     | Some b \<Rightarrow> (case cat_covers (db sv) (ISBN b) of
         None \<Rightarrow> Inl (error_404 ''cover not found'') | Some cv \<Rightarrow> Inr (cover_reply cv)), sv)"
  using assms
  by (cases sv; cases "owned (db sv) u i") (auto simp: h_cover_def spec_repo_def cover_reply_def split: option.split)

lemma spec_delete_outcome:
  assumes "requireUser ctx = Inr u"
  shows "h_delete spec_repo ctx i sv =
    (case owned (db sv) u i of
       None \<Rightarrow> (Inl (error_404 ''book not found''), sv)
     | Some b \<Rightarrow> (Inr (), sv\<lparr>db := (db sv)\<lparr>cat_books := (cat_books (db sv))(i := None)\<rparr>\<rparr>))"
  using assms by (cases sv; cases "owned (db sv) u i") (simp_all add: h_delete_def spec_delete_def)

lemma spec_refresh_outcome:
  assumes "requireUser ctx = Inr u"
  shows "h_refresh spec_repo enq ctx i sv =
    (case owned (db sv) u i of
       None \<Rightarrow> (Inl (error_404 ''book not found''), sv)
     | Some b \<Rightarrow>
         if ISBN b = [] then (Inl (error_422 ''book has no ISBN to enrich''), sv)
         else (Inr \<lparr>out_Status = ''queued'', out_ISBN = ISBN b\<rparr>,
           \<lparr>db = snd (spec_mark_pending (ISBN b) (db sv)), queue = enq (ISBN b) (queue sv)\<rparr>))"
  using assms
  by (cases sv; cases "owned (db sv) u i") (simp_all add: h_refresh_def spec_get_def spec_mark_pending_def)

end
