(* ===== verification/Memory_Store.thy ===== *)
theory Memory_Store
  imports Repository
begin

text \<open>
  The in-memory store (\<open>internal/books/store_memory.go\<close>). Each method runs under the store's
  mutex, so it is one atomic function of the three maps. The clock and the UUID generator are
  read through arguments; an operation that ranges over a map takes the order as an argument.
  The store implements the catalogue specification and never fails.
\<close>

section \<open>State\<close>

record mem_edition =
  e_Title :: string
  e_Author :: string
  e_Description :: string
  e_Publisher :: string
  e_PublishedDate :: string
  e_PageCount :: int
  e_Status :: status
  e_EnrichedAt :: "time option"
  e_HasCover :: bool

definition zero_mem_edition :: mem_edition where
  "zero_mem_edition = \<lparr>e_Title = [], e_Author = [], e_Description = [], e_Publisher = [],
     e_PublishedDate = [], e_PageCount = 0, e_Status = [], e_EnrichedAt = None,
     e_HasCover = False\<rparr>"

record memory_store =
  mem_books :: "string \<rightharpoonup> book"
  mem_editions :: "string \<rightharpoonup> mem_edition"
  mem_covers :: "string \<rightharpoonup> cover"

definition NewMemoryStore :: memory_store where
  "NewMemoryStore = \<lparr>mem_books = Map.empty, mem_editions = Map.empty, mem_covers = Map.empty\<rparr>"

section \<open>Books\<close>

definition mem_Create :: "time \<Rightarrow> string \<Rightarrow> string \<Rightarrow> book \<Rightarrow> (memory_store, go_error, book) call" where
  "mem_Create now newID userID b s =
     (let b1 = b\<lparr>ID := newID, UserID := userID\<rparr>;
          b2 = (if Status b1 = [] then b1\<lparr>Status := StatusToRead\<rparr> else b1);
          b3 = b2\<lparr>CreatedAt := now, UpdatedAt := now\<rparr>
      in (Inr b3, s\<lparr>mem_books := (mem_books s)(ID b3 \<mapsto> b3)\<rparr>))"

definition ownedBook :: "memory_store \<Rightarrow> string \<Rightarrow> string \<Rightarrow> book option" where
  "ownedBook s userID bid =
     (case mem_books s bid of
        None \<Rightarrow> None
      | Some b \<Rightarrow> if UserID b \<noteq> userID then None else Some b)"

definition applyEdition :: "memory_store \<Rightarrow> book \<Rightarrow> book" where
  "applyEdition s b =
     (case mem_editions s (ISBN b) of
        Some e \<Rightarrow>
          (if ISBN b \<noteq> [] then
             (applyCanonicalNames b (e_Title e) (e_Author e))\<lparr>
               Description := e_Description e, Publisher := e_Publisher e,
               PublishedDate := e_PublishedDate e, PageCount := e_PageCount e,
               EnrichmentStatus := e_Status e, EnrichedAt := e_EnrichedAt e,
               HasCover := e_HasCover e\<rparr>
           else b\<lparr>Description := [], Publisher := [], PublishedDate := [], PageCount := 0,
               EnrichedAt := None, HasCover := False,
               EnrichmentStatus := enrichmentStatusFor (ISBN b) None\<rparr>)
      | None \<Rightarrow> b\<lparr>Description := [], Publisher := [], PublishedDate := [], PageCount := 0,
               EnrichedAt := None, HasCover := False,
               EnrichmentStatus := enrichmentStatusFor (ISBN b) None\<rparr>)"

definition mem_Get :: "string \<Rightarrow> string \<Rightarrow> (memory_store, go_error, book) call" where
  "mem_Get userID bid s =
     (case ownedBook s userID bid of
        None \<Rightarrow> (Inl (Sentinel BookNotFound), s)
      | Some b \<Rightarrow> (Inr (applyEdition s b), s))"

text \<open>
  The loop of \<open>List\<close> collects in the order of the range over the map; \<open>sort.Slice\<close> then
  sorts by creation time and leaves books of one instant in any order, which the arbitrary
  order of the range already covers.
\<close>

definition mem_List :: "string list \<Rightarrow> string \<Rightarrow> (memory_store, go_error, book list) call" where
  "mem_List order userID s =
     (let out = map (applyEdition s)
            (filter (\<lambda>b. \<not> UserID b \<noteq> userID) (entries order (mem_books s)))
      in (Inr (sort_key CreatedAt out), s))"

definition mem_Update :: "time \<Rightarrow> string \<Rightarrow> book \<Rightarrow> (memory_store, go_error, book) call" where
  "mem_Update now userID b s =
     (case ownedBook s userID (ID b) of
        None \<Rightarrow> (Inl (Sentinel BookNotFound), s)
      | Some existing \<Rightarrow>
          (let b1 = b\<lparr>UserID := userID, CreatedAt := CreatedAt existing, UpdatedAt := now\<rparr>
           in (Inr b1, s\<lparr>mem_books := (mem_books s)(ID b1 \<mapsto> b1)\<rparr>)))"

definition mem_Delete :: "string \<Rightarrow> string \<Rightarrow> (memory_store, go_error, unit) call" where
  "mem_Delete userID bid s =
     (case ownedBook s userID bid of
        None \<Rightarrow> (Inl (Sentinel BookNotFound), s)
      | Some _ \<Rightarrow> (Inr (), s\<lparr>mem_books := (mem_books s)(bid := None)\<rparr>))"

section \<open>Editions and covers\<close>

definition mem_EnsureEdition :: "string \<Rightarrow> (memory_store, go_error, unit) call" where
  "mem_EnsureEdition isbn s =
     (Inr (), case mem_editions s isbn of
        None \<Rightarrow> s\<lparr>mem_editions := (mem_editions s)
                  (isbn \<mapsto> zero_mem_edition\<lparr>e_Status := StatusPending\<rparr>)\<rparr>
      | Some _ \<Rightarrow> s)"

definition mem_MarkEditionPending :: "string \<Rightarrow> (memory_store, go_error, unit) call" where
  "mem_MarkEditionPending isbn s =
     (let e = (case mem_editions s isbn of None \<Rightarrow> zero_mem_edition | Some e \<Rightarrow> e)
      in (Inr (), s\<lparr>mem_editions := (mem_editions s)(isbn \<mapsto> e\<lparr>e_Status := StatusPending\<rparr>)\<rparr>))"

definition mem_PendingEnrichment ::
  "string list \<Rightarrow> int \<Rightarrow> (memory_store, go_error, string list) call" where
  "mem_PendingEnrichment order limit s =
     (let out = filter (\<lambda>isbn. case mem_editions s isbn of
              None \<Rightarrow> False
            | Some e \<Rightarrow> e_Status e = StatusPending \<or> e_Status e = StatusFailed) order;
          sorted_out = sort out
      in (Inr (if 0 < limit \<and> limit < int (length sorted_out)
               then take (nat limit) sorted_out else sorted_out), s))"

definition mem_EditionStatus :: "string \<Rightarrow> (memory_store, go_error, status \<times> bool) call" where
  "mem_EditionStatus isbn s =
     (case mem_editions s isbn of
        None \<Rightarrow> (Inr ([], False), s)
      | Some e \<Rightarrow> (Inr (e_Status e, True), s))"

definition mem_SaveEnrichment ::
  "time \<Rightarrow> string \<Rightarrow> metadata option \<Rightarrow> status \<Rightarrow> (memory_store, go_error, unit) call" where
  "mem_SaveEnrichment now isbn m st s =
     (let e = (case mem_editions s isbn of None \<Rightarrow> zero_mem_edition | Some e \<Rightarrow> e);
          e1 = e\<lparr>e_Status := st\<rparr>;
          e2 = (case m of
                  None \<Rightarrow> e1
                | Some md \<Rightarrow> e1\<lparr>e_Title := m_Title md, e_Author := m_Author md,
                     e_Description := m_Description md, e_Publisher := m_Publisher md,
                     e_PublishedDate := m_PublishedDate md, e_PageCount := m_PageCount md,
                     e_EnrichedAt := Some now\<rparr>)
      in (Inr (), s\<lparr>mem_editions := (mem_editions s)(isbn \<mapsto> e2)\<rparr>))"

definition mem_SaveCover :: "string \<Rightarrow> cover \<Rightarrow> (memory_store, go_error, unit) call" where
  "mem_SaveCover isbn c s =
     (let s1 = s\<lparr>mem_covers := (mem_covers s)(isbn \<mapsto> c)\<rparr>;
          e = (case mem_editions s1 isbn of
                 None \<Rightarrow> zero_mem_edition\<lparr>e_Status := StatusPending\<rparr> | Some e \<Rightarrow> e)
      in (Inr (), s1\<lparr>mem_editions := (mem_editions s1)(isbn \<mapsto> e\<lparr>e_HasCover := True\<rparr>)\<rparr>))"

definition mem_CoverForBook :: "string \<Rightarrow> string \<Rightarrow> (memory_store, go_error, cover) call" where
  "mem_CoverForBook userID bookID s =
     (case ownedBook s userID bookID of
        None \<Rightarrow> (Inl (Sentinel BookNotFound), s)
      | Some b \<Rightarrow>
          (case mem_covers s (ISBN b) of
             None \<Rightarrow> (Inl (Sentinel BookNotFound), s)
           | Some c \<Rightarrow> (Inr c, s)))"

text \<open>The store as a value of the interface.\<close>

definition mem_repo :: "memory_store repository_ops" where
  "mem_repo = \<lparr>PendingEnrichment = mem_PendingEnrichment, EditionStatus = mem_EditionStatus,
     SaveEnrichment = mem_SaveEnrichment, SaveCover = mem_SaveCover,
     Create = mem_Create, Get = mem_Get, ListBooks = mem_List, Update = mem_Update,
     Delete = mem_Delete, EnsureEdition = mem_EnsureEdition,
     MarkEditionPending = mem_MarkEditionPending, CoverForBook = mem_CoverForBook\<rparr>"

section \<open>Abstraction\<close>

definition mem_edition_of :: "mem_edition \<Rightarrow> edition" where
  "mem_edition_of e = \<lparr>ed_meta = \<lparr>m_Title = e_Title e, m_Author = e_Author e,
       m_Description = e_Description e, m_Publisher = e_Publisher e,
       m_PublishedDate = e_PublishedDate e, m_PageCount = e_PageCount e\<rparr>,
     ed_status = e_Status e, ed_at = e_EnrichedAt e, ed_cover = e_HasCover e\<rparr>"

definition mem_catalog :: "memory_store \<Rightarrow> catalog" where
  "mem_catalog s = \<lparr>cat_books = (\<lambda>i. map_option bare (mem_books s i)),
     cat_editions = (\<lambda>k. map_option mem_edition_of (mem_editions s k)),
     cat_covers = mem_covers s\<rparr>"

text \<open>
  The store's own invariant: the catalogue it stands for is well formed, and no stored book
  carries a cover URL (only copies handed out do).
\<close>

definition mem_valid :: "memory_store \<Rightarrow> bool" where
  "mem_valid s \<longleftrightarrow> wf_catalog (mem_catalog s)
     \<and> (\<forall>i b. mem_books s i = Some b \<longrightarrow> CoverURL b = [])"

lemma mem_catalog_simps [simp]:
  "cat_books (mem_catalog s) i = map_option bare (mem_books s i)"
  "cat_editions (mem_catalog s) k = map_option mem_edition_of (mem_editions s k)"
  "cat_covers (mem_catalog s) = mem_covers s"
  by (simp_all add: mem_catalog_def)

lemma mem_dom_simps [simp]:
  "dom (cat_books (mem_catalog s)) = dom (mem_books s)"
  "dom (cat_editions (mem_catalog s)) = dom (mem_editions s)"
  by (auto simp: dom_def)

lemma mem_edition_of_simps [simp]:
  "mem_edition_of (e\<lparr>e_Status := st\<rparr>) = (mem_edition_of e)\<lparr>ed_status := st\<rparr>"
  "mem_edition_of (e\<lparr>e_HasCover := h\<rparr>) = (mem_edition_of e)\<lparr>ed_cover := h\<rparr>"
  "ed_status (mem_edition_of e) = e_Status e" "ed_cover (mem_edition_of e) = e_HasCover e"
  "ed_at (mem_edition_of e) = e_EnrichedAt e"
  "m_Title (ed_meta (mem_edition_of e)) = e_Title e"
  "m_Author (ed_meta (mem_edition_of e)) = e_Author e"
  by (simp_all add: mem_edition_of_def)

lemma mem_edition_of_zero: "(mem_edition_of zero_mem_edition)\<lparr>ed_status := StatusPending\<rparr> = pending_edition"
  by (simp add: mem_edition_of_def zero_mem_edition_def pending_edition_def blank_metadata_def)

lemma mem_owned: "owned (mem_catalog s) u i = map_option bare (ownedBook s u i)"
  by (simp add: owned_def ownedBook_def split: option.split)

lemma mem_edition_or_new:
  "(edition_or_new k (mem_catalog s))\<lparr>ed_status := st\<rparr>
     = (mem_edition_of (case mem_editions s k of None \<Rightarrow> zero_mem_edition | Some e \<Rightarrow> e))\<lparr>ed_status := st\<rparr>"
  using arg_cong [OF mem_edition_of_zero, of "\<lambda>e. e\<lparr>ed_status := st\<rparr>"]
  by (simp add: edition_or_new_def split: option.split)

text \<open>The merge on read is the reader's view of the catalogue.\<close>

lemma applyEdition_view:
  assumes "CoverURL b = []"
  shows "applyEdition s b = reader_view (mem_catalog s) (bare b)"
proof (cases "mem_editions s (ISBN b)")
  case None
  then show ?thesis using assms
    by (simp add: applyEdition_def reader_view_def edition_of_def bare_def
        enrichmentStatusFor_def StatusPending_def)
next
  case (Some e)
  then show ?thesis using assms
    by (simp add: applyEdition_def applyCanonicalNames_def Let_def reader_view_def edition_of_def
        bare_def enrichmentStatusFor_def mem_edition_of_def)
qed


section \<open>Refinement\<close>

lemma mem_Create_abs:
  "map_prod id mem_catalog (mem_Create now i u b s) = spec_create now i u b (mem_catalog s)"
  by (auto simp: mem_Create_def spec_create_def Let_def stamped_def StatusToRead_def bare_def
      intro!: catalog_eqI)

lemma mem_Get_abs:
  "mem_valid s \<Longrightarrow> map_prod id mem_catalog (mem_Get u i s) = spec_get u i (mem_catalog s)"
  by (auto simp: mem_Get_def spec_get_def mem_owned applyEdition_view mem_valid_def ownedBook_def
      split: option.split)

lemma mem_List_abs:
  assumes "mem_valid s"
  shows "map_prod id mem_catalog (mem_List ks u s) = spec_list ks u (mem_catalog s)"
proof -
  let ?c = "mem_catalog s"
  have e: "entries ks (cat_books ?c) = map bare (entries ks (mem_books s))"
    using entries_map_option [of ks bare "mem_books s"]
    by (simp add: entries_def List.map_filter_def comp_def)
  have "applyEdition s b = reader_view ?c (bare b)"
    if "b \<in> set (entries ks (mem_books s))" for b
    using that assms by (intro applyEdition_view) (auto simp: set_entries mem_valid_def)
  then show ?thesis
    by (auto simp: mem_List_def spec_list_def e filter_map comp_def
        intro!: arg_cong [where f = "sort_key CreatedAt"])
qed

lemma mem_Update_abs:
  "map_prod id mem_catalog (mem_Update now u b s) = spec_update now u b (mem_catalog s)"
  by (auto simp: mem_Update_def spec_update_def mem_owned Let_def bare_def split: option.split
      intro!: catalog_eqI)

lemma mem_Delete_abs:
  "map_prod id mem_catalog (mem_Delete u i s) = spec_delete u i (mem_catalog s)"
  by (auto simp: mem_Delete_def spec_delete_def mem_owned split: option.split intro!: catalog_eqI)

lemma mem_EnsureEdition_abs:
  "map_prod id mem_catalog (mem_EnsureEdition k s) = spec_ensure k (mem_catalog s)"
  by (auto simp: mem_EnsureEdition_def spec_ensure_def mem_edition_of_zero split: option.split
      intro!: catalog_eqI)

lemma mem_MarkEditionPending_abs:
  "map_prod id mem_catalog (mem_MarkEditionPending k s) = spec_mark_pending k (mem_catalog s)"
  by (auto simp: mem_MarkEditionPending_def spec_mark_pending_def mem_edition_or_new
      intro!: catalog_eqI)

lemma mem_EditionStatus_abs:
  "map_prod id mem_catalog (mem_EditionStatus k s) = spec_edition_status k (mem_catalog s)"
  by (auto simp: mem_EditionStatus_def spec_edition_status_def split: option.split)

lemma mem_SaveEnrichment_abs:
  "map_prod id mem_catalog (mem_SaveEnrichment now k m st s)
     = spec_save_enrichment now k m st (mem_catalog s)"
  by (auto simp: mem_SaveEnrichment_def spec_save_enrichment_def mem_edition_or_new Let_def
      mem_edition_of_def split: option.split intro!: catalog_eqI)

lemma mem_SaveCover_abs:
  "map_prod id mem_catalog (mem_SaveCover k cv s) = spec_save_cover k cv (mem_catalog s)"
  by (auto simp: mem_SaveCover_def spec_save_cover_def Let_def mem_edition_of_zero
      split: option.split intro!: catalog_eqI)

lemma mem_CoverForBook_abs:
  "map_prod (map_sum id served) mem_catalog (mem_CoverForBook u i s)
     = (spec_cover u i (mem_catalog s), mem_catalog s)"
  by (auto simp: mem_CoverForBook_def spec_cover_def mem_owned split: option.split)

section \<open>The contract\<close>

definition mem_plain :: "memory_store \<Rightarrow> bool" where
  "mem_plain s \<longleftrightarrow> (\<forall>i b. mem_books s i = Some b \<longrightarrow> CoverURL b = [])"

lemma mem_valid_alt: "mem_valid s \<longleftrightarrow> wf_catalog (mem_catalog s) \<and> mem_plain s"
  by (simp add: mem_valid_def mem_plain_def)

lemma mem_plain_put:
  "mem_plain s \<Longrightarrow> CoverURL b = [] \<Longrightarrow> mem_plain (s\<lparr>mem_books := (mem_books s)(i \<mapsto> b)\<rparr>)"
  by (simp add: mem_plain_def)

lemma mem_plain_del: "mem_plain s \<Longrightarrow> mem_plain (s\<lparr>mem_books := (mem_books s)(i := None)\<rparr>)"
  by (simp add: mem_plain_def)

lemma mem_plain_frame [simp]:
  "mem_plain (s\<lparr>mem_editions := es\<rparr>) = mem_plain s" "mem_plain (s\<lparr>mem_covers := cs\<rparr>) = mem_plain s"
  by (simp_all add: mem_plain_def)

lemma mem_reads [simp]:
  "snd (mem_Get u i s) = s" "snd (mem_List ks u s) = s" "snd (mem_PendingEnrichment ks n s) = s"
  "snd (mem_EditionStatus k s) = s" "snd (mem_CoverForBook u i s) = s"
  by (simp_all add: mem_Get_def mem_List_def mem_PendingEnrichment_def mem_EditionStatus_def
      mem_CoverForBook_def Let_def split: option.split)

lemma mem_plain_step:
  "mem_plain s \<Longrightarrow> CoverURL b = [] \<Longrightarrow> mem_plain (snd (mem_Create now i u b s))"
  "mem_plain s \<Longrightarrow> CoverURL b = [] \<Longrightarrow> mem_plain (snd (mem_Update now u b s))"
  "mem_plain s \<Longrightarrow> mem_plain (snd (mem_Delete u i s))"
  "mem_plain s \<Longrightarrow> mem_plain (snd (mem_EnsureEdition k s))"
  "mem_plain s \<Longrightarrow> mem_plain (snd (mem_MarkEditionPending k s))"
  "mem_plain s \<Longrightarrow> mem_plain (snd (mem_SaveEnrichment now k m st s))"
  "mem_plain s \<Longrightarrow> mem_plain (snd (mem_SaveCover k cv s))"
  by (simp_all add: mem_Create_def mem_Update_def mem_Delete_def mem_EnsureEdition_def
      mem_MarkEditionPending_def mem_SaveEnrichment_def mem_SaveCover_def Let_def
      mem_plain_put mem_plain_del split: option.split)

lemma mem_answers:
  assumes "map_prod id mem_catalog res = p" "wf_catalog (snd p)" "mem_plain (snd res)"
  shows "answers mem_catalog mem_valid s res p"
  using assms by (cases res) (auto simp: answers_def mem_valid_alt)

definition mem_unfinished :: "memory_store \<Rightarrow> string \<Rightarrow> bool" where
  "mem_unfinished s k =
     (case mem_editions s k of None \<Rightarrow> False
      | Some e \<Rightarrow> e_Status e = StatusPending \<or> e_Status e = StatusFailed)"

lemma mem_unfinished: "mem_unfinished s k \<longleftrightarrow> unfinished (mem_catalog s) k"
  by (auto simp: mem_unfinished_def unfinished_def split: option.split)

lemma mem_PendingEnrichment_alt:
  "0 < limit \<Longrightarrow> mem_PendingEnrichment ks limit s
     = (Inr (take (nat limit) (sort (filter (mem_unfinished s) ks))), s)"
  unfolding mem_PendingEnrichment_def mem_unfinished_def [symmetric] Let_def by simp

lemma mem_sweep:
  assumes "enumerates ks (mem_editions s)" "0 < limit"
  shows "\<exists>xs. mem_PendingEnrichment ks limit s = (Inr xs, s) \<and> sorted xs
           \<and> sweep_of limit (mem_catalog s) xs"
proof -
  let ?out = "sort (filter (mem_unfinished s) ks)"
  have "k \<in> set ks" if "mem_unfinished s k" for k
    using that enumerates_dom [OF assms(1)]
    by (auto simp: mem_unfinished_def split: option.splits)
  then have "set ?out = Collect (unfinished (mem_catalog s))"
    by (auto simp: mem_unfinished [symmetric])
  moreover have "distinct ?out" using assms(1) by (simp add: enumerates_def)
  ultimately have "sweep_of limit (mem_catalog s) (take (nat limit) ?out)"
    by (intro sweep_prefix)
  moreover have "sorted (take (nat limit) ?out)" by (rule sorted_wrt_take) simp
  ultimately show ?thesis using mem_PendingEnrichment_alt [OF assms(2)] by blast
qed

lemmas mem_step_abs = mem_Create_abs mem_Update_abs mem_Delete_abs mem_EnsureEdition_abs
  mem_MarkEditionPending_abs mem_EditionStatus_abs mem_SaveEnrichment_abs mem_SaveCover_abs

lemma mem_repo_simps [simp]:
  "PendingEnrichment mem_repo = mem_PendingEnrichment" "EditionStatus mem_repo = mem_EditionStatus"
  "SaveEnrichment mem_repo = mem_SaveEnrichment" "SaveCover mem_repo = mem_SaveCover"
  "Create mem_repo = mem_Create" "Get mem_repo = mem_Get" "ListBooks mem_repo = mem_List"
  "Update mem_repo = mem_Update" "Delete mem_repo = mem_Delete"
  "EnsureEdition mem_repo = mem_EnsureEdition"
  "MarkEditionPending mem_repo = mem_MarkEditionPending" "CoverForBook mem_repo = mem_CoverForBook"
  by (simp_all add: mem_repo_def)

lemma mem_never_fails:
  "delivers (\<lambda>_. True) (mem_Create now i u b s)" "delivers (\<lambda>_. True) (mem_Get u i s)"
  "delivers (\<lambda>_. True) (mem_List ks u s)" "delivers (\<lambda>_. True) (mem_Update now u b s)"
  "delivers (\<lambda>_. True) (mem_Delete u i s)" "delivers (\<lambda>_. True) (mem_EnsureEdition k s)"
  "delivers (\<lambda>_. True) (mem_MarkEditionPending k s)" "delivers (\<lambda>_. True) (mem_EditionStatus k s)"
  "delivers (\<lambda>_. True) (mem_SaveEnrichment now k m st s)" "delivers (\<lambda>_. True) (mem_SaveCover k cv s)"
  "delivers (\<lambda>_. True) (mem_CoverForBook u i s)"
  by (simp_all add: delivers_def mem_Create_def mem_Get_def mem_List_def mem_Update_def
      mem_Delete_def mem_EnsureEdition_def mem_MarkEditionPending_def mem_EditionStatus_def
      mem_SaveEnrichment_def mem_SaveCover_def mem_CoverForBook_def Let_def split: option.split)

lemma mem_promises:
  assumes "mem_valid s"
  shows "CoverURL b = [] \<Longrightarrow>
      answers mem_catalog mem_valid s (mem_Create now i u b s) (spec_create now i u b (mem_catalog s))"
    and "answers mem_catalog mem_valid s (mem_Get u i s) (spec_get u i (mem_catalog s))"
    and "answers mem_catalog mem_valid s (mem_List ks u s) (spec_list ks u (mem_catalog s))"
    and "CoverURL b = [] \<Longrightarrow>
      answers mem_catalog mem_valid s (mem_Update now u b s) (spec_update now u b (mem_catalog s))"
    and "answers mem_catalog mem_valid s (mem_Delete u i s) (spec_delete u i (mem_catalog s))"
    and "answers mem_catalog mem_valid s (mem_EnsureEdition k s) (spec_ensure k (mem_catalog s))"
    and "answers mem_catalog mem_valid s (mem_MarkEditionPending k s)
      (spec_mark_pending k (mem_catalog s))"
    and "answers mem_catalog mem_valid s (mem_EditionStatus k s)
      (spec_edition_status k (mem_catalog s))"
    and "answers mem_catalog mem_valid s (mem_SaveEnrichment now k m st s)
      (spec_save_enrichment now k m st (mem_catalog s))"
    and "answers mem_catalog mem_valid s (mem_SaveCover k cv s)
      (spec_save_cover k cv (mem_catalog s))"
proof -
  have wf: "wf_catalog (mem_catalog s)" and plain: "mem_plain s"
    using assms by (simp_all add: mem_valid_alt)
  note rules = mem_answers mem_step_abs wf_spec mem_plain_step
    mem_Get_abs [OF assms] mem_List_abs [OF assms]
  show "CoverURL b = [] \<Longrightarrow>
      answers mem_catalog mem_valid s (mem_Create now i u b s) (spec_create now i u b (mem_catalog s))"
    "CoverURL b = [] \<Longrightarrow>
      answers mem_catalog mem_valid s (mem_Update now u b s) (spec_update now u b (mem_catalog s))"
    "answers mem_catalog mem_valid s (mem_Get u i s) (spec_get u i (mem_catalog s))"
    "answers mem_catalog mem_valid s (mem_List ks u s) (spec_list ks u (mem_catalog s))"
    "answers mem_catalog mem_valid s (mem_Delete u i s) (spec_delete u i (mem_catalog s))"
    "answers mem_catalog mem_valid s (mem_EnsureEdition k s) (spec_ensure k (mem_catalog s))"
    "answers mem_catalog mem_valid s (mem_MarkEditionPending k s)
      (spec_mark_pending k (mem_catalog s))"
    "answers mem_catalog mem_valid s (mem_EditionStatus k s)
      (spec_edition_status k (mem_catalog s))"
    "answers mem_catalog mem_valid s (mem_SaveEnrichment now k m st s)
      (spec_save_enrichment now k m st (mem_catalog s))"
    "answers mem_catalog mem_valid s (mem_SaveCover k cv s)
      (spec_save_cover k cv (mem_catalog s))"
    by ((rule mem_answers, simp_all only: rules snd_reads mem_reads wf plain)[1])+
qed

lemma mem_cover_promise:
  assumes "mem_valid s"
  shows "answers mem_catalog mem_valid s (map_prod (map_sum id served) id (mem_CoverForBook u i s))
    (spec_cover u i (mem_catalog s), mem_catalog s)"
proof -
  have "map_prod id mem_catalog (map_prod (map_sum id served) id (mem_CoverForBook u i s))
      = (spec_cover u i (mem_catalog s), mem_catalog s)"
    by (simp add: mem_CoverForBook_abs [symmetric] prod.map_comp)
  moreover have "mem_plain (snd (mem_CoverForBook u i s))"
    using assms by (simp add: mem_valid_alt mem_plain_step)
  ultimately show ?thesis using assms by (intro mem_answers) (auto simp: mem_valid_alt)
qed

lemma mem_pending_promise:
  assumes "mem_valid s" "enumerates ks (cat_editions (mem_catalog s))" "0 < limit"
  shows "\<exists>xs. answers mem_catalog mem_valid s (mem_PendingEnrichment ks limit s) (Inr xs, mem_catalog s)
    \<and> sweep_of limit (mem_catalog s) xs"
  using mem_sweep [of ks s limit] assms enumerates_same_dom [OF mem_dom_simps(2)]
  by (auto simp: answers_def)

interpretation mem: repository mem_repo mem_catalog mem_valid "\<lambda>_. True" "\<lambda>_. True" "\<lambda>now. now"
  by unfold_locales
     (simp_all add: mem_promises mem_cover_promise mem_pending_promise mem_never_fails
        mem_valid_def)

end
