(* ===== verification/Postgres_Store.thy ===== *)
theory Postgres_Store
  imports Repository
begin

text \<open>
  The Postgres store (\<open>internal/books/store_postgres.go\<close>). The database is the three tables
  of the schema (\<open>migrations/\<close>) with the columns the code reads; each SQL statement of the
  store is a function on them, with the constraints the schema declares. The server and the
  network are not the program's: a schedule of replies says of every statement whether it is
  answered, refused without effect, or executed with its reply lost, and the theorems hold
  for every schedule. The column that records when a cover was fetched is never read and is
  left out.
\<close>

section \<open>Tables\<close>

record pg_book =
  col_id :: string
  col_user_id :: string
  col_isbn :: string
  col_title :: string
  col_author :: string
  col_status :: string
  col_rating :: int
  col_opinion :: string
  col_tags :: "string list"
  col_created_at :: time
  col_updated_at :: time

record pg_edition =
  ecol_title :: "string option"
  ecol_author :: "string option"
  ecol_description :: "string option"
  ecol_publisher :: "string option"
  ecol_published_date :: "string option"
  ecol_page_count :: int
  ecol_enrichment_status :: status
  ecol_enriched_at :: "time option"
  ecol_has_cover :: bool

record pg_cover =
  ccol_content_type :: string
  ccol_bytes :: string
  ccol_etag :: "string option"
  ccol_source_url :: "string option"

datatype reply = Answered | Refused string | ReplyLost string

record database =
  books_tbl :: "string \<rightharpoonup> pg_book"
  editions_tbl :: "string \<rightharpoonup> pg_edition"
  covers_tbl :: "string \<rightharpoonup> pg_cover"
  conn :: "reply list"

text \<open>
  A text parameter the server accepts: valid UTF-8 without the byte zero (the database has
  the server's default encoding). Any other is refused before the statement runs.
\<close>

definition pg_text :: "string \<Rightarrow> bool" where
  "pg_text t \<longleftrightarrow> CHR 0x00 \<notin> set t \<and> encode_runes (runes t) = t"

definition bound ::
  "string list \<Rightarrow> (database \<Rightarrow> (go_error + 'a) \<times> database) \<Rightarrow> database \<Rightarrow> (go_error + 'a) \<times> database" where
  "bound params stmt db =
     (if list_all pg_text params then stmt db
      else (Inl (Opaque ''invalid byte sequence for encoding''), db))"

text \<open>
  One statement with its text parameters: the next reply of the schedule decides; when the
  schedule is used up every statement is answered.
\<close>

definition statement ::
  "string list \<Rightarrow> (database \<Rightarrow> (go_error + 'a) \<times> database) \<Rightarrow> (database, go_error, 'a) call" where
  "statement params stmt db =
     (case conn db of
        [] \<Rightarrow> bound params stmt db
      | Answered # rs \<Rightarrow> bound params stmt (db\<lparr>conn := rs\<rparr>)
      | Refused m # rs \<Rightarrow> (Inl (Opaque m), db\<lparr>conn := rs\<rparr>)
      | ReplyLost m # rs \<Rightarrow> (Inl (Opaque m), snd (bound params stmt (db\<lparr>conn := rs\<rparr>))))"

section \<open>Constraints of the schema\<close>

text \<open>
  The check \<open>books_isbn_shape\<close>: without hyphens and blanks, nine digits and a digit or X in
  either case, or thirteen digits.
\<close>

definition books_isbn_shape :: "string \<Rightarrow> bool" where
  "books_isbn_shape isbn \<longleftrightarrow>
     (let s = filter (\<lambda>c. c \<notin> set ''- '') isbn
      in length s = 10 \<and> list_all is_digit (take 9 s) \<and> (is_digit (s ! 9) \<or> s ! 9 \<in> set ''Xx'')
       \<or> length s = 13 \<and> list_all is_digit s)"

definition new_edition :: "status \<Rightarrow> pg_edition" where
  "new_edition st = \<lparr>ecol_title = None, ecol_author = None, ecol_description = None,
     ecol_publisher = None, ecol_published_date = None, ecol_page_count = 0,
     ecol_enrichment_status = st, ecol_enriched_at = None, ecol_has_cover = False\<rparr>"

text \<open>\<open>Truncate(time.Microsecond)\<close>: the precision of a timestamp column.\<close>

definition truncate_us :: "time \<Rightarrow> time" where
  "truncate_us t = t - t mod 1000"

section \<open>Statements on books\<close>

definition sql_insert_book :: "pg_book \<Rightarrow> database \<Rightarrow> (go_error + unit) \<times> database" where
  "sql_insert_book row db =
     (if \<not> int4 (col_rating row) then (Inl (Opaque ''integer out of range''), db)
      else if \<not> books_isbn_shape (col_isbn row) then (Inl (Opaque ''check constraint''), db)
      else if books_tbl db (col_id row) \<noteq> None then (Inl (Opaque ''unique constraint''), db)
      else (Inr (), db\<lparr>books_tbl := (books_tbl db)(col_id row \<mapsto> row)\<rparr>))"

text \<open>The left join of a book with the edition of its ISBN.\<close>

definition joined :: "database \<Rightarrow> pg_book \<Rightarrow> pg_book \<times> pg_edition option" where
  "joined db row = (row, editions_tbl db (col_isbn row))"

definition book_row :: "string \<Rightarrow> string \<Rightarrow> database \<Rightarrow> pg_book option" where
  "book_row bid userID db =
     (case books_tbl db bid of
        None \<Rightarrow> None
      | Some row \<Rightarrow> if col_user_id row = userID then Some row else None)"

definition sql_select_book ::
  "string \<Rightarrow> string \<Rightarrow> database \<Rightarrow> (go_error + pg_book \<times> pg_edition option) \<times> database" where
  "sql_select_book bid userID db =
     (case book_row bid userID db of
        None \<Rightarrow> Inl (Sentinel NoRows) | Some row \<Rightarrow> Inr (joined db row), db)"

definition sql_select_books ::
  "string list \<Rightarrow> string \<Rightarrow> database \<Rightarrow> (go_error + (pg_book \<times> pg_edition option) list) \<times> database" where
  "sql_select_books order userID db =
     (Inr (map (joined db) (sort_key col_created_at
        (filter (\<lambda>row. col_user_id row = userID) (entries order (books_tbl db))))), db)"

definition sql_update_book ::
  "pg_book \<Rightarrow> database \<Rightarrow> (go_error + time) \<times> database" where
  "sql_update_book new db =
     (if \<not> int4 (col_rating new) then (Inl (Opaque ''integer out of range''), db)
      else case book_row (col_id new) (col_user_id new) db of
        None \<Rightarrow> (Inl (Sentinel NoRows), db)
      | Some row \<Rightarrow>
          (if \<not> books_isbn_shape (col_isbn new) then (Inl (Opaque ''check constraint''), db)
           else (Inr (col_created_at row),
             db\<lparr>books_tbl := (books_tbl db)(col_id new \<mapsto> row\<lparr>col_isbn := col_isbn new,
               col_title := col_title new, col_author := col_author new,
               col_status := col_status new, col_rating := col_rating new,
               col_opinion := col_opinion new, col_tags := col_tags new,
               col_updated_at := col_updated_at new\<rparr>)\<rparr>)))"

text \<open>The result is the number of rows affected.\<close>

definition sql_delete_book :: "string \<Rightarrow> string \<Rightarrow> database \<Rightarrow> (go_error + nat) \<times> database" where
  "sql_delete_book bid userID db =
     (case book_row bid userID db of
        None \<Rightarrow> (Inr 0, db)
      | Some _ \<Rightarrow> (Inr 1, db\<lparr>books_tbl := (books_tbl db)(bid := None)\<rparr>))"

section \<open>Statements on editions and covers\<close>

definition sql_ensure_edition :: "string \<Rightarrow> database \<Rightarrow> (go_error + unit) \<times> database" where
  "sql_ensure_edition isbn db =
     (Inr (), case editions_tbl db isbn of
        None \<Rightarrow> db\<lparr>editions_tbl := (editions_tbl db)(isbn \<mapsto> new_edition ''pending'')\<rparr>
      | Some _ \<Rightarrow> db)"

definition sql_upsert_status :: "string \<Rightarrow> status \<Rightarrow> database \<Rightarrow> (go_error + unit) \<times> database" where
  "sql_upsert_status isbn st db =
     (Inr (), db\<lparr>editions_tbl := (editions_tbl db)(isbn \<mapsto>
        (case editions_tbl db isbn of
           None \<Rightarrow> new_edition st
         | Some e \<Rightarrow> e\<lparr>ecol_enrichment_status := st\<rparr>))\<rparr>)"

definition sql_upsert_metadata ::
  "time \<Rightarrow> string \<Rightarrow> metadata \<Rightarrow> status \<Rightarrow> database \<Rightarrow> (go_error + unit) \<times> database" where
  "sql_upsert_metadata now isbn m st db =
     (if \<not> int4 (m_PageCount m) then (Inl (Opaque ''integer out of range''), db)
      else (Inr (), db\<lparr>editions_tbl := (editions_tbl db)(isbn \<mapsto>
        (case editions_tbl db isbn of None \<Rightarrow> new_edition st | Some e \<Rightarrow> e)\<lparr>
          ecol_title := Some (m_Title m), ecol_author := Some (m_Author m),
          ecol_description := Some (m_Description m), ecol_publisher := Some (m_Publisher m),
          ecol_published_date := Some (m_PublishedDate m), ecol_page_count := m_PageCount m,
          ecol_enrichment_status := st, ecol_enriched_at := Some (truncate_us now)\<rparr>)\<rparr>))"

text \<open>
  \<open>ORDER BY isbn\<close> over what the scan of the table finds. The keys are digits and X, which every
  collation orders as their bytes.
\<close>

definition sql_pending ::
  "string list \<Rightarrow> int \<Rightarrow> database \<Rightarrow> (go_error + string list) \<times> database" where
  "sql_pending order limit db =
     (if limit < 0 then Inl (Opaque ''LIMIT must not be negative'')
      else Inr (take (nat limit) (sort (filter (\<lambda>isbn. case editions_tbl db isbn of
          None \<Rightarrow> False
        | Some e \<Rightarrow> ecol_enrichment_status e \<in> {''pending'', ''failed''}) order))), db)"

definition sql_select_status :: "string \<Rightarrow> database \<Rightarrow> (go_error + status) \<times> database" where
  "sql_select_status isbn db =
     (case editions_tbl db isbn of
        None \<Rightarrow> Inl (Sentinel NoRows) | Some e \<Rightarrow> Inr (ecol_enrichment_status e), db)"

text \<open>A cover row references its edition.\<close>

definition sql_upsert_cover :: "string \<Rightarrow> cover \<Rightarrow> database \<Rightarrow> (go_error + unit) \<times> database" where
  "sql_upsert_cover isbn c db =
     (if editions_tbl db isbn = None then (Inl (Opaque ''foreign key constraint''), db)
      else (Inr (), db\<lparr>covers_tbl := (covers_tbl db)(isbn \<mapsto>
        \<lparr>ccol_content_type = c_ContentType c, ccol_bytes = c_Bytes c,
         ccol_etag = Some (c_ETag c), ccol_source_url = Some (c_SourceURL c)\<rparr>)\<rparr>))"

definition sql_set_has_cover :: "string \<Rightarrow> database \<Rightarrow> (go_error + unit) \<times> database" where
  "sql_set_has_cover isbn db =
     (Inr (), case editions_tbl db isbn of
        None \<Rightarrow> db
      | Some e \<Rightarrow> db\<lparr>editions_tbl := (editions_tbl db)(isbn \<mapsto> e\<lparr>ecol_has_cover := True\<rparr>)\<rparr>)"

definition sql_select_cover :: "string \<Rightarrow> string \<Rightarrow> database \<Rightarrow> (go_error + pg_cover) \<times> database" where
  "sql_select_cover bid userID db =
     (case book_row bid userID db of
        None \<Rightarrow> Inl (Sentinel NoRows)
      | Some row \<Rightarrow> (case covers_tbl db (col_isbn row) of
          None \<Rightarrow> Inl (Sentinel NoRows) | Some c \<Rightarrow> Inr c), db)"

section \<open>The methods\<close>

definition scanBook :: "pg_book \<times> pg_edition option \<Rightarrow> book" where
  "scanBook row =
     (case row of (r, e) \<Rightarrow>
       let b = zero_book\<lparr>ID := col_id r, UserID := col_user_id r, ISBN := col_isbn r,
             Title := col_title r, Author := col_author r, Status := col_status r,
             Rating := col_rating r, Opinion := col_opinion r, Tags := col_tags r,
             CreatedAt := col_created_at r, UpdatedAt := col_updated_at r\<rparr>;
           col = (\<lambda>f. strDeref (Option.bind e f));
           b1 = applyCanonicalNames b (col ecol_title) (col ecol_author);
           b2 = b1\<lparr>Description := col ecol_description, Publisher := col ecol_publisher,
             PublishedDate := col ecol_published_date\<rparr>;
           b3 = (case map_option ecol_page_count e of None \<Rightarrow> b2 | Some n \<Rightarrow> b2\<lparr>PageCount := n\<rparr>);
           b4 = b3\<lparr>EnrichedAt := Option.bind e ecol_enriched_at\<rparr>;
           b5 = (case map_option ecol_has_cover e of None \<Rightarrow> b4 | Some h \<Rightarrow> b4\<lparr>HasCover := h\<rparr>)
       in b5\<lparr>EnrichmentStatus := enrichmentStatusFor (ISBN b5) (map_option ecol_enrichment_status e)\<rparr>)"

definition pg_Create :: "time \<Rightarrow> string \<Rightarrow> string \<Rightarrow> book \<Rightarrow> (database, go_error, book) call" where
  "pg_Create clock newID userID b db =
     (let b1 = b\<lparr>ID := newID, UserID := userID\<rparr>;
          b2 = (if Status b1 = [] then b1\<lparr>Status := StatusToRead\<rparr> else b1);
          now = truncate_us clock;
          b3 = b2\<lparr>CreatedAt := now, UpdatedAt := now\<rparr>
      in case statement (book_texts b3) (sql_insert_book
             \<lparr>col_id = ID b3, col_user_id = UserID b3, col_isbn = ISBN b3, col_title = Title b3,
              col_author = Author b3, col_status = Status b3, col_rating = Rating b3,
              col_opinion = Opinion b3, col_tags = Tags b3, col_created_at = CreatedAt b3,
              col_updated_at = UpdatedAt b3\<rparr>) db of
           (Inl e, db') \<Rightarrow> (Inl (Wrap ''insert book'' e), db')
         | (Inr _, db') \<Rightarrow> (Inr b3, db'))"

definition pg_Get :: "string \<Rightarrow> string \<Rightarrow> (database, go_error, book) call" where
  "pg_Get userID bid db =
     (case statement [bid, userID] (sql_select_book bid userID) db of
        (Inl e, db') \<Rightarrow>
          (Inl (if errors_Is e NoRows then Sentinel BookNotFound else Wrap ''get book'' e), db')
      | (Inr row, db') \<Rightarrow> (Inr (scanBook row), db'))"

definition pg_List :: "string list \<Rightarrow> string \<Rightarrow> (database, go_error, book list) call" where
  "pg_List order userID db =
     (case statement [userID] (sql_select_books order userID) db of
        (Inl e, db') \<Rightarrow> (Inl (Wrap ''list books'' e), db')
      | (Inr rows, db') \<Rightarrow> (Inr (map scanBook rows), db'))"

definition pg_Update :: "time \<Rightarrow> string \<Rightarrow> book \<Rightarrow> (database, go_error, book) call" where
  "pg_Update clock userID b db =
     (let b1 = b\<lparr>UserID := userID, UpdatedAt := truncate_us clock\<rparr>
      in case statement (book_texts b1) (sql_update_book
             \<lparr>col_id = ID b1, col_user_id = userID, col_isbn = ISBN b1, col_title = Title b1,
              col_author = Author b1, col_status = Status b1, col_rating = Rating b1,
              col_opinion = Opinion b1, col_tags = Tags b1, col_created_at = CreatedAt b1,
              col_updated_at = UpdatedAt b1\<rparr>) db of
           (Inl e, db') \<Rightarrow>
             (Inl (if errors_Is e NoRows then Sentinel BookNotFound else Wrap ''update book'' e), db')
         | (Inr created, db') \<Rightarrow> (Inr (b1\<lparr>CreatedAt := created\<rparr>), db'))"

definition pg_Delete :: "string \<Rightarrow> string \<Rightarrow> (database, go_error, unit) call" where
  "pg_Delete userID bid db =
     (case statement [bid, userID] (sql_delete_book bid userID) db of
        (Inl e, db') \<Rightarrow> (Inl (Wrap ''delete book'' e), db')
      | (Inr n, db') \<Rightarrow> (if n = 0 then Inl (Sentinel BookNotFound) else Inr (), db'))"

definition pg_EnsureEdition :: "string \<Rightarrow> (database, go_error, unit) call" where
  "pg_EnsureEdition isbn db =
     (case statement [isbn] (sql_ensure_edition isbn) db of
        (Inl e, db') \<Rightarrow> (Inl (Wrap ''ensure edition'' e), db') | (Inr u, db') \<Rightarrow> (Inr u, db'))"

definition pg_MarkEditionPending :: "string \<Rightarrow> (database, go_error, unit) call" where
  "pg_MarkEditionPending isbn db =
     (case statement [isbn] (sql_upsert_status isbn ''pending'') db of
        (Inl e, db') \<Rightarrow> (Inl (Wrap ''mark edition pending'' e), db') | (Inr u, db') \<Rightarrow> (Inr u, db'))"

definition pg_PendingEnrichment ::
  "string list \<Rightarrow> int \<Rightarrow> (database, go_error, string list) call" where
  "pg_PendingEnrichment order limit db =
     (case statement [] (sql_pending order limit) db of
        (Inl e, db') \<Rightarrow> (Inl (Wrap ''list pending editions'' e), db')
      | (Inr out, db') \<Rightarrow> (Inr out, db'))"

definition pg_EditionStatus :: "string \<Rightarrow> (database, go_error, status \<times> bool) call" where
  "pg_EditionStatus isbn db =
     (case statement [isbn] (sql_select_status isbn) db of
        (Inl e, db') \<Rightarrow>
          (if errors_Is e NoRows then Inr ([], False) else Inl (Wrap ''edition status'' e), db')
      | (Inr st, db') \<Rightarrow> (Inr (st, True), db'))"

definition pg_SaveEnrichment ::
  "time \<Rightarrow> string \<Rightarrow> metadata option \<Rightarrow> status \<Rightarrow> (database, go_error, unit) call" where
  "pg_SaveEnrichment now isbn m st db =
     (case m of
        None \<Rightarrow>
          (case statement [isbn, st] (sql_upsert_status isbn st) db of
             (Inl e, db') \<Rightarrow> (Inl (Wrap ''save enrichment status'' e), db')
           | (Inr u, db') \<Rightarrow> (Inr u, db'))
      | Some md \<Rightarrow>
          (case statement (isbn # metadata_texts md @ [st]) (sql_upsert_metadata now isbn md st) db of
             (Inl e, db') \<Rightarrow> (Inl (Wrap ''save enrichment'' e), db')
           | (Inr u, db') \<Rightarrow> (Inr u, db')))"

text \<open>
  The cover and the flag are written in one transaction: an error before the commit, or a
  refused commit, restores the tables of its beginning.
\<close>

definition rollback :: "database \<Rightarrow> database \<Rightarrow> database" where
  "rollback db0 db = db0\<lparr>conn := conn db\<rparr>"

definition commit :: "database \<Rightarrow> database \<Rightarrow> (go_error + unit) \<times> database" where
  "commit db0 db = statement [] (\<lambda>d. (Inr (), db\<lparr>conn := conn d\<rparr>)) (rollback db0 db)"

definition pg_SaveCover :: "string \<Rightarrow> cover \<Rightarrow> (database, go_error, unit) call" where
  "pg_SaveCover isbn c db =
     (case statement [] (\<lambda>d. (Inr (), d)) db of
        (Inl e, db0) \<Rightarrow> (Inl (Wrap ''begin cover tx'' e), db0)
      | (Inr _, db0) \<Rightarrow>
          (case statement (isbn # cover_texts c) (sql_upsert_cover isbn c) db0 of
             (Inl e, db1) \<Rightarrow> (Inl (Wrap ''save cover'' e), rollback db0 db1)
           | (Inr _, db1) \<Rightarrow>
               (case statement [isbn] (sql_set_has_cover isbn) db1 of
                  (Inl e, db2) \<Rightarrow> (Inl (Wrap ''mark has_cover'' e), rollback db0 db2)
                | (Inr _, db2) \<Rightarrow> commit db0 db2)))"

definition pg_CoverForBook :: "string \<Rightarrow> string \<Rightarrow> (database, go_error, cover) call" where
  "pg_CoverForBook userID bookID db =
     (case statement [bookID, userID] (sql_select_cover bookID userID) db of
        (Inl e, db') \<Rightarrow>
          (Inl (if errors_Is e NoRows then Sentinel BookNotFound else Wrap ''cover for book'' e), db')
      | (Inr c, db') \<Rightarrow>
          (Inr \<lparr>c_ContentType = ccol_content_type c, c_Bytes = ccol_bytes c,
                c_ETag = strDeref (ccol_etag c), c_SourceURL = []\<rparr>, db'))"

definition pg_repo :: "database repository_ops" where
  "pg_repo = \<lparr>PendingEnrichment = pg_PendingEnrichment, EditionStatus = pg_EditionStatus,
     SaveEnrichment = pg_SaveEnrichment, SaveCover = pg_SaveCover,
     Create = pg_Create, Get = pg_Get, ListBooks = pg_List, Update = pg_Update,
     Delete = pg_Delete, EnsureEdition = pg_EnsureEdition,
     MarkEditionPending = pg_MarkEditionPending, CoverForBook = pg_CoverForBook\<rparr>"

section \<open>Abstraction\<close>

definition pg_book_of :: "pg_book \<Rightarrow> book" where
  "pg_book_of r = zero_book\<lparr>ID := col_id r, UserID := col_user_id r, ISBN := col_isbn r,
     Title := col_title r, Author := col_author r, Status := col_status r,
     Rating := col_rating r, Opinion := col_opinion r, Tags := col_tags r,
     CreatedAt := col_created_at r, UpdatedAt := col_updated_at r\<rparr>"

definition pg_edition_of :: "pg_edition \<Rightarrow> edition" where
  "pg_edition_of e = \<lparr>ed_meta = \<lparr>m_Title = strDeref (ecol_title e),
       m_Author = strDeref (ecol_author e), m_Description = strDeref (ecol_description e),
       m_Publisher = strDeref (ecol_publisher e),
       m_PublishedDate = strDeref (ecol_published_date e), m_PageCount = ecol_page_count e\<rparr>,
     ed_status = ecol_enrichment_status e, ed_at = ecol_enriched_at e,
     ed_cover = ecol_has_cover e\<rparr>"

definition pg_cover_of :: "pg_cover \<Rightarrow> cover" where
  "pg_cover_of c = \<lparr>c_ContentType = ccol_content_type c, c_Bytes = ccol_bytes c,
     c_ETag = strDeref (ccol_etag c), c_SourceURL = strDeref (ccol_source_url c)\<rparr>"

definition pg_catalog :: "database \<Rightarrow> catalog" where
  "pg_catalog db = \<lparr>cat_books = (\<lambda>i. map_option pg_book_of (books_tbl db i)),
     cat_editions = (\<lambda>k. map_option pg_edition_of (editions_tbl db k)),
     cat_covers = (\<lambda>k. map_option pg_cover_of (covers_tbl db k))\<rparr>"

definition pg_checked :: "database \<Rightarrow> bool" where
  "pg_checked db \<longleftrightarrow> (\<forall>i r. books_tbl db i = Some r \<longrightarrow> books_isbn_shape (col_isbn r))"

definition pg_valid :: "database \<Rightarrow> bool" where
  "pg_valid db \<longleftrightarrow> wf_catalog (pg_catalog db) \<and> pg_checked db"

definition pg_healthy :: "database \<Rightarrow> bool" where
  "pg_healthy db \<longleftrightarrow> conn db = []"

lemma pg_catalog_simps [simp]:
  "cat_books (pg_catalog db) i = map_option pg_book_of (books_tbl db i)"
  "cat_editions (pg_catalog db) k = map_option pg_edition_of (editions_tbl db k)"
  "cat_covers (pg_catalog db) k = map_option pg_cover_of (covers_tbl db k)"
  "pg_catalog (db\<lparr>conn := rs\<rparr>) = pg_catalog db"
  by (simp_all add: pg_catalog_def)

lemma pg_valid_conn [simp]: "pg_valid (db\<lparr>conn := rs\<rparr>) = pg_valid db"
  by (simp add: pg_valid_def pg_checked_def)

lemma pg_dom_simps [simp]:
  "dom (cat_books (pg_catalog db)) = dom (books_tbl db)"
  "dom (cat_editions (pg_catalog db)) = dom (editions_tbl db)"
  by (auto simp: dom_def)

lemma strDeref_simps [simp]: "strDeref None = []" "strDeref (Some s) = s"
  by (simp_all add: strDeref_def)

lemma pg_book_of_simps [simp]:
  "ID (pg_book_of r) = col_id r" "UserID (pg_book_of r) = col_user_id r"
  "ISBN (pg_book_of r) = col_isbn r" "Title (pg_book_of r) = col_title r"
  "Author (pg_book_of r) = col_author r" "CreatedAt (pg_book_of r) = col_created_at r"
  "bare (pg_book_of r) = pg_book_of r"
  by (simp_all add: pg_book_of_def bare_def zero_book_def)

lemma pg_edition_of_simps [simp]:
  "pg_edition_of (e\<lparr>ecol_enrichment_status := st\<rparr>) = (pg_edition_of e)\<lparr>ed_status := st\<rparr>"
  "pg_edition_of (e\<lparr>ecol_has_cover := h\<rparr>) = (pg_edition_of e)\<lparr>ed_cover := h\<rparr>"
  "ed_status (pg_edition_of e) = ecol_enrichment_status e"
  "ed_cover (pg_edition_of e) = ecol_has_cover e"
  by (simp_all add: pg_edition_of_def)

lemma pg_new_edition: "pg_edition_of (new_edition st) = pending_edition\<lparr>ed_status := st\<rparr>"
  by (simp add: pg_edition_of_def new_edition_def pending_edition_def blank_metadata_def)

lemma pg_owned: "owned (pg_catalog db) u i = map_option pg_book_of (book_row i u db)"
  by (simp add: owned_def book_row_def split: option.split)

lemma books_isbn_shape_nonempty: "books_isbn_shape isbn \<Longrightarrow> isbn \<noteq> []"
  by (auto simp: books_isbn_shape_def Let_def)

lemma scanBook_view:
  assumes "col_isbn r \<noteq> []"
  shows "scanBook (joined db r) = reader_view (pg_catalog db) (pg_book_of r)"
proof (cases "editions_tbl db (col_isbn r)")
  case None
  then show ?thesis using assms
    by (simp add: scanBook_def joined_def reader_view_def edition_of_def applyCanonicalNames_def
        Let_def enrichmentStatusFor_def StatusPending_def pg_book_of_def bare_def zero_book_def)
next
  case (Some e)
  then show ?thesis using assms
    by (simp add: scanBook_def joined_def reader_view_def edition_of_def applyCanonicalNames_def
        Let_def enrichmentStatusFor_def pg_book_of_def bare_def zero_book_def pg_edition_of_def)
qed

section \<open>Statements and the contract\<close>

lemma statement_answers:
  assumes "pg_valid db" and post: "\<And>m. failed (post (Inl (Opaque m)))"
    and stmt: "\<And>d. pg_valid d \<Longrightarrow>
      answers pg_catalog pg_valid d (apfst post (stmt d)) (f (pg_catalog d))"
  shows "answers pg_catalog pg_valid db (apfst post (statement ps stmt db)) (f (pg_catalog db))"
proof (cases "conn db")
  case Nil
  then show ?thesis using assms by (simp add: statement_def bound_def answers_def)
next
  case (Cons r rs)
  have "answers pg_catalog pg_valid db (apfst post (bound ps stmt (db\<lparr>conn := rs\<rparr>))) (f (pg_catalog db))"
    using stmt [of "db\<lparr>conn := rs\<rparr>"] assms(1) post by (simp add: answers_def bound_def)
  then show ?thesis
    using assms(1,2) by (cases r) (auto simp: statement_def Cons answers_def)
qed

lemma pg_answers_kept:
  "map_prod id pg_catalog res = p \<Longrightarrow> wf_catalog (snd p) \<Longrightarrow> pg_checked (snd res) \<Longrightarrow>
   answers pg_catalog pg_valid db res p"
  by (cases res) (auto simp: answers_def pg_valid_def)

lemma pg_answers_failed:
  "pg_valid db \<Longrightarrow> \<not> errors_Is e BookNotFound \<Longrightarrow> answers pg_catalog pg_valid db (Inl e, db) p"
  by (auto simp: answers_def failed_def)

lemma pg_checked_put:
  "pg_checked db \<Longrightarrow> books_isbn_shape (col_isbn r) \<Longrightarrow>
   pg_checked (db\<lparr>books_tbl := (books_tbl db)(i \<mapsto> r)\<rparr>)"
  by (simp add: pg_checked_def)

lemma pg_checked_frame [simp]:
  "pg_checked (db\<lparr>editions_tbl := es\<rparr>) = pg_checked db"
  "pg_checked (db\<lparr>covers_tbl := cs\<rparr>) = pg_checked db"
  "pg_checked (db\<lparr>conn := rs\<rparr>) = pg_checked db"
  by (simp_all add: pg_checked_def)

lemma pg_valid_row: "pg_valid db \<Longrightarrow> books_tbl db i = Some r \<Longrightarrow> col_isbn r \<noteq> [] \<and> col_id r = i"
  using wf_catalogD(1) [of "pg_catalog db" i "pg_book_of r"]
  by (auto simp: pg_valid_def pg_checked_def dest: books_isbn_shape_nonempty)

definition wrapped :: "string \<Rightarrow> ('a \<Rightarrow> 'b) \<Rightarrow> go_error + 'a \<Rightarrow> go_error + 'b" where
  "wrapped m f r = (case r of Inl e \<Rightarrow> Inl (Wrap m e) | Inr x \<Rightarrow> Inr (f x))"

definition not_found_or :: "string \<Rightarrow> ('a \<Rightarrow> 'b) \<Rightarrow> go_error + 'a \<Rightarrow> go_error + 'b" where
  "not_found_or m f r =
     (case r of
        Inl e \<Rightarrow> Inl (if errors_Is e NoRows then Sentinel BookNotFound else Wrap m e)
      | Inr x \<Rightarrow> Inr (f x))"

lemma post_simps [simp]:
  "wrapped m f (Inl e) = Inl (Wrap m e)" "wrapped m f (Inr x) = Inr (f x)"
  "not_found_or m f (Inl (Opaque t)) = Inl (Wrap m (Opaque t))"
  "not_found_or m f (Inl (Sentinel NoRows)) = Inl (Sentinel BookNotFound)"
  "not_found_or m f (Inr x) = Inr (f x)"
  by (simp_all add: wrapped_def not_found_or_def)

lemma failed_wrapped [simp]: "failed (Inl (Wrap m (Opaque t)))"
  by (simp add: failed_def)

definition row_of :: "book \<Rightarrow> pg_book" where
  "row_of b = \<lparr>col_id = ID b, col_user_id = UserID b, col_isbn = ISBN b, col_title = Title b,
     col_author = Author b, col_status = Status b, col_rating = Rating b, col_opinion = Opinion b,
     col_tags = Tags b, col_created_at = CreatedAt b, col_updated_at = UpdatedAt b\<rparr>"

lemma row_of_simps [simp]:
  "col_id (row_of b) = ID b" "col_user_id (row_of b) = UserID b" "col_isbn (row_of b) = ISBN b"
  "col_rating (row_of b) = Rating b" "col_created_at (row_of b) = CreatedAt b"
  by (simp_all add: row_of_def)

lemma pg_book_of_row [simp]: "pg_book_of (row_of b) = bare b"
  by (cases b) (simp add: pg_book_of_def row_of_def bare_def zero_book_def)

lemma pg_Create_alt:
  "pg_Create now i u b db = apfst (wrapped ''insert book'' (\<lambda>_. stamped (truncate_us now) i u b))
     (statement (book_texts (stamped (truncate_us now) i u b))
       (sql_insert_book (row_of (stamped (truncate_us now) i u b))) db)"
  by (simp add: pg_Create_def Let_def row_of_def stamped_def StatusToRead_def wrapped_def apfst_def
      map_prod_def split: prod.split sum.split)

lemma pg_Create_answers:
  assumes "pg_valid db"
  shows "answers pg_catalog pg_valid db (pg_Create now i u b db)
    (spec_create (truncate_us now) i u b (pg_catalog db))"
  unfolding pg_Create_alt
proof (rule statement_answers [OF assms, where f = "spec_create (truncate_us now) i u b"])
  fix d assume v: "pg_valid d"
  let ?b = "stamped (truncate_us now) i u b"
  show "answers pg_catalog pg_valid d (apfst (wrapped ''insert book'' (\<lambda>_. ?b))
      (sql_insert_book (row_of ?b) d)) (spec_create (truncate_us now) i u b (pg_catalog d))"
  proof (cases "int4 (Rating ?b) \<and> books_isbn_shape (ISBN ?b) \<and> books_tbl d (ID ?b) = None")
    case True
    then show ?thesis using v
      by (intro pg_answers_kept)
         (auto simp: sql_insert_book_def spec_create_def Let_def pg_valid_def wf_put_book
          intro!: catalog_eqI pg_checked_put)
  next
    case False
    then show ?thesis by (auto simp: sql_insert_book_def intro!: pg_answers_failed [OF v])
  qed
qed simp

lemma pg_Get_alt:
  "pg_Get u i db = apfst (not_found_or ''get book'' scanBook) (statement [i, u] (sql_select_book i u) db)"
  by (simp add: pg_Get_def not_found_or_def split: prod.split sum.split)

lemma pg_Get_answers:
  assumes "pg_valid db"
  shows "answers pg_catalog pg_valid db (pg_Get u i db) (spec_get u i (pg_catalog db))"
  unfolding pg_Get_alt
proof (rule statement_answers [OF assms, where f = "spec_get u i"])
  fix d assume v: "pg_valid d"
  have "scanBook (joined d r) = reader_view (pg_catalog d) (pg_book_of r)"
    if "books_tbl d i = Some r" for r
    using scanBook_view pg_valid_row [OF v that] by blast
  then show "answers pg_catalog pg_valid d (apfst (not_found_or ''get book'' scanBook)
      (sql_select_book i u d)) (spec_get u i (pg_catalog d))"
    using v
    by (intro pg_answers_kept)
       (auto simp: sql_select_book_def spec_get_def pg_owned pg_valid_def book_row_def
         split: option.split)
qed simp

lemma insort_key_map: "insort_key f (g x) (map g xs) = map g (insort_key (\<lambda>y. f (g y)) x xs)"
  by (induction xs) auto

lemma sort_key_map: "sort_key f (map g xs) = map g (sort_key (\<lambda>y. f (g y)) xs)"
  by (induction xs) (simp_all add: insort_key_map)

lemma pg_List_alt:
  "pg_List ks u db = apfst (wrapped ''list books'' (map scanBook)) (statement [u] (sql_select_books ks u) db)"
  by (simp add: pg_List_def wrapped_def split: prod.split sum.split)

lemma pg_List_answers:
  assumes "pg_valid db"
  shows "answers pg_catalog pg_valid db (pg_List ks u db) (spec_list ks u (pg_catalog db))"
  unfolding pg_List_alt
proof (rule statement_answers [OF assms, where f = "spec_list ks u"])
  fix d assume v: "pg_valid d"
  let ?rows = "filter (\<lambda>r. col_user_id r = u) (entries ks (books_tbl d))"
  have e: "entries ks (cat_books (pg_catalog d)) = map pg_book_of (entries ks (books_tbl d))"
    using entries_map_option [of ks pg_book_of "books_tbl d"]
    by (simp add: entries_def List.map_filter_def comp_def)
  have scan: "scanBook (joined d r) = reader_view (pg_catalog d) (pg_book_of r)"
    if "r \<in> set ?rows" for r
    using that scanBook_view pg_valid_row [OF v] by (auto simp: set_entries)
  have "map (\<lambda>r. scanBook (joined d r)) (sort_key col_created_at ?rows)
      = map (\<lambda>r. reader_view (pg_catalog d) (pg_book_of r)) (sort_key col_created_at ?rows)"
    using scan by simp
  then have "apfst (wrapped ''list books'' (map scanBook)) (sql_select_books ks u d)
      = (fst (spec_list ks u (pg_catalog d)), d)"
    by (simp add: sql_select_books_def spec_list_def e filter_map comp_def sort_key_map)
  then show "answers pg_catalog pg_valid d (apfst (wrapped ''list books'' (map scanBook))
      (sql_select_books ks u d)) (spec_list ks u (pg_catalog d))"
    using v by (auto simp: answers_def)
qed simp

lemma pg_Update_alt:
  "pg_Update now u b db =
     (let b1 = b\<lparr>UserID := u, UpdatedAt := truncate_us now\<rparr>
      in apfst (not_found_or ''update book'' (\<lambda>t. b1\<lparr>CreatedAt := t\<rparr>))
           (statement (book_texts b1) (sql_update_book (row_of b1)) db))"
  by (simp add: pg_Update_def row_of_def Let_def not_found_or_def split: prod.split sum.split)

lemma pg_Update_answers:
  assumes "pg_valid db"
  shows "answers pg_catalog pg_valid db (pg_Update now u b db)
    (spec_update (truncate_us now) u b (pg_catalog db))"
  unfolding pg_Update_alt Let_def
proof (rule statement_answers [OF assms, where f = "spec_update (truncate_us now) u b"])
  fix d assume v: "pg_valid d"
  let ?b = "b\<lparr>UserID := u, UpdatedAt := truncate_us now\<rparr>"
  let ?post = "not_found_or ''update book'' (\<lambda>t. ?b\<lparr>CreatedAt := t\<rparr>)"
  show "answers pg_catalog pg_valid d (apfst ?post (sql_update_book (row_of ?b) d))
      (spec_update (truncate_us now) u b (pg_catalog d))"
  proof (cases "int4 (Rating b)")
    case False
    then show ?thesis by (auto simp: sql_update_book_def intro!: pg_answers_failed [OF v])
  next
    case True
    show ?thesis
    proof (cases "book_row (ID b) u d")
      case None
      then show ?thesis using True v
        by (intro pg_answers_kept)
           (simp_all add: sql_update_book_def spec_update_def pg_owned pg_valid_def)
    next
      case (Some r)
      then have r: "books_tbl d (ID b) = Some r" "col_user_id r = u"
        by (auto simp: book_row_def split: option.splits if_splits)
      then have id: "col_id r = ID b" using pg_valid_row [OF v] by blast
      show ?thesis
      proof (cases "books_isbn_shape (ISBN b)")
        case False
        then show ?thesis using Some True
          by (auto simp: sql_update_book_def intro!: pg_answers_failed [OF v])
      next
        case shape: True
        show ?thesis using Some True shape v r id
          by (intro pg_answers_kept)
             (auto simp: sql_update_book_def spec_update_def pg_owned pg_valid_def Let_def
                wf_put_book row_of_def pg_book_of_def bare_def zero_book_def
              intro!: catalog_eqI pg_checked_put)
      qed
    qed
  qed
qed simp

lemma pg_Delete_alt:
  "pg_Delete u i db = apfst (\<lambda>r. case r of
       Inl e \<Rightarrow> Inl (Wrap ''delete book'' e)
     | Inr n \<Rightarrow> if n = 0 then Inl (Sentinel BookNotFound) else Inr ())
     (statement [i, u] (sql_delete_book i u) db)"
  by (simp add: pg_Delete_def split: prod.split sum.split)

lemma pg_Delete_answers:
  assumes "pg_valid db"
  shows "answers pg_catalog pg_valid db (pg_Delete u i db) (spec_delete u i (pg_catalog db))"
  unfolding pg_Delete_alt
proof (rule statement_answers [OF assms, where f = "spec_delete u i"])
  fix d assume v: "pg_valid d"
  have wf: "wf_catalog (snd (spec_delete u i (pg_catalog d)))"
    using v by (simp add: pg_valid_def wf_spec_delete)
  show "answers pg_catalog pg_valid d (apfst (\<lambda>r. case r of
       Inl e \<Rightarrow> Inl (Wrap ''delete book'' e)
     | Inr n \<Rightarrow> if n = 0 then Inl (Sentinel BookNotFound) else Inr ())
     (sql_delete_book i u d)) (spec_delete u i (pg_catalog d))"
    by (rule pg_answers_kept [OF _ wf])
       (use v in \<open>auto simp: sql_delete_book_def spec_delete_def pg_owned pg_valid_def pg_checked_def
          split: option.split intro!: catalog_eqI\<close>)
qed simp

lemma pg_checked_same: "books_tbl d = books_tbl d' \<Longrightarrow> pg_checked d = pg_checked d'"
  by (simp add: pg_checked_def)

lemma pg_edition_or_new:
  "pg_edition_of (case editions_tbl d k of None \<Rightarrow> new_edition st
      | Some e \<Rightarrow> e\<lparr>ecol_enrichment_status := st\<rparr>)
    = (edition_or_new k (pg_catalog d))\<lparr>ed_status := st\<rparr>"
  by (simp add: edition_or_new_def pg_new_edition split: option.split)

lemma pg_EnsureEdition_answers:
  assumes "pg_valid db"
  shows "answers pg_catalog pg_valid db (pg_EnsureEdition k db) (spec_ensure k (pg_catalog db))"
proof -
  have alt: "pg_EnsureEdition k db
      = apfst (wrapped ''ensure edition'' id) (statement [k] (sql_ensure_edition k) db)"
    by (simp add: pg_EnsureEdition_def wrapped_def split: prod.split sum.split)
  show ?thesis unfolding alt
  proof (rule statement_answers [OF assms, where f = "spec_ensure k"])
    fix d assume v: "pg_valid d"
    then have "wf_catalog (snd (spec_ensure k (pg_catalog d)))"
      by (simp add: pg_valid_def wf_spec_ensure)
    then show "answers pg_catalog pg_valid d
        (apfst (wrapped ''ensure edition'' id) (sql_ensure_edition k d)) (spec_ensure k (pg_catalog d))"
      using v by (intro pg_answers_kept)
        (auto simp: sql_ensure_edition_def spec_ensure_def pg_valid_def pg_new_edition
            StatusPending_def pending_edition_def split: option.split intro!: catalog_eqI)
  qed simp
qed

lemma sql_upsert_status_answers:
  assumes "pg_valid d"
  shows "answers pg_catalog pg_valid d (apfst (wrapped m id) (sql_upsert_status k st d))
    (spec_save_enrichment now k None st (pg_catalog d))"
proof -
  have "wf_catalog (snd (spec_save_enrichment now k None st (pg_catalog d)))"
    using assms by (simp add: pg_valid_def wf_spec_save_enrichment)
  then show ?thesis using assms
    by (intro pg_answers_kept)
      (auto simp: sql_upsert_status_def spec_save_enrichment_def Let_def pg_valid_def
          pg_edition_or_new intro!: catalog_eqI)
qed

lemma pg_MarkEditionPending_answers:
  assumes "pg_valid db"
  shows "answers pg_catalog pg_valid db (pg_MarkEditionPending k db)
    (spec_mark_pending k (pg_catalog db))"
proof -
  have alt: "pg_MarkEditionPending k db
      = apfst (wrapped ''mark edition pending'' id) (statement [k] (sql_upsert_status k ''pending'') db)"
    by (simp add: pg_MarkEditionPending_def wrapped_def split: prod.split sum.split)
  have spec: "spec_mark_pending k = spec_save_enrichment 0 k None ''pending''"
    by (auto simp: fun_eq_iff spec_mark_pending_def spec_save_enrichment_def StatusPending_def Let_def)
  show ?thesis unfolding alt spec
    by (rule statement_answers [OF assms, where f = "spec_save_enrichment 0 k None ''pending''"])
       (simp_all add: sql_upsert_status_answers)
qed

lemma pg_SaveEnrichment_answers:
  assumes "pg_valid db"
  shows "answers pg_catalog pg_valid db (pg_SaveEnrichment now k m st db)
    (spec_save_enrichment (truncate_us now) k m st (pg_catalog db))"
proof (cases m)
  case None
  have alt: "pg_SaveEnrichment now k None st db
      = apfst (wrapped ''save enrichment status'' id) (statement [k, st] (sql_upsert_status k st) db)"
    by (simp add: pg_SaveEnrichment_def wrapped_def split: prod.split sum.split)
  show ?thesis unfolding None alt
    by (rule statement_answers [OF assms,
          where f = "spec_save_enrichment (truncate_us now) k None st"])
       (simp_all add: sql_upsert_status_answers)
next
  case (Some md)
  have alt: "pg_SaveEnrichment now k (Some md) st db
      = apfst (wrapped ''save enrichment'' id) (statement (k # metadata_texts md @ [st]) (sql_upsert_metadata now k md st) db)"
    by (simp add: pg_SaveEnrichment_def wrapped_def split: prod.split sum.split)
  show ?thesis unfolding Some alt
  proof (rule statement_answers [OF assms,
        where f = "spec_save_enrichment (truncate_us now) k (Some md) st"])
    fix d assume v: "pg_valid d"
    show "answers pg_catalog pg_valid d
        (apfst (wrapped ''save enrichment'' id) (sql_upsert_metadata now k md st d))
        (spec_save_enrichment (truncate_us now) k (Some md) st (pg_catalog d))"
    proof (cases "int4 (m_PageCount md)")
      case False
      then show ?thesis
        by (auto simp: sql_upsert_metadata_def intro!: pg_answers_failed [OF v])
    next
      case True
      have "wf_catalog (snd (spec_save_enrichment (truncate_us now) k (Some md) st (pg_catalog d)))"
        using v by (simp add: pg_valid_def wf_spec_save_enrichment)
      then show ?thesis using True v
        by (intro pg_answers_kept)
           (auto simp: sql_upsert_metadata_def spec_save_enrichment_def Let_def pg_valid_def
              pg_edition_of_def edition_or_new_def pending_edition_def new_edition_def
              blank_metadata_def split: option.split intro!: catalog_eqI)
    qed
  qed simp
qed

lemma pg_EditionStatus_answers:
  assumes "pg_valid db"
  shows "answers pg_catalog pg_valid db (pg_EditionStatus k db)
    (spec_edition_status k (pg_catalog db))"
proof -
  define post :: "go_error + status \<Rightarrow> go_error + status \<times> bool" where
    "post r = (case r of
        Inl e \<Rightarrow> if errors_Is e NoRows then Inr ([], False) else Inl (Wrap ''edition status'' e)
      | Inr st \<Rightarrow> Inr (st, True))" for r
  have alt: "pg_EditionStatus k db = apfst post (statement [k] (sql_select_status k) db)"
    by (simp add: pg_EditionStatus_def post_def split: prod.split sum.split)
  show ?thesis unfolding alt
  proof (rule statement_answers [OF assms, where f = "spec_edition_status k"])
    fix d assume v: "pg_valid d"
    then show "answers pg_catalog pg_valid d (apfst post (sql_select_status k d))
        (spec_edition_status k (pg_catalog d))"
      by (auto simp: answers_def sql_select_status_def spec_edition_status_def post_def
          split: option.split)
  qed (simp add: post_def)
qed

lemma pg_CoverForBook_answers:
  assumes "pg_valid db"
  shows "answers pg_catalog pg_valid db (map_prod (map_sum id served) id (pg_CoverForBook u i db))
    (spec_cover u i (pg_catalog db), pg_catalog db)"
proof -
  let ?cover = "\<lambda>c. (ccol_content_type c, ccol_bytes c, strDeref (ccol_etag c))"
  have alt: "map_prod (map_sum id served) id (pg_CoverForBook u i db)
      = apfst (not_found_or ''cover for book'' ?cover) (statement [i, u] (sql_select_cover i u) db)"
    by (simp add: pg_CoverForBook_def not_found_or_def served_def split: prod.split sum.split)
  show ?thesis unfolding alt
  proof (rule statement_answers [OF assms, where f = "\<lambda>c. (spec_cover u i c, c)"])
    fix d assume v: "pg_valid d"
    then show "answers pg_catalog pg_valid d
        (apfst (not_found_or ''cover for book'' ?cover) (sql_select_cover i u d))
        (spec_cover u i (pg_catalog d), pg_catalog d)"
      by (auto simp: answers_def sql_select_cover_def spec_cover_def pg_owned served_def
          pg_cover_of_def split: option.split)
  qed simp
qed

section \<open>The cover transaction\<close>

lemma statement_cases:
  obtains (ran) rs where "statement ps stmt db = stmt (db\<lparr>conn := rs\<rparr>)"
    | (refused) rs m where "statement ps stmt db = (Inl (Opaque m), db\<lparr>conn := rs\<rparr>)"
    | (lost) rs m where "statement ps stmt db = (Inl (Opaque m), snd (stmt (db\<lparr>conn := rs\<rparr>)))"
proof (cases "conn db")
  case Nil
  have same: "db\<lparr>conn := []\<rparr> = db" using Nil by (cases db) simp
  have "statement ps stmt db = bound ps stmt (db\<lparr>conn := []\<rparr>)"
    unfolding same using Nil by (simp add: statement_def)
  then show thesis using ran refused by (auto simp: bound_def split: if_splits)
next
  case (Cons r rs)
  then show thesis
    by (cases r; cases "list_all pg_text ps")
       (auto simp: statement_def bound_def intro: ran refused lost)
qed

text \<open>Two databases with the same tables.\<close>

definition same_tables :: "database \<Rightarrow> database \<Rightarrow> bool" where
  "same_tables d d' \<longleftrightarrow> books_tbl d = books_tbl d' \<and> editions_tbl d = editions_tbl d'
     \<and> covers_tbl d = covers_tbl d'"

lemma same_tables_refl [simp]: "same_tables (d\<lparr>conn := rs\<rparr>) d" "same_tables (rollback d d') d"
  by (auto simp: same_tables_def rollback_def)

lemma same_tables_trans: "same_tables d d' \<Longrightarrow> same_tables d' d'' \<Longrightarrow> same_tables d d''"
  by (auto simp: same_tables_def)

lemma same_tables_rollback: "same_tables d d' \<Longrightarrow> same_tables (rollback d x) d'"
  by (auto simp: same_tables_def rollback_def)

lemma same_tables_facts:
  assumes "same_tables d d'"
  shows "pg_catalog d = pg_catalog d'" "pg_valid d = pg_valid d'" "pg_checked d = pg_checked d'"
    "editions_tbl d = editions_tbl d'" "covers_tbl d = covers_tbl d'"
  using assms by (auto simp: same_tables_def pg_catalog_def pg_valid_def pg_checked_def)

definition covered :: "string \<Rightarrow> cover \<Rightarrow> database \<Rightarrow> database" where
  "covered k cv d = snd (sql_set_has_cover k (snd (sql_upsert_cover k cv d)))"

lemma statement_upsert_cover:
  assumes "statement ps (sql_upsert_cover k cv) d = (r, d')"
  shows "(\<exists>m. r = Inl (Opaque m))
    \<or> r = Inr () \<and> editions_tbl d k \<noteq> None \<and> same_tables d' (snd (sql_upsert_cover k cv d))"
  using statement_cases [of ps "sql_upsert_cover k cv" d]
  by cases (use assms in \<open>auto simp: sql_upsert_cover_def same_tables_def split: if_splits\<close>)

lemma statement_set_has_cover:
  assumes "statement ps (sql_set_has_cover k) d = (r, d')" "same_tables d d0"
  shows "(\<exists>m. r = Inl (Opaque m)) \<or> r = Inr () \<and> same_tables d' (snd (sql_set_has_cover k d0))"
  using statement_cases [of ps "sql_set_has_cover k" d]
  by cases (use assms in \<open>auto simp: sql_set_has_cover_def same_tables_def split: option.splits\<close>)

lemma statement_begin:
  assumes "statement ps (\<lambda>d. (Inr (), d)) d = (r, d')"
  shows "same_tables d' d \<and> (r = Inr () \<or> (\<exists>m. r = Inl (Opaque m)))"
  using statement_cases [of ps "\<lambda>d. (Inr (), d)" d] by cases (use assms in auto)

lemma commit_outcome:
  assumes "commit d0 d = (r, d')"
  shows "r = Inr () \<and> same_tables d' d
    \<or> (\<exists>m. r = Inl (Opaque m)) \<and> (same_tables d' d0 \<or> same_tables d' d)"
  using statement_cases [of "[]" "\<lambda>x. (Inr (), d\<lparr>conn := conn x\<rparr>)" "rollback d0 d"]
  by cases (use assms in \<open>auto simp: commit_def rollback_def same_tables_def\<close>)

text \<open>
  The transaction is atomic: it ends in an error, with the tables as they were or (a lost
  reply to the commit) all written, or it succeeds with all written.
\<close>

lemma pg_SaveCover_outcome:
  assumes "pg_SaveCover k cv db = (r, db')"
  shows "(\<exists>e. r = Inl e \<and> \<not> errors_Is e BookNotFound) \<and> same_tables db' db
    \<or> editions_tbl db k \<noteq> None \<and> same_tables db' (covered k cv db)
        \<and> (r = Inr () \<or> (\<exists>m. r = Inl (Opaque m)))"
proof -
  obtain r0 d0 where s0: "statement [] (\<lambda>d. (Inr (), d)) db = (r0, d0)" by fastforce
  note b = statement_begin [OF s0]
  show ?thesis
  proof (cases "r0 = Inr ()")
    case False
    then obtain m where m: "r0 = Inl (Opaque m)" using b by blast
    have "r = Inl (Wrap ''begin cover tx'' (Opaque m)) \<and> db' = d0"
      using assms by (simp add: pg_SaveCover_def s0 m)
    then show ?thesis using b by simp
  next
    case r0: True
    obtain r1 d1 where s1: "statement (k # cover_texts cv) (sql_upsert_cover k cv) d0 = (r1, d1)" by fastforce
    note u = statement_upsert_cover [OF s1]
    show ?thesis
    proof (cases "r1 = Inr ()")
      case False
      then obtain m where m: "r1 = Inl (Opaque m)" using u by blast
      have "r = Inl (Wrap ''save cover'' (Opaque m)) \<and> db' = rollback d0 d1"
        using assms by (simp add: pg_SaveCover_def s0 r0 s1 m)
      moreover have "same_tables (rollback d0 d1) db" using b by (simp add: same_tables_rollback)
      ultimately show ?thesis by simp
    next
      case r1: True
      then have u': "editions_tbl d0 k \<noteq> None" "same_tables d1 (snd (sql_upsert_cover k cv d0))"
        using u by auto
      have ed: "editions_tbl db k \<noteq> None" using u'(1) b by (auto simp: same_tables_def)
      obtain r2 d2 where s2: "statement [k] (sql_set_has_cover k) d1 = (r2, d2)" by fastforce
      note h = statement_set_has_cover [OF s2 u'(2)]
      show ?thesis
      proof (cases "r2 = Inr ()")
        case False
        then obtain m where m: "r2 = Inl (Opaque m)" using h by blast
        have "r = Inl (Wrap ''mark has_cover'' (Opaque m)) \<and> db' = rollback d0 d2"
          using assms by (simp add: pg_SaveCover_def s0 r0 s1 r1 s2 m)
        moreover have "same_tables (rollback d0 d2) db" using b by (simp add: same_tables_rollback)
        ultimately show ?thesis by simp
      next
        case r2: True
        have c: "same_tables d2 (covered k cv d0)" using h r2 by (auto simp: covered_def)
        have "same_tables (covered k cv d0) (covered k cv db)"
          using b ed by (auto simp: same_tables_def covered_def sql_upsert_cover_def
              sql_set_has_cover_def split: option.splits)
        with c have c: "same_tables d2 (covered k cv db)" by (rule same_tables_trans)
        have "commit d0 d2 = (r, db')"
          using assms s0 r0 s1 r1 s2 r2 by (simp add: pg_SaveCover_def)
        then show ?thesis using commit_outcome ed c b
          by (metis errors_Is.simps(2) same_tables_trans)
      qed
    qed
  qed
qed

lemma covered_catalog:
  assumes "editions_tbl db k \<noteq> None"
  shows "pg_catalog (covered k cv db) = snd (spec_save_cover k cv (pg_catalog db))"
    and "pg_checked (covered k cv db) = pg_checked db"
  using assms
  by (auto simp: covered_def sql_upsert_cover_def sql_set_has_cover_def spec_save_cover_def
      pg_cover_of_def pg_checked_def intro!: catalog_eqI)

lemma pg_SaveCover_answers:
  assumes "pg_valid db"
  shows "answers pg_catalog pg_valid db (pg_SaveCover k cv db) (spec_save_cover k cv (pg_catalog db))"
proof -
  obtain r db' where s: "pg_SaveCover k cv db = (r, db')" by fastforce
  have fst_spec: "fst (spec_save_cover k cv c) = Inr ()" for c by (simp add: spec_save_cover_def)
  consider e where "r = Inl e" "\<not> errors_Is e BookNotFound" "same_tables db' db"
    | "editions_tbl db k \<noteq> None" "same_tables db' (covered k cv db)"
        "r = Inr () \<or> (\<exists>m. r = Inl (Opaque m))"
    using pg_SaveCover_outcome [OF s] by blast
  then show ?thesis
  proof cases
    case 1
    then show ?thesis using assms s same_tables_facts by (auto simp: answers_def failed_def)
  next
    case 2
    then have c: "pg_catalog db' = snd (spec_save_cover k cv (pg_catalog db))"
      using same_tables_facts(1) covered_catalog(1) by metis
    moreover have "pg_valid db'"
      using 2 assms c same_tables_facts(3) covered_catalog(2) wf_spec_save_cover
      by (metis pg_valid_def)
    ultimately show ?thesis using 2(3) s by (auto simp: answers_def failed_def fst_spec)
  qed
qed

section \<open>Sweeps, health and the interpretation\<close>

definition pg_unfinished :: "database \<Rightarrow> string \<Rightarrow> bool" where
  "pg_unfinished db k = (case editions_tbl db k of None \<Rightarrow> False
     | Some e \<Rightarrow> ecol_enrichment_status e \<in> {''pending'', ''failed''})"

lemma pg_unfinished: "pg_unfinished db k \<longleftrightarrow> unfinished (pg_catalog db) k"
  by (auto simp: pg_unfinished_def unfinished_def StatusPending_def StatusFailed_def split: option.split)

lemma sql_pending_alt:
  "0 < limit \<Longrightarrow> sql_pending ks limit d = (Inr (take (nat limit) (sort (filter (pg_unfinished d) ks))), d)"
  unfolding sql_pending_def pg_unfinished_def [symmetric] by simp

lemma sql_pending_sweep:
  assumes "enumerates ks (cat_editions (pg_catalog d))"
  shows "sweep_of limit (pg_catalog d) (take (nat limit) (sort (filter (pg_unfinished d) ks)))"
proof (rule sweep_prefix)
  have "k \<in> set ks" if "unfinished (pg_catalog d) k" for k
    using that enumerates_dom [OF assms] by (auto simp: unfinished_def)
  then show "set (sort (filter (pg_unfinished d) ks)) = Collect (unfinished (pg_catalog d))"
    by (auto simp: pg_unfinished)
qed (use assms in \<open>simp add: enumerates_def\<close>)

lemma pg_PendingEnrichment_answers:
  assumes "pg_valid db" "enumerates ks (cat_editions (pg_catalog db))" "0 < limit"
  shows "\<exists>xs. answers pg_catalog pg_valid db (pg_PendingEnrichment ks limit db) (Inr xs, pg_catalog db)
    \<and> sweep_of limit (pg_catalog db) xs"
proof -
  let ?xs = "take (nat limit) (sort (filter (pg_unfinished db) ks))"
  have alt: "pg_PendingEnrichment ks limit db
      = apfst (wrapped ''list pending editions'' id) (statement [] (sql_pending ks limit) db)"
    by (simp add: pg_PendingEnrichment_def wrapped_def split: prod.split sum.split)
  have "answers pg_catalog pg_valid db (pg_PendingEnrichment ks limit db)
      ((\<lambda>c. (Inr (take (nat limit) (sort (filter (unfinished c) ks))), c)) (pg_catalog db))"
    unfolding alt
  proof (rule statement_answers [OF assms(1)])
    fix d assume "pg_valid d"
    moreover have "pg_unfinished d = unfinished (pg_catalog d)"
      by (simp add: fun_eq_iff pg_unfinished)
    ultimately show "answers pg_catalog pg_valid d
        (apfst (wrapped ''list pending editions'' id) (sql_pending ks limit d))
        (Inr (take (nat limit) (sort (filter (unfinished (pg_catalog d)) ks))), pg_catalog d)"
      using assms(3) by (simp add: sql_pending_alt answers_def)
  qed simp
  moreover have "unfinished (pg_catalog db) = pg_unfinished db"
    by (simp add: fun_eq_iff pg_unfinished)
  ultimately show ?thesis using sql_pending_sweep [OF assms(2), of limit] by auto
qed

text \<open>On a healthy connection a statement is its effect.\<close>

lemma statement_healthy:
  "pg_healthy db \<Longrightarrow> list_all pg_text ps \<Longrightarrow> statement ps stmt db = stmt db"
  by (simp add: statement_def pg_healthy_def bound_def)

lemma pg_text_ascii: "ascii t \<Longrightarrow> CHR 0x00 \<notin> set t \<Longrightarrow> pg_text t"
  by (simp add: pg_text_def runes_ascii encode_runes_ascii)

lemma books_isbn_shape_canonical:
  assumes "isbnShape isbn"
  shows "books_isbn_shape isbn"
proof -
  have "c \<notin> set ''- ''" if "c \<in> set isbn" for c
    using isbn_char [OF assms that] by (auto simp: is_digit_byte)
  then have "filter (\<lambda>c. c \<notin> set ''- '') isbn = isbn" by (simp add: filter_id_conv)
  then show ?thesis using assms by (auto simp: books_isbn_shape_def isbnShape_def Let_def)
qed

lemma pg_healthy_frame [simp]:
  "pg_healthy (db\<lparr>books_tbl := bs\<rparr>) = pg_healthy db"
  "pg_healthy (db\<lparr>editions_tbl := es\<rparr>) = pg_healthy db"
  "pg_healthy (db\<lparr>covers_tbl := cs\<rparr>) = pg_healthy db"
  by (simp_all add: pg_healthy_def)

lemma pg_healthy_reads:
  assumes "pg_healthy db"
  shows "pg_text u \<Longrightarrow> pg_text i \<Longrightarrow> delivers pg_healthy (pg_Get u i db)"
    "pg_text u \<Longrightarrow> delivers pg_healthy (pg_List ks u db)"
    "pg_text k \<Longrightarrow> delivers pg_healthy (pg_EditionStatus k db)"
    "pg_text u \<Longrightarrow> pg_text i \<Longrightarrow> delivers pg_healthy (pg_CoverForBook u i db)"
  using assms
  by (auto simp: delivers_def pg_Get_def pg_List_def pg_EditionStatus_def pg_CoverForBook_def
      statement_healthy sql_select_book_def sql_select_books_def sql_select_status_def
      sql_select_cover_def split: option.split)

lemma pg_healthy_writes:
  assumes "pg_healthy db"
  shows "pg_text u \<Longrightarrow> pg_text i \<Longrightarrow> delivers pg_healthy (pg_Delete u i db)"
    "pg_text k \<Longrightarrow> delivers pg_healthy (pg_EnsureEdition k db)"
    "pg_text k \<Longrightarrow> delivers pg_healthy (pg_MarkEditionPending k db)"
    "pg_text k \<Longrightarrow> pg_text st \<Longrightarrow>
      \<forall>md. m = Some md \<longrightarrow> int4 (m_PageCount md) \<and> list_all pg_text (metadata_texts md) \<Longrightarrow>
      delivers pg_healthy (pg_SaveEnrichment now k m st db)"
  using assms
  by (auto simp: delivers_def pg_Delete_def pg_EnsureEdition_def pg_MarkEditionPending_def
      pg_SaveEnrichment_def statement_healthy sql_delete_book_def sql_ensure_edition_def
      sql_upsert_status_def sql_upsert_metadata_def split: option.split)

lemma pg_healthy_SaveCover:
  assumes "pg_healthy db" "editions_tbl db k \<noteq> None" "pg_text k" "list_all pg_text (cover_texts cv)"
  shows "delivers pg_healthy (pg_SaveCover k cv db)"
proof -
  have "pg_SaveCover k cv db = (Inr (), covered k cv db)"
    using assms by (auto simp: pg_SaveCover_def statement_def bound_def pg_healthy_def commit_def rollback_def
        covered_def sql_upsert_cover_def sql_set_has_cover_def)
  moreover have "pg_healthy (covered k cv db)"
    using assms by (auto simp: covered_def sql_upsert_cover_def sql_set_has_cover_def)
  ultimately show ?thesis by (simp add: delivers_def)
qed

lemma pg_healthy_Create:
  assumes "pg_healthy db" "books_tbl db i = None" "isbnShape (ISBN b)" "int4 (Rating b)"
    "list_all pg_text (book_texts (stamped 0 i u b))"
  shows "delivers pg_healthy (pg_Create now i u b db)"
proof -
  have "book_texts (stamped (truncate_us now) i u b) = book_texts (stamped 0 i u b)"
    by (simp add: book_texts_def stamped_def)
  then show ?thesis
    using assms books_isbn_shape_canonical [OF assms(3)]
    by (simp add: delivers_def pg_Create_alt statement_healthy sql_insert_book_def)
       (simp add: stamped_def)
qed

lemma pg_healthy_Update:
  assumes "pg_healthy db" "pg_valid db" "int4 (Rating b)" "list_all pg_text (book_texts (b\<lparr>UserID := u\<rparr>))"
    "isbnShape (ISBN b) \<or> (\<exists>old. cat_books (pg_catalog db) (ID b) = Some old \<and> ISBN old = ISBN b)"
  shows "delivers pg_healthy (pg_Update now u b db)"
proof -
  have "books_isbn_shape (ISBN b)"
    using assms(5)
  proof
    assume "\<exists>old. cat_books (pg_catalog db) (ID b) = Some old \<and> ISBN old = ISBN b"
    then obtain r where "books_tbl db (ID b) = Some r" "col_isbn r = ISBN b" by auto
    then show ?thesis using assms(2) by (metis pg_valid_def pg_checked_def)
  qed (rule books_isbn_shape_canonical)
  moreover have "book_texts (b\<lparr>UserID := u, UpdatedAt := truncate_us now\<rparr>) = book_texts (b\<lparr>UserID := u\<rparr>)"
    by (simp add: book_texts_def)
  ultimately show ?thesis using assms(1,3,4)
    by (auto simp: delivers_def pg_Update_alt Let_def statement_healthy sql_update_book_def
        split: option.split)
qed

lemma pg_repo_simps [simp]:
  "PendingEnrichment pg_repo = pg_PendingEnrichment" "EditionStatus pg_repo = pg_EditionStatus"
  "SaveEnrichment pg_repo = pg_SaveEnrichment" "SaveCover pg_repo = pg_SaveCover"
  "Create pg_repo = pg_Create" "Get pg_repo = pg_Get" "ListBooks pg_repo = pg_List"
  "Update pg_repo = pg_Update" "Delete pg_repo = pg_Delete"
  "EnsureEdition pg_repo = pg_EnsureEdition"
  "MarkEditionPending pg_repo = pg_MarkEditionPending" "CoverForBook pg_repo = pg_CoverForBook"
  by (simp_all add: pg_repo_def)

interpretation pg: repository pg_repo pg_catalog pg_valid pg_healthy pg_text truncate_us
proof (unfold_locales, unfold pg_repo_simps)
  show "pg_valid s \<Longrightarrow> wf_catalog (pg_catalog s)" for s by (simp add: pg_valid_def)
qed (simp_all add: pg_text_ascii pg_PendingEnrichment_answers pg_EditionStatus_answers pg_SaveEnrichment_answers
    pg_SaveCover_answers pg_Create_answers pg_Get_answers pg_List_answers pg_Update_answers
    pg_Delete_answers pg_EnsureEdition_answers pg_MarkEditionPending_answers
    pg_CoverForBook_answers pg_healthy_reads pg_healthy_writes pg_healthy_SaveCover
    pg_healthy_Create pg_healthy_Update)

end
