(* ===== verification/Book_Service.thy ===== *)
theory Book_Service
  imports Service_Spec Memory_Store Postgres_Store
begin

text \<open>
  The book API on the two stores: the outcomes of its operations, and the properties of the
  whole request path, from the identity in the context to the tables.
\<close>

section \<open>Outcomes on a healthy store\<close>

context repository
begin

lemma create_outcome:
  assumes "valid (db sv)" "ok (db sv)" "requireUser ctx = Inr u"
    "canonicalISBN (case_tables rt) (w_ISBN w) = Inr isbn"
    "acceptable accepts rt u (cat (db sv)) (CreateBook w)"
  obtains sv' where
    "handle R enq ks rt ctx (CreateBook w) sv =
      (Inr (RBook (setCoverURL (reader_view (cat (db sv')) (posted (stamp (clock rt)) rt u isbn w)))), sv')"
    "cat (db sv') = ensured isbn (put_book (posted (stamp (clock rt)) rt u isbn w) (cat (db sv)))"
    "queue sv' = enq isbn (queue sv)" "valid (db sv')" "ok (db sv')"
proof -
  let ?rt = "rt\<lparr>clock := stamp (clock rt)\<rparr>"
  obtain r sv' where h: "h_create R enq rt ctx w sv = (r, sv')" by fastforce
  have i: "isbnFromInput ?rt (w_ISBN w) = Inr isbn" using assms(4) by (simp add: isbnFromInput_def)
  have "h_create spec_repo enq ?rt ctx w (abs_server cat sv) = (r, abs_server cat sv')"
      "valid (db sv')" "ok (db sv')"
    using h_create_refines [OF assms(1-3,5) h] by simp_all
  then show thesis
    using spec_create_outcome [OF assms(3) i, of enq "abs_server cat sv"] h
    by (intro that [of sv']) (auto simp: handle_def Let_def abs_server_def posted_def)
qed

lemma update_outcome:
  assumes "valid (db sv)" "ok (db sv)" "requireUser ctx = Inr u"
    "owned (cat (db sv)) u i = Some b" "canonical_patch rt p = Inr p'"
    "acceptable accepts rt u (cat (db sv)) (UpdateBook i p)"
  obtains sv' where
    "handle R enq ks rt ctx (UpdateBook i p) sv =
      (Inr (RBook (setCoverURL (reader_view (cat (db sv')) (patched (stamp (clock rt)) p' (cat (db sv)) b)))), sv')"
    "cat (db sv') = (let b' = patched (stamp (clock rt)) p' (cat (db sv)) b; c = put_book b' (cat (db sv))
       in if ISBN b' \<noteq> ISBN b then ensured (ISBN b') c else c)"
    "queue sv' = (let b' = patched (stamp (clock rt)) p' (cat (db sv)) b
       in if ISBN b' \<noteq> ISBN b then enq (ISBN b') (queue sv) else queue sv)"
    "valid (db sv')" "ok (db sv')"
proof -
  let ?rt = "rt\<lparr>clock := stamp (clock rt)\<rparr>"
  obtain r sv' where h: "h_update R enq rt ctx i p sv = (r, sv')" by fastforce
  have p: "canonical_patch ?rt p = Inr p'"
    using assms(5) by (simp add: canonical_patch_def isbnFromInput_def split: option.splits)
  have own: "owned (db (abs_server cat sv)) u i = Some b" using assms(4) by simp
  have id: "ID b = i" using owned_SomeD [OF assms(4)] wf_catalogD(1) [OF valid_wf [OF assms(1)]] by blast
  have "h_update spec_repo enq ?rt ctx i p (abs_server cat sv) = (r, abs_server cat sv')"
      "valid (db sv')" "ok (db sv')"
    using h_update_refines [OF assms(1-3,6) h] by simp_all
  then show thesis
    using spec_update_outcome [OF assms(3) own id p, of enq] h
    by (intro that [of sv']) (simp_all add: handle_def Let_def abs_server_def)
qed

lemma get_outcome:
  assumes "valid (db sv)" "ok (db sv)" "requireUser ctx = Inr u" "accepts u" "accepts i"
  obtains sv' where
    "handle R enq ks rt ctx (GetBook i) sv =
      (case owned (cat (db sv)) u i of
         None \<Rightarrow> Inl (error_404 ''book not found'')
       | Some b \<Rightarrow> Inr (RBook (setCoverURL (reader_view (cat (db sv)) b))), sv')"
    "cat (db sv') = cat (db sv)" "queue sv' = queue sv" "valid (db sv')" "ok (db sv')"
proof -
  obtain r sv' where h: "h_get R ctx i sv = (r, sv')" by fastforce
  have "h_get spec_repo ctx i (abs_server cat sv) = (r, abs_server cat sv')" "valid (db sv')" "ok (db sv')"
    using h_get_refines [OF assms h] by simp_all
  then show thesis
    using spec_get_outcome [OF assms(3), of i "abs_server cat sv"] h
    by (intro that [of sv'])
       (auto simp: handle_def abs_server_def split: option.split)
qed

lemma cover_outcome:
  assumes "valid (db sv)" "ok (db sv)" "requireUser ctx = Inr u" "accepts u" "accepts i"
  obtains sv' where
    "handle R enq ks rt ctx (GetCover i) sv =
      (case owned (cat (db sv)) u i of
         None \<Rightarrow> Inl (error_404 ''cover not found'')
       | Some b \<Rightarrow> (case cat_covers (cat (db sv)) (ISBN b) of
           None \<Rightarrow> Inl (error_404 ''cover not found'') | Some cv \<Rightarrow> Inr (RCover (cover_reply cv))), sv')"
    "cat (db sv') = cat (db sv)" "queue sv' = queue sv" "valid (db sv')" "ok (db sv')"
proof -
  obtain r sv' where h: "h_cover R ctx i sv = (r, sv')" by fastforce
  have "h_cover spec_repo ctx i (abs_server cat sv) = (r, abs_server cat sv')" "valid (db sv')" "ok (db sv')"
    using h_cover_refines [OF assms h] by simp_all
  then show thesis
    using spec_cover_outcome [OF assms(3), of i "abs_server cat sv"] h
    by (intro that [of sv'])
       (auto simp: handle_def abs_server_def split: option.split)
qed

lemma delete_outcome:
  assumes "valid (db sv)" "ok (db sv)" "requireUser ctx = Inr u" "accepts u" "accepts i"
  obtains sv' where
    "fst (handle R enq ks rt ctx (DeleteBook i) sv) =
      (if owned (cat (db sv)) u i = None then Inl (error_404 ''book not found'') else Inr RNoContent)"
    "snd (handle R enq ks rt ctx (DeleteBook i) sv) = sv'"
    "cat (db sv') = (if owned (cat (db sv)) u i = None then cat (db sv)
       else (cat (db sv))\<lparr>cat_books := (cat_books (cat (db sv)))(i := None)\<rparr>)"
    "queue sv' = queue sv" "valid (db sv')" "ok (db sv')"
proof -
  obtain r sv' where h: "h_delete R ctx i sv = (r, sv')" by fastforce
  have "h_delete spec_repo ctx i (abs_server cat sv) = (r, abs_server cat sv')" "valid (db sv')" "ok (db sv')"
    using h_delete_refines [OF assms h] by simp_all
  then show thesis
    using spec_delete_outcome [OF assms(3), of i "abs_server cat sv"] h
    by (intro that [of sv'])
       (auto simp: handle_def abs_server_def split: option.splits)
qed

lemma refresh_outcome:
  assumes "valid (db sv)" "ok (db sv)" "requireUser ctx = Inr u"
    "acceptable accepts rt u (cat (db sv)) (RefreshBook i)"
    "owned (cat (db sv)) u i = Some b" "ISBN b \<noteq> []"
  obtains sv' where
    "handle R enq ks rt ctx (RefreshBook i) sv =
      (Inr (RRefresh \<lparr>out_Status = ''queued'', out_ISBN = ISBN b\<rparr>), sv')"
    "cat (db sv') = snd (spec_mark_pending (ISBN b) (cat (db sv)))"
    "queue sv' = enq (ISBN b) (queue sv)" "valid (db sv')" "ok (db sv')"
proof -
  obtain r sv' where h: "h_refresh R enq ctx i sv = (r, sv')" by fastforce
  have "h_refresh spec_repo enq ctx i (abs_server cat sv) = (r, abs_server cat sv')"
      "valid (db sv')" "ok (db sv')"
    using h_refresh_refines [OF assms(1-4) h] by simp_all
  then show thesis
    using spec_refresh_outcome [OF assms(3), of enq i "abs_server cat sv"] h assms(5,6)
    by (intro that [of sv']) (auto simp: handle_def abs_server_def)
qed

text \<open>A request is confined on every backend; two states a user cannot tell apart.\<close>

lemma request_is_confined:
  assumes "valid (db sv)" "requireUser ctx = Inr u" "enumerates ks (cat_books (cat (db sv)))"
    "\<And>w. req = CreateBook w \<Longrightarrow> cat_books (cat (db sv)) (mint rt) = None"
  shows "valid (db (snd (handle R enq ks rt ctx req sv)))
    \<and> request_confined rt u req (cat (db sv)) (cat (db (snd (handle R enq ks rt ctx req sv))))
    \<and> shows_own u (fst (handle R enq ks rt ctx req sv))"
proof -
  obtain r sv' where h: "handle R enq ks rt ctx req sv = (r, sv')" by fastforce
  show ?thesis using handle_safe [OF assms(1-3) _ h] assms(4) unfolding h by auto
qed

lemma request_refines:
  assumes "valid (db sv)" "ok (db sv)" "requireUser ctx = Inr u"
    "acceptable accepts rt u (cat (db sv)) req" "enumerates ks (cat_books (cat (db sv)))"
  shows "handle spec_repo enq ks (rt\<lparr>clock := stamp (clock rt)\<rparr>) ctx req (abs_server cat sv)
      = map_prod id (abs_server cat) (handle R enq ks rt ctx req sv)"
    and "valid (db (snd (handle R enq ks rt ctx req sv)))" "ok (db (snd (handle R enq ks rt ctx req sv)))"
proof -
  obtain r sv' where h: "handle R enq ks rt ctx req sv = (r, sv')" by fastforce
  show "handle spec_repo enq ks (rt\<lparr>clock := stamp (clock rt)\<rparr>) ctx req (abs_server cat sv)
      = map_prod id (abs_server cat) (handle R enq ks rt ctx req sv)"
    "valid (db (snd (handle R enq ks rt ctx req sv)))" "ok (db (snd (handle R enq ks rt ctx req sv)))"
    using handle_refines [OF assms h] unfolding h by simp_all
qed

lemma indistinguishable:
  assumes "valid (db s)" "ok (db s)" "valid (db t)" "ok (db t)" "requireUser ctx = Inr u"
    "acceptable accepts rt u (cat (db s)) req" "acceptable accepts rt u (cat (db t)) req"
    "enumerates ks (cat_books (cat (db s)))" "enumerates ks' (cat_books (cat (db t)))"
    "same_for u (cat (db s)) (cat (db t))" "same_order u (cat (db s)) (cat (db t)) ks ks'"
    "queue s = queue t"
  shows "fst (handle R enq ks rt ctx req s) = fst (handle R enq ks' rt ctx req t)
    \<and> queue (snd (handle R enq ks rt ctx req s)) = queue (snd (handle R enq ks' rt ctx req t))
    \<and> same_for u (cat (db (snd (handle R enq ks rt ctx req s))))
        (cat (db (snd (handle R enq ks' rt ctx req t))))"
proof -
  let ?rt = "rt\<lparr>clock := stamp (clock rt)\<rparr>"
  have "alike u (handle spec_repo enq ks ?rt ctx req (abs_server cat s))
      (handle spec_repo enq ks' ?rt ctx req (abs_server cat t))"
    using assms by (intro alike_handle) simp_all
  then show ?thesis
    unfolding request_refines(1) [OF assms(1,2,5,6,8)] request_refines(1) [OF assms(3,4,5,7,9)]
    by (simp add: alike_def)
qed

text \<open>A stored book announces a cover exactly when the cover endpoint serves it.\<close>

lemma cover_announced:
  assumes "valid (db sv)" "ok (db sv)" "requireUser ctx = Inr u" "accepts u" "accepts i"
    "owned (cat (db sv)) u i = Some b" "ISBN b \<noteq> []"
  shows "(\<exists>x. fst (handle R enq ks rt ctx (GetBook i) sv) = Inr (RBook x) \<and> CoverURL x \<noteq> [])
    \<longleftrightarrow> (\<exists>x. fst (handle R enq ks rt ctx (GetCover i) sv) = Inr (RCover x))"
proof -
  have wf: "wf_catalog (cat (db sv))" by (rule valid_wf [OF assms(1)])
  have g: "fst (handle R enq ks rt ctx (GetBook i) sv)
      = Inr (RBook (setCoverURL (reader_view (cat (db sv)) b)))"
    by (rule get_outcome [OF assms(1-5), of enq ks rt]) (simp add: assms(6))
  have c: "fst (handle R enq ks rt ctx (GetCover i) sv)
      = (case cat_covers (cat (db sv)) (ISBN b) of
           None \<Rightarrow> Inl (error_404 ''cover not found'') | Some cv \<Rightarrow> Inr (RCover (cover_reply cv)))"
    by (rule cover_outcome [OF assms(1-5), of enq ks rt]) (simp add: assms(6))
  show ?thesis
    using reader_view_cover [OF wf assms(7)]
    by (auto simp: g c setCoverURL_def split: option.split)
qed

end

section \<open>A concrete request\<close>

text \<open>
  An empty database as the migrations leave it, and the data of a request, for the concrete
  instances of the properties.
\<close>

definition migrated :: database where
  "migrated = \<lparr>books_tbl = Map.empty, editions_tbl = Map.empty, covers_tbl = Map.empty, conn = []\<rparr>"

definition ann :: request_context where
  "ann = Some \<lparr>Subject = ''ann'', Username = ''ann'', Groups = []\<rparr>"

definition bob :: request_context where
  "bob = Some \<lparr>Subject = ''bob'', Username = ''bob'', Groups = []\<rparr>"

definition noon :: runtime where
  "noon = \<lparr>clock = 5000, mint = ''b1'', case_tables = plain_unicode\<rparr>"

definition scan :: book_write where
  "scan = \<lparr>w_ISBN = ''9782070368224'', w_Title = [], w_Author = [], w_Status = [], w_Rating = 0,
     w_Opinion = [], w_Tags = []\<rparr>"

definition to_queue :: "string \<Rightarrow> string list \<Rightarrow> string list" where
  "to_queue k q = q @ [k]"

lemma migrated_ok [simp]:
  "pg_valid migrated" "pg_healthy migrated" "pg_catalog migrated = empty_catalog"
  by (simp_all add: pg_valid_def pg_checked_def migrated_def pg_catalog_def empty_catalog_def
      pg_healthy_def wf_catalog_def)

lemma new_store_ok [simp]: "mem_valid NewMemoryStore" "mem_catalog NewMemoryStore = empty_catalog"
  by (simp_all add: mem_valid_def mem_catalog_def NewMemoryStore_def empty_catalog_def wf_catalog_def)

lemma users [simp]: "requireUser ann = Inr ''ann''" "requireUser bob = Inr ''bob''"
  by (simp_all add: requireUser_def ann_def bob_def FromContext_def)

lemma plain_texts [simp]: "pg_text ''ann''" "pg_text ''bob''" "pg_text ''b1''" "pg_text []"
  by (simp_all add: pg_text_ascii)

lemma empty_books [simp]: "cat_books empty_catalog i = None" "enumerates [] (cat_books empty_catalog)"
  "owned empty_catalog u i = None" "cat_editions empty_catalog = Map.empty"
  "cat_covers empty_catalog = Map.empty"
  by (auto simp: empty_catalog_def owned_def)

lemma noon_simps [simp]: "mint noon = ''b1''" "clock noon = 5000"
  by (simp_all add: noon_def)

lemma scan_acceptable [simp]: "int4 (w_Rating scan)"
  "list_all pg_text (book_texts ((toBook scan)\<lparr>ID := ''b1'', UserID := ''ann'', ISBN := []\<rparr>))"
  by (simp_all add: scan_def int4_def book_texts_def toBook_def zero_book_def)

lemma scan_isbn [simp]: "canonicalISBN (case_tables noon) (w_ISBN scan) = Inr ''9782070368224''"
  by (simp add: scan_def canonical_fixed isbnShape_def is_digit_byte)

section \<open>Properties\<close>

text \<open>
  Without an identity in the context, or with an empty subject, every request is
  answered 401 and neither the store nor the queue is touched.
\<close>
theorem unauthenticated_request:
  assumes "\<not> snd (FromContext ctx) \<or> Subject (fst (FromContext ctx)) = []"
  shows "handle R enq ks rt ctx req sv = (Inl (ApiError 401 ''unauthenticated''), sv)"
proof -
  have "requireUser ctx = Inl error_401"
    using assms by (auto simp: requireUser_def split: prod.split)
  then show ?thesis
    by (cases req) (simp_all add: handle_def h_create_def h_list_def h_get_def h_update_def
        h_delete_def h_cover_def h_refresh_def)
qed

theorem unauthenticated_request_witness:
  "handle mem_repo to_queue [] noon None (CreateBook scan) \<lparr>db = NewMemoryStore, queue = []\<rparr>
    = (Inl (ApiError 401 ''unauthenticated''), \<lparr>db = NewMemoryStore, queue = []\<rparr>)"
  by (rule unauthenticated_request) (simp add: FromContext_def)

text \<open>
  C1: on Postgres, whatever statements fail and whatever replies are lost, a request of a
  user keeps the invariants of the tables, stores no new ISBN that is not canonical, and
  shows no book of another user. It leaves every book but its target, the books of every
  other user and all covers as they were: a create may add the book it mints, an update or a
  delete may change the user's book it names. Of the editions all users share, a create or an
  update that brings a new ISBN may add the pending edition of that ISBN if there is none, a
  refresh may set the status of the edition of the user's own book back to pending, which
  the other owners of that ISBN see, with its metadata and cover kept, and nothing else
  changes: listing, reading, deleting and serving a cover touch no edition.
\<close>
theorem pg_request_confined:
  assumes "pg_valid (db sv)" "requireUser ctx = Inr u" "enumerates ks (cat_books (pg_catalog (db sv)))"
    and "\<And>w. req = CreateBook w \<Longrightarrow> cat_books (pg_catalog (db sv)) (mint rt) = None"
  shows "pg_valid (db (snd (handle pg_repo enq ks rt ctx req sv)))
    \<and> request_confined rt u req (pg_catalog (db sv)) (pg_catalog (db (snd (handle pg_repo enq ks rt ctx req sv))))
    \<and> shows_own u (fst (handle pg_repo enq ks rt ctx req sv))"
  using assms by (rule pg.request_is_confined)

theorem pg_request_confined_witness:
  "let sv = \<lparr>db = migrated\<lparr>conn := [Answered, ReplyLost ''timeout'']\<rparr>, queue = []\<rparr>
   in pg_valid (db (snd (handle pg_repo to_queue [] noon ann (CreateBook scan) sv)))
    \<and> request_confined noon ''ann'' (CreateBook scan) (pg_catalog (db sv))
        (pg_catalog (db (snd (handle pg_repo to_queue [] noon ann (CreateBook scan) sv))))
    \<and> shows_own ''ann'' (fst (handle pg_repo to_queue [] noon ann (CreateBook scan) sv))"
  unfolding Let_def
  by (rule pg_request_confined) simp_all

text \<open>
  The same on the in-memory store, where no call fails.
\<close>
lemma mem_request_confined:
  assumes "mem_valid (db sv)" "requireUser ctx = Inr u" "enumerates ks (cat_books (mem_catalog (db sv)))"
    and "\<And>w. req = CreateBook w \<Longrightarrow> cat_books (mem_catalog (db sv)) (mint rt) = None"
  shows "mem_valid (db (snd (handle mem_repo enq ks rt ctx req sv)))
    \<and> request_confined rt u req (mem_catalog (db sv)) (mem_catalog (db (snd (handle mem_repo enq ks rt ctx req sv))))
    \<and> shows_own u (fst (handle mem_repo enq ks rt ctx req sv))"
  using assms by (rule mem.request_is_confined)

text \<open>
  C2: a user cannot observe the others. If two databases agree on the user's books, on the
  editions and on the covers, the same request gets the same answer on both, queues the same
  work, and leaves two databases that still agree: a book of another user is answered like a
  book that does not exist.
\<close>
theorem pg_indistinguishable:
  assumes "pg_valid (db s)" "pg_healthy (db s)" "pg_valid (db t)" "pg_healthy (db t)"
    and "requireUser ctx = Inr u"
    and "acceptable pg_text rt u (pg_catalog (db s)) req" "acceptable pg_text rt u (pg_catalog (db t)) req"
    and "enumerates ks (cat_books (pg_catalog (db s)))" "enumerates ks' (cat_books (pg_catalog (db t)))"
    and "same_for u (pg_catalog (db s)) (pg_catalog (db t))"
    and "same_order u (pg_catalog (db s)) (pg_catalog (db t)) ks ks'" "queue s = queue t"
  shows "fst (handle pg_repo enq ks rt ctx req s) = fst (handle pg_repo enq ks' rt ctx req t)
    \<and> queue (snd (handle pg_repo enq ks rt ctx req s)) = queue (snd (handle pg_repo enq ks' rt ctx req t))
    \<and> same_for u (pg_catalog (db (snd (handle pg_repo enq ks rt ctx req s))))
        (pg_catalog (db (snd (handle pg_repo enq ks' rt ctx req t))))"
  using assms by (rule pg.indistinguishable)

definition bobs_row :: pg_book where
  "bobs_row = \<lparr>col_id = ''b7'', col_user_id = ''bob'', col_isbn = ''9782070368224'', col_title = ''T'',
     col_author = ''A'', col_status = ''read'', col_rating = 4, col_opinion = [], col_tags = [],
     col_created_at = 1000, col_updated_at = 1000\<rparr>"

definition bobs_db :: database where
  "bobs_db = migrated\<lparr>books_tbl := [''b7'' \<mapsto> bobs_row]\<rparr>"

lemma bobs_db_ok [simp]: "pg_valid bobs_db" "pg_healthy bobs_db"
  "cat_books (pg_catalog bobs_db) = [''b7'' \<mapsto> pg_book_of bobs_row]"
  "cat_editions (pg_catalog bobs_db) = Map.empty" "cat_covers (pg_catalog bobs_db) = Map.empty"
proof -
  show "cat_books (pg_catalog bobs_db) = [''b7'' \<mapsto> pg_book_of bobs_row]"
    "cat_editions (pg_catalog bobs_db) = Map.empty" "cat_covers (pg_catalog bobs_db) = Map.empty"
    by (auto simp: bobs_db_def migrated_def pg_catalog_def fun_eq_iff)
  have "books_isbn_shape ''9782070368224''"
    by (rule books_isbn_shape_canonical) (simp add: isbnShape_def is_digit_byte)
  then show "pg_valid bobs_db" "pg_healthy bobs_db"
    by (auto simp: pg_valid_def wf_catalog_def pg_checked_def bobs_db_def migrated_def pg_healthy_def
        bobs_row_def pg_book_of_def bare_def zero_book_def split: if_splits)
qed

lemma bobs_owner: "owned (pg_catalog bobs_db) ''ann'' i = None"
  by (simp add: owned_def bobs_row_def)

theorem pg_indistinguishable_witness:
  "fst (handle pg_repo to_queue [] noon ann (GetBook ''b7'') \<lparr>db = migrated, queue = []\<rparr>)
   = fst (handle pg_repo to_queue [''b7''] noon ann (GetBook ''b7'') \<lparr>db = bobs_db, queue = []\<rparr>)"
proof (rule pg_indistinguishable [THEN conjunct1])
  show "requireUser ann = Inr ''ann''" by simp
  show "enumerates [''b7''] (cat_books (pg_catalog (db \<lparr>db = bobs_db, queue = []\<rparr>)))"
    by (rule enumeratesI) simp_all
qed (simp_all add: same_for_def same_order_def bobs_owner pg_text_ascii)

text \<open>
  C13: on a healthy Postgres store the service is the abstract service: every acceptable
  request is answered, and changes the catalogue and the queue, exactly as the handlers run
  on the catalogue specification do, with the clock at the precision of a column.
\<close>
theorem pg_service_refines:
  assumes "pg_valid (db sv)" "pg_healthy (db sv)" "requireUser ctx = Inr u"
    and "acceptable pg_text rt u (pg_catalog (db sv)) req" "enumerates ks (cat_books (pg_catalog (db sv)))"
  shows "handle spec_repo enq ks (rt\<lparr>clock := truncate_us (clock rt)\<rparr>) ctx req (abs_server pg_catalog sv)
      = map_prod id (abs_server pg_catalog) (handle pg_repo enq ks rt ctx req sv)"
  using assms by (rule pg.request_refines(1))

theorem pg_service_refines_witness:
  "handle spec_repo to_queue [] (noon\<lparr>clock := truncate_us 5000\<rparr>) ann (CreateBook scan)
      (abs_server pg_catalog \<lparr>db = migrated, queue = []\<rparr>)
    = map_prod id (abs_server pg_catalog)
        (handle pg_repo to_queue [] noon ann (CreateBook scan) \<lparr>db = migrated, queue = []\<rparr>)"
  using pg_service_refines [of "\<lparr>db = migrated, queue = []\<rparr>" ann "''ann''" noon "CreateBook scan" "[]" to_queue]
  by simp

lemma acceptable_weaken:
  assumes "\<And>t. A t \<Longrightarrow> B t" "acceptable A rt u c req"
  shows "acceptable B rt u c req"
proof -
  have "list_all A xs \<Longrightarrow> list_all B xs" for xs using assms(1) by (auto simp: list_all_iff)
  then show ?thesis
    using assms by (cases req) (auto simp: Let_def split: option.splits sum.splits)
qed

text \<open>What a store can serve does not depend on the clock.\<close>

lemma acceptable_clock [simp]: "acceptable A (rt\<lparr>clock := t\<rparr>) u c req = acceptable A rt u c req"
proof -
  have isbn [simp]: "isbnFromInput (rt\<lparr>clock := t\<rparr>) raw = isbnFromInput rt raw" for raw
    by (simp add: isbnFromInput_def)
  have "canonical_patch (rt\<lparr>clock := t\<rparr>) p = canonical_patch rt p" for p
    by (simp add: canonical_patch_def split: option.split)
  then show ?thesis by (cases req) (simp_all split: option.split)
qed

text \<open>
  C6: the two stores are interchangeable up to the precision of the clock. Take an in-memory
  server and a healthy Postgres server that hold the same catalogue and the same queue, and an
  acceptable request: Postgres answers at any instant what the in-memory server answers at that
  instant cut to whole microseconds, as a timestamp column cuts it, and both end with the same
  catalogue and the same queue.
\<close>
theorem stores_agree:
  assumes "mem_valid (db s)" "pg_valid (db t)" "pg_healthy (db t)" "requireUser ctx = Inr u"
    and "mem_catalog (db s) = pg_catalog (db t)" "queue s = queue t"
    and "acceptable pg_text rt u (pg_catalog (db t)) req" "enumerates ks (cat_books (pg_catalog (db t)))"
  shows "map_prod id (abs_server mem_catalog)
      (handle mem_repo enq ks (rt\<lparr>clock := truncate_us (clock rt)\<rparr>) ctx req s)
    = map_prod id (abs_server pg_catalog) (handle pg_repo enq ks rt ctx req t)"
proof -
  let ?rt = "rt\<lparr>clock := truncate_us (clock rt)\<rparr>"
  have same: "abs_server mem_catalog s = abs_server pg_catalog t"
    using assms(5,6) by (simp add: abs_server_def)
  have "acceptable (\<lambda>_. True) ?rt u (mem_catalog (db s)) req"
    using assms(5,7) by (auto intro: acceptable_weaken [of pg_text])
  then have "handle spec_repo enq ks ?rt ctx req (abs_server mem_catalog s)
      = map_prod id (abs_server mem_catalog) (handle mem_repo enq ks ?rt ctx req s)"
    using mem.request_refines(1) [OF assms(1) TrueI assms(4), of ?rt req ks enq] assms(5,8) by simp
  then show ?thesis
    using pg.request_refines(1) [OF assms(2-4,7,8), of enq] unfolding same by simp
qed

text \<open>At an instant with a nanosecond part.\<close>

theorem stores_agree_witness:
  "map_prod id (abs_server mem_catalog)
      (handle mem_repo to_queue [] (noon\<lparr>clock := 1700000000123456000\<rparr>) ann (CreateBook scan)
        \<lparr>db = NewMemoryStore, queue = []\<rparr>)
    = map_prod id (abs_server pg_catalog)
      (handle pg_repo to_queue [] (noon\<lparr>clock := 1700000000123456789\<rparr>) ann (CreateBook scan)
        \<lparr>db = migrated, queue = []\<rparr>)"
  using stores_agree [where s = "\<lparr>db = NewMemoryStore, queue = []\<rparr>" and t = "\<lparr>db = migrated, queue = []\<rparr>"
      and rt = "noon\<lparr>clock := 1700000000123456789\<rparr>" and req = "CreateBook scan" and ctx = ann
      and u = "''ann''" and ks = "[]" and enq = to_queue]
  by (simp add: truncate_us_def)

text \<open>
  C14: POST on a healthy Postgres store. The new book has the minted identifier, the user
  as its owner and the canonical ISBN; an edition of the ISBN exists afterwards (a known one
  is kept as it is); the ISBN is queued; the response is the book as a reader of the new
  catalogue sees it.
\<close>
theorem pg_create:
  assumes "pg_valid (db sv)" "pg_healthy (db sv)" "requireUser ctx = Inr u"
    and "canonicalISBN (case_tables rt) (w_ISBN w) = Inr isbn"
    and "acceptable pg_text rt u (pg_catalog (db sv)) (CreateBook w)"
  shows "\<exists>sv'. handle pg_repo enq ks rt ctx (CreateBook w) sv =
      (Inr (RBook (setCoverURL (reader_view (pg_catalog (db sv'))
         (posted (truncate_us (clock rt)) rt u isbn w)))), sv')
    \<and> pg_catalog (db sv')
        = ensured isbn (put_book (posted (truncate_us (clock rt)) rt u isbn w) (pg_catalog (db sv)))
    \<and> queue sv' = enq isbn (queue sv)"
  by (rule pg.create_outcome [OF assms, of enq ks]) blast

theorem pg_create_witness:
  "\<exists>sv'. handle pg_repo to_queue [] noon ann (CreateBook scan) \<lparr>db = migrated, queue = []\<rparr> =
      (Inr (RBook (setCoverURL (reader_view (pg_catalog (db sv'))
         (posted 5000 noon ''ann'' ''9782070368224'' scan)))), sv')
    \<and> queue sv' = [''9782070368224'']"
  using pg_create [of "\<lparr>db = migrated, queue = []\<rparr>" ann "''ann''" noon scan "''9782070368224''" to_queue "[]"]
  by (auto simp: to_queue_def truncate_us_def)

text \<open>
  C15: what POST answered is what GET answers to the owner, and every other user gets 404.
\<close>
theorem pg_create_then_get:
  assumes "pg_valid (db sv)" "pg_healthy (db sv)" "requireUser ctx = Inr u"
    and "canonicalISBN (case_tables rt) (w_ISBN w) = Inr isbn"
    and "acceptable pg_text rt u (pg_catalog (db sv)) (CreateBook w)"
    and "requireUser ctx' = Inr v" "v \<noteq> u" "pg_text v"
  shows "case handle pg_repo enq ks rt ctx (CreateBook w) sv of (r, sv') \<Rightarrow>
      fst (handle pg_repo enq ks rt ctx (GetBook (mint rt)) sv') = r
      \<and> fst (handle pg_repo enq ks rt ctx' (GetBook (mint rt)) sv') = Inl (ApiError 404 ''book not found'')
      \<and> (\<exists>b. r = Inr (RBook b) \<and> ID b = mint rt \<and> UserID b = u \<and> ISBN b = isbn)"
proof -
  let ?b = "posted (truncate_us (clock rt)) rt u isbn w"
  obtain sv' where h: "handle pg_repo enq ks rt ctx (CreateBook w) sv =
        (Inr (RBook (setCoverURL (reader_view (pg_catalog (db sv')) ?b))), sv')"
      "pg_catalog (db sv') = ensured isbn (put_book ?b (pg_catalog (db sv)))"
      "pg_valid (db sv')" "pg_healthy (db sv')"
    by (rule pg.create_outcome [OF assms(1-5), of enq ks])
  have own: "owned (pg_catalog (db sv')) x (mint rt) = (if x = u then Some ?b else None)" for x
    unfolding h(2) by (simp add: owned_def)
  have texts: "pg_text u" "pg_text (mint rt)" using assms(5) by (simp_all add: book_texts_def)
  have "fst (handle pg_repo enq ks rt ctx (GetBook (mint rt)) sv')
      = Inr (RBook (setCoverURL (reader_view (pg_catalog (db sv')) ?b)))"
    by (rule pg.get_outcome [OF h(3,4) assms(3) texts, of enq ks rt]) (simp add: own)
  moreover have "fst (handle pg_repo enq ks rt ctx' (GetBook (mint rt)) sv')
      = Inl (ApiError 404 ''book not found'')"
    by (rule pg.get_outcome [OF h(3,4) assms(6,8) texts(2), of enq ks rt]) (simp add: own assms(7))
  ultimately show ?thesis by (simp add: h(1) setCoverURL_def)
qed

theorem pg_create_then_get_witness:
  "case handle pg_repo to_queue [] noon ann (CreateBook scan) \<lparr>db = migrated, queue = []\<rparr> of (r, sv') \<Rightarrow>
      fst (handle pg_repo to_queue [] noon bob (GetBook ''b1'') sv') = Inl (ApiError 404 ''book not found'')"
  using pg_create_then_get [of "\<lparr>db = migrated, queue = []\<rparr>" ann "''ann''" noon scan
      "''9782070368224''" bob "''bob''" to_queue "[]"]
  by (simp add: case_prod_beta)

text \<open>
  POST with an ISBN the parser refuses is answered 422 by every store, and neither the
  store nor the queue is touched: no ghost is ever stored.
\<close>
theorem create_rejects_bad_isbn:
  assumes "requireUser ctx = Inr u" "canonicalISBN (case_tables rt) (w_ISBN w) = Inl e"
  shows "handle R enq ks rt ctx (CreateBook w) sv
    = (Inl (ApiError 422 ''isbn must be 10 or 13 characters once separators are removed''), sv)"
  using assms by (simp add: handle_def h_create_def isbnFromInput_def ErrInvalidISBN_text_def)

theorem create_rejects_bad_isbn_witness:
  "fst (handle mem_repo to_queue [] noon ann (CreateBook (scan\<lparr>w_ISBN := ''12345''\<rparr>))
      \<lparr>db = NewMemoryStore, queue = []\<rparr>)
    = Inl (ApiError 422 ''isbn must be 10 or 13 characters once separators are removed'')"
proof -
  have "\<not> isbnShape ''12345''" using isbnShape_length by fastforce
  moreover have reading: "isbn_reading (case_tables noon) ''12345'' = map byte ''12345''"
    by (simp add: isbn_reading_def isbn_separator_def upper_rune_def)
  have "encode_runes (map byte ''12345'') = ''12345''" by (rule encode_runes_ascii) simp
  then have "canonicalISBN (case_tables noon) ''12345''
      = (if isbnShape ''12345'' then Inr ''12345'' else Inl (Sentinel InvalidISBN))"
    unfolding canonicalISBN_alt reading by (simp only: Let_def)
  ultimately show ?thesis
    by (subst create_rejects_bad_isbn [where u = "''ann''" and e = "Sentinel InvalidISBN"]) simp_all
qed

text \<open>A patch of the rating, one of the ISBN, and a memory store with a book that has no title.\<close>

definition no_patch :: book_patch where
  "no_patch = \<lparr>p_ISBN = None, p_Title = None, p_Author = None, p_Status = None, p_Rating = None,
     p_Opinion = None, p_Tags = None\<rparr>"

definition named_store :: memory_store where
  "named_store = \<lparr>mem_books = [''b1'' \<mapsto> posted 5000 noon ''ann'' ''9782070368224'' scan],
     mem_editions = [''9782070368224'' \<mapsto> zero_mem_edition\<lparr>e_Title := ''La Taupe'', e_Status := StatusEnriched\<rparr>],
     mem_covers = Map.empty\<rparr>"

lemma named_store_ok [simp]: "mem_valid named_store"
  "owned (mem_catalog named_store) ''ann'' ''b1'' = Some (posted 5000 noon ''ann'' ''9782070368224'' scan)"
  by (auto simp: mem_valid_def wf_catalog_def named_store_def owned_def mem_edition_of_def
      zero_mem_edition_def split: if_splits) (simp add: posted_def stamped_def toBook_def zero_book_def)

lemma named_store_facts [simp]: "w_Title scan = []" "p_Title (no_patch\<lparr>p_ISBN := k\<rparr>) = None"
  "mem_editions named_store ''9782070368224''
    = Some (zero_mem_edition\<lparr>e_Title := ''La Taupe'', e_Status := StatusEnriched\<rparr>)"
  by (simp_all add: scan_def no_patch_def named_store_def)

lemma bob_owns [simp]: "owned (pg_catalog bobs_db) ''bob'' ''b7'' = Some (pg_book_of bobs_row)"
  by (simp add: owned_def bobs_row_def)

lemma rating_patch_ok [simp]:
  "canonical_patch noon (no_patch\<lparr>p_Rating := Some 5\<rparr>) = Inr (no_patch\<lparr>p_Rating := Some 5\<rparr>)"
  "acceptable pg_text noon ''bob'' (pg_catalog bobs_db) (UpdateBook ''b7'' (no_patch\<lparr>p_Rating := Some 5\<rparr>))"
proof -
  show c: "canonical_patch noon (no_patch\<lparr>p_Rating := Some 5\<rparr>) = Inr (no_patch\<lparr>p_Rating := Some 5\<rparr>)"
    by (simp add: canonical_patch_def no_patch_def)
  have view: "reader_view (pg_catalog bobs_db) (pg_book_of bobs_row)
      = (pg_book_of bobs_row)\<lparr>EnrichmentStatus := ''pending''\<rparr>"
    by (simp add: reader_view_def edition_of_def bobs_row_def)
  show "acceptable pg_text noon ''bob'' (pg_catalog bobs_db) (UpdateBook ''b7'' (no_patch\<lparr>p_Rating := Some 5\<rparr>))"
    unfolding acceptable.simps bob_owns option.simps c sum.simps view Let_def
    by (simp add: int4_def book_texts_def applyTo_def no_patch_def pg_text_ascii
        bobs_row_def pg_book_of_def zero_book_def)
qed

text \<open>
  C16: PATCH on a healthy Postgres store. The merged book is stored under its identifier with
  its creation time kept; the new ISBN is the old one or canonical, and exactly when it
  changed an edition of it is ensured and the ISBN is queued; the response is the book as a
  reader of the new catalogue sees it.
\<close>
theorem pg_patch:
  assumes "pg_valid (db sv)" "pg_healthy (db sv)" "requireUser ctx = Inr u"
    and "owned (pg_catalog (db sv)) u i = Some b" "canonical_patch rt p = Inr p'"
    and "acceptable pg_text rt u (pg_catalog (db sv)) (UpdateBook i p)"
  shows "\<exists>sv' b'. b' = patched (truncate_us (clock rt)) p' (pg_catalog (db sv)) b
    \<and> handle pg_repo enq ks rt ctx (UpdateBook i p) sv
        = (Inr (RBook (setCoverURL (reader_view (pg_catalog (db sv')) b'))), sv')
    \<and> ID b' = i \<and> CreatedAt b' = CreatedAt b \<and> (ISBN b' = ISBN b \<or> isbnShape (ISBN b'))
    \<and> pg_catalog (db sv') = (if ISBN b' \<noteq> ISBN b
        then ensured (ISBN b') (put_book b' (pg_catalog (db sv))) else put_book b' (pg_catalog (db sv)))
    \<and> queue sv' = (if ISBN b' \<noteq> ISBN b then enq (ISBN b') (queue sv) else queue sv)"
proof -
  let ?b = "patched (truncate_us (clock rt)) p' (pg_catalog (db sv)) b"
  have "ID b = i"
    using owned_SomeD [OF assms(4)] wf_catalogD(1) [OF pg.valid_wf [OF assms(1)]] by blast
  then have own: "ID ?b = i" "CreatedAt ?b = CreatedAt b" "ISBN ?b = ISBN b \<or> isbnShape (ISBN ?b)"
    using applyTo_ISBN [OF assms(5), of "reader_view (pg_catalog (db sv)) b"] by (simp_all add: patched_def)
  show ?thesis
  proof (rule pg.update_outcome [OF assms, of enq ks])
    fix sv'
    assume "handle pg_repo enq ks rt ctx (UpdateBook i p) sv
        = (Inr (RBook (setCoverURL (reader_view (pg_catalog (db sv')) ?b))), sv')"
      "pg_catalog (db sv') = (let b' = ?b; c = put_book b' (pg_catalog (db sv))
         in if ISBN b' \<noteq> ISBN b then ensured (ISBN b') c else c)"
      "queue sv' = (let b' = ?b in if ISBN b' \<noteq> ISBN b then enq (ISBN b') (queue sv) else queue sv)"
    then show ?thesis using own unfolding Let_def by (intro exI [of _ sv'] exI [of _ ?b] conjI) simp_all
  qed
qed

theorem pg_patch_witness:
  "\<exists>sv'. handle pg_repo to_queue [] noon bob (UpdateBook ''b7'' (no_patch\<lparr>p_Rating := Some 5\<rparr>))
      \<lparr>db = bobs_db, queue = []\<rparr>
    = (Inr (RBook (setCoverURL (reader_view (pg_catalog (db sv'))
        (patched 5000 (no_patch\<lparr>p_Rating := Some 5\<rparr>) (pg_catalog bobs_db) (pg_book_of bobs_row))))), sv')"
  using pg_patch [of "\<lparr>db = bobs_db, queue = []\<rparr>" bob "''bob''" "''b7''" "pg_book_of bobs_row" noon
      "no_patch\<lparr>p_Rating := Some 5\<rparr>" "no_patch\<lparr>p_Rating := Some 5\<rparr>" to_queue "[]"]
  by (auto simp: truncate_us_def simp del: acceptable.simps)

text \<open>
  C39: a PATCH that does not name a title writes the displayed title into the book. A book
  that had no title of its own and showed its edition's therefore keeps that title when its
  ISBN is then corrected, whatever the new edition is called.
\<close>
theorem mem_patch_freezes_title:
  assumes "mem_valid (db sv)" "requireUser ctx = Inr u"
    and "owned (mem_catalog (db sv)) u i = Some b" "canonical_patch rt p = Inr p'"
    and "acceptable (\<lambda>_. True) rt u (mem_catalog (db sv)) (UpdateBook i p)"
    and "p_Title p = None" "Title b = []"
    and "cat_editions (mem_catalog (db sv)) (ISBN b) = Some e" "ISBN b \<noteq> []" "m_Title (ed_meta e) \<noteq> []"
  shows "\<exists>x. fst (handle mem_repo enq ks rt ctx (UpdateBook i p) sv) = Inr (RBook x)
    \<and> Title x = m_Title (ed_meta e)
    \<and> (\<exists>b'. owned (mem_catalog (db (snd (handle mem_repo enq ks rt ctx (UpdateBook i p) sv)))) u i = Some b'
          \<and> Title b' = m_Title (ed_meta e))"
proof -
  let ?b = "patched (clock rt) p' (mem_catalog (db sv)) b"
  have id: "ID b = i" "UserID b = u"
    using owned_SomeD [OF assms(3)] wf_catalogD(1) [OF mem.valid_wf [OF assms(1)]] by blast+
  have "p_Title p' = None"
    using assms(4,6) by (auto simp: canonical_patch_def split: option.splits sum.splits)
  moreover have "edition_of (mem_catalog (db sv)) b = Some e"
    using assms(8,9) by (simp add: edition_of_def)
  ultimately have t: "Title ?b = m_Title (ed_meta e)"
    using reader_view_edition_title assms(7) by (simp add: patched_def applyTo_Title)
  have own: "ID ?b = i" "UserID ?b = u" using id by (simp_all add: patched_def applyTo_user)
  show ?thesis
    by (rule mem.update_outcome [OF assms(1) TrueI assms(2-5), of enq ks])
       (use t own assms(10) in \<open>auto simp: Let_def owned_def reader_view_own_names setCoverURL_def\<close>)
qed

theorem mem_patch_freezes_title_witness:
  "\<exists>x. fst (handle mem_repo to_queue [] noon ann (UpdateBook ''b1'' (no_patch\<lparr>p_ISBN := Some ''2070368220''\<rparr>))
        \<lparr>db = named_store, queue = []\<rparr>) = Inr (RBook x) \<and> Title x = ''La Taupe''"
proof -
  let ?p = "no_patch\<lparr>p_ISBN := Some ''2070368220''\<rparr>" and ?sv = "\<lparr>db = named_store, queue = []\<rparr>"
  have "canonicalISBN (case_tables noon) ''2070368220'' = Inr ''2070368220''"
    by (rule canonical_fixed) (simp add: isbnShape_def is_digit_byte)
  then have p: "canonical_patch noon ?p = Inr ?p"
    by (simp add: canonical_patch_def isbnFromInput_def no_patch_def)
  have "acceptable (\<lambda>_. True) noon ''ann'' (mem_catalog named_store) (UpdateBook ''b1'' ?p)"
    by (simp add: p) (simp add: applyTo_def no_patch_def posted_def stamped_def toBook_def scan_def
        zero_book_def int4_def list_all_iff)
  then have "\<exists>x. fst (handle mem_repo to_queue [] noon ann (UpdateBook ''b1'' ?p) ?sv) = Inr (RBook x)
      \<and> Title x = m_Title (ed_meta (mem_edition_of (zero_mem_edition\<lparr>e_Title := ''La Taupe'', e_Status := StatusEnriched\<rparr>)))
      \<and> (\<exists>b'. owned (mem_catalog (db (snd (handle mem_repo to_queue [] noon ann (UpdateBook ''b1'' ?p) ?sv))))
            ''ann'' ''b1'' = Some b'
          \<and> Title b' = m_Title (ed_meta (mem_edition_of (zero_mem_edition\<lparr>e_Title := ''La Taupe'', e_Status := StatusEnriched\<rparr>))))"
    using p by (intro mem_patch_freezes_title [where b = "posted 5000 noon ''ann'' ''9782070368224'' scan" and p' = ?p])
      (simp_all del: acceptable.simps)
  then show ?thesis by auto
qed

text \<open>
  C17: DELETE then GET: the owner is answered 204 and then 404, nothing but the book is
  removed (the shared edition and cover stay for the other readers), and a user who does not
  own the book gets 404 and removes nothing.
\<close>
theorem pg_delete:
  assumes "pg_valid (db sv)" "pg_healthy (db sv)" "requireUser ctx = Inr u" "pg_text u" "pg_text i"
  shows "case handle pg_repo enq ks rt ctx (DeleteBook i) sv of (r, sv') \<Rightarrow>
      r = (if owned (pg_catalog (db sv)) u i = None then Inl (ApiError 404 ''book not found'') else Inr RNoContent)
      \<and> pg_catalog (db sv') = (if owned (pg_catalog (db sv)) u i = None then pg_catalog (db sv)
          else (pg_catalog (db sv))\<lparr>cat_books := (cat_books (pg_catalog (db sv)))(i := None)\<rparr>)
      \<and> queue sv' = queue sv
      \<and> fst (handle pg_repo enq ks rt ctx (GetBook i) sv') = Inl (ApiError 404 ''book not found'')"
proof -
  obtain sv' where d: "fst (handle pg_repo enq ks rt ctx (DeleteBook i) sv) =
        (if owned (pg_catalog (db sv)) u i = None then Inl (error_404 ''book not found'') else Inr RNoContent)"
      "snd (handle pg_repo enq ks rt ctx (DeleteBook i) sv) = sv'"
      "pg_catalog (db sv') = (if owned (pg_catalog (db sv)) u i = None then pg_catalog (db sv)
         else (pg_catalog (db sv))\<lparr>cat_books := (cat_books (pg_catalog (db sv)))(i := None)\<rparr>)"
      "queue sv' = queue sv" "pg_valid (db sv')" "pg_healthy (db sv')"
    by (rule pg.delete_outcome [OF assms, of enq ks rt])
  have none: "owned (pg_catalog (db sv')) u i = None" unfolding d(3) by (simp add: owned_def)
  have "fst (handle pg_repo enq ks rt ctx (GetBook i) sv') = Inl (ApiError 404 ''book not found'')"
    by (rule pg.get_outcome [OF d(5,6) assms(3-5), of enq ks rt]) (simp add: none)
  then show ?thesis using d by (simp add: case_prod_beta)
qed

theorem pg_delete_witness:
  "case handle pg_repo to_queue [] noon bob (DeleteBook ''b7'') \<lparr>db = bobs_db, queue = []\<rparr> of (r, sv') \<Rightarrow>
     r = Inr RNoContent \<and> fst (handle pg_repo to_queue [] noon bob (GetBook ''b7'') sv')
       = Inl (ApiError 404 ''book not found'')"
  using pg_delete [of "\<lparr>db = bobs_db, queue = []\<rparr>" bob "''bob''" "''b7''" to_queue "[]" noon]
  by (simp add: case_prod_beta pg_text_ascii)

text \<open>
  C18: POST refresh. The edition of the book's ISBN is pending again, created when it was
  missing, with its metadata and cover kept for the readers meanwhile; the ISBN is queued.
\<close>
theorem pg_refresh:
  assumes "pg_valid (db sv)" "pg_healthy (db sv)" "requireUser ctx = Inr u"
    and "acceptable pg_text rt u (pg_catalog (db sv)) (RefreshBook i)"
    and "owned (pg_catalog (db sv)) u i = Some b" "ISBN b \<noteq> []"
  shows "case handle pg_repo enq ks rt ctx (RefreshBook i) sv of (r, sv') \<Rightarrow>
      r = Inr (RRefresh \<lparr>out_Status = ''queued'', out_ISBN = ISBN b\<rparr>)
      \<and> pg_catalog (db sv') = put_edition (ISBN b)
          ((edition_or_new (ISBN b) (pg_catalog (db sv)))\<lparr>ed_status := StatusPending\<rparr>) (pg_catalog (db sv))
      \<and> queue sv' = enq (ISBN b) (queue sv)"
  by (rule pg.refresh_outcome [OF assms, of enq ks]) (simp add: spec_mark_pending_def)

theorem pg_refresh_witness:
  "case handle pg_repo to_queue [] noon bob (RefreshBook ''b7'') \<lparr>db = bobs_db, queue = []\<rparr> of (r, sv') \<Rightarrow>
     queue sv' = [''9782070368224'']"
  using pg_refresh [of "\<lparr>db = bobs_db, queue = []\<rparr>" bob "''bob''" noon "''b7''" "pg_book_of bobs_row" to_queue "[]"]
  by (simp add: case_prod_beta pg_text_ascii bobs_row_def to_queue_def)

text \<open>
  A book that GET shows carries a cover URL exactly when the cover endpoint of that
  book answers with an image.
\<close>
theorem pg_cover_url:
  assumes "pg_valid (db sv)" "pg_healthy (db sv)" "requireUser ctx = Inr u" "pg_text u" "pg_text i"
    and "owned (pg_catalog (db sv)) u i = Some b"
  shows "(\<exists>x. fst (handle pg_repo enq ks rt ctx (GetBook i) sv) = Inr (RBook x) \<and> CoverURL x \<noteq> [])
    \<longleftrightarrow> (\<exists>x. fst (handle pg_repo enq ks rt ctx (GetCover i) sv) = Inr (RCover x))"
proof (rule pg.cover_announced [OF assms])
  obtain r where "books_tbl (db sv) i = Some r" "pg_book_of r = b"
    using owned_SomeD [OF assms(6)] by auto
  then show "ISBN b \<noteq> []" using pg_valid_row [OF assms(1)] by auto
qed

theorem pg_cover_url_witness:
  "(\<exists>x. fst (handle pg_repo to_queue [] noon bob (GetBook ''b7'') \<lparr>db = bobs_db, queue = []\<rparr>) = Inr (RBook x)
      \<and> CoverURL x \<noteq> [])
    \<longleftrightarrow> (\<exists>x. fst (handle pg_repo to_queue [] noon bob (GetCover ''b7'') \<lparr>db = bobs_db, queue = []\<rparr>)
      = Inr (RCover x))"
  by (rule pg_cover_url [where u = "''bob''" and b = "pg_book_of bobs_row"]) (simp_all add: pg_text_ascii)

end
