(* ===== verification/Worker.thy ===== *)
theory Worker
  imports Spec_Store
begin

text \<open>
  The enrichment worker (\<open>internal/enrich/worker.go\<close>): the bounded queue with its in-flight
  set, the processing of one ISBN, and the reconciler. Everything here is the sequential
  code of one goroutine; the interleavings of all of them are in \<open>Worker_Pool\<close>. Log lines
  are left out, and a cancelled context shows as errors of the provider and of the store.
\<close>

section \<open>Options and state\<close>

record options =
  Workers :: int
  QueueSize :: int
  SweepEvery :: int

text \<open>
  The mutable fields are the channel, with its capacity, and the set of keys of the in-flight
  map. Durations are nanoseconds.
\<close>

record worker =
  chan :: "string list"
  chan_cap :: int
  workers :: int
  sweepEvery :: int
  inFlight :: "string set"

definition NewWorker :: "options \<Rightarrow> worker" where
  "NewWorker opts =
     (let o1 = (if Workers opts \<le> 0 then opts\<lparr>Workers := 2\<rparr> else opts);
          o2 = (if QueueSize o1 \<le> 0 then o1\<lparr>QueueSize := 128\<rparr> else o1);
          o3 = (if SweepEvery o2 \<le> 0 then o2\<lparr>SweepEvery := 15 * 60 * 10 ^ 9\<rparr> else o2)
      in \<lparr>chan = [], chan_cap = QueueSize o3, workers = Workers o3, sweepEvery = SweepEvery o3,
          inFlight = {}\<rparr>)"

section \<open>The queue\<close>

definition markInFlight :: "string \<Rightarrow> worker \<Rightarrow> bool \<times> worker" where
  "markInFlight isbn w =
     (if isbn \<in> inFlight w then (False, w) else (True, w\<lparr>inFlight := insert isbn (inFlight w)\<rparr>))"

definition unmarkInFlight :: "string \<Rightarrow> worker \<Rightarrow> worker" where
  "unmarkInFlight isbn w = w\<lparr>inFlight := inFlight w - {isbn}\<rparr>"

definition Enqueue :: "string \<Rightarrow> worker \<Rightarrow> worker" where
  "Enqueue isbn w =
     (if isbn = [] then w
      else (case markInFlight isbn w of (marked, w1) \<Rightarrow>
        if \<not> marked then w1
        else if int (length (chan w1)) < chan_cap w1 then w1\<lparr>chan := chan w1 @ [isbn]\<rparr>
        else unmarkInFlight isbn w1))"

section \<open>Processing one ISBN\<close>

definition markFailed ::
  "('s, 'z) enrich_store_ops_scheme \<Rightarrow> time \<Rightarrow> string \<Rightarrow> 's \<Rightarrow> 's" where
  "markFailed R now isbn s = snd (SaveEnrichment R now isbn None StatusFailed s)"

text \<open>The cover is stored on a best-effort basis, before the metadata.\<close>

definition storeCover ::
  "('s, 'z) enrich_store_ops_scheme \<Rightarrow> provider \<Rightarrow> string \<Rightarrow> 's \<Rightarrow> 's" where
  "storeCover R prov isbn s =
     (case FetchCover prov isbn of Inl err \<Rightarrow> s | Inr c \<Rightarrow> snd (SaveCover R isbn c s))"

definition process ::
  "('s, 'z) enrich_store_ops_scheme \<Rightarrow> provider \<Rightarrow> time \<Rightarrow> string \<Rightarrow> 's \<Rightarrow> 's" where
  "process R prov now isbn s =
     (case EditionStatus R isbn s of
        (Inl err, s1) \<Rightarrow> s1
      | (Inr (status, ok), s1) \<Rightarrow>
          if ok \<and> status = StatusEnriched then s1
          else (case Lookup prov isbn of
                  Inl err \<Rightarrow> markFailed R now isbn s1
                | Inr meta \<Rightarrow>
                    (let s2 = storeCover R prov isbn s1
                     in snd (SaveEnrichment R now isbn (Some meta) StatusEnriched s2))))"

section \<open>The reconciler\<close>

definition reconcile ::
  "('s, 'z) enrich_store_ops_scheme \<Rightarrow> string list \<Rightarrow> 's \<times> worker \<Rightarrow> 's \<times> worker" where
  "reconcile R order sw =
     (case PendingEnrichment R order 100 (fst sw) of
        (Inl err, s1) \<Rightarrow> (s1, snd sw)
      | (Inr isbns, s1) \<Rightarrow> (s1, fold Enqueue isbns (snd sw)))"

section \<open>The interface of the handlers\<close>

text \<open>
  What a client of \<open>enrich.Enqueuer\<close> relies on: a call returns, keeps the state sound, and
  only the ISBN it names may become scheduled.
\<close>

locale enqueuer_contract =
  fixes enq :: "string \<Rightarrow> 'w \<Rightarrow> 'w" and scheduled :: "'w \<Rightarrow> string set" and sound :: "'w \<Rightarrow> bool"
  assumes enq_sound: "sound w \<Longrightarrow> sound (enq k w)"
    and enq_keeps: "sound w \<Longrightarrow> scheduled w \<subseteq> scheduled (enq k w)"
    and enq_only: "sound w \<Longrightarrow> scheduled (enq k w) \<subseteq> insert k (scheduled w)"
begin

lemma fold_sound: "sound w \<Longrightarrow> sound (fold enq ks w)"
  by (induction ks arbitrary: w) (simp_all add: enq_sound)

lemma fold_keeps: "sound w \<Longrightarrow> scheduled w \<subseteq> scheduled (fold enq ks w)"
proof (induction ks arbitrary: w)
  case (Cons k ks)
  then show ?case using enq_keeps [of w k] enq_sound [of w k] by fastforce
qed simp

lemma fold_only: "sound w \<Longrightarrow> scheduled (fold enq ks w) \<subseteq> set ks \<union> scheduled w"
proof (induction ks arbitrary: w)
  case (Cons k ks)
  then show ?case using Cons.IH [of "enq k w"] enq_only [of w k] enq_sound [of w k] by auto
qed simp

end

text \<open>
  The queue is sound when what it holds is in flight, without duplicates and within its
  capacity, and the empty ISBN never is in flight.
\<close>

definition queue_ok :: "worker \<Rightarrow> bool" where
  "queue_ok w \<longleftrightarrow> finite (inFlight w) \<and> set (chan w) \<subseteq> inFlight w \<and> distinct (chan w)
     \<and> int (length (chan w)) \<le> chan_cap w \<and> [] \<notin> inFlight w"

lemma Enqueue_cases:
  assumes "queue_ok w"
  obtains (skip) "Enqueue k w = w" "k = [] \<or> k \<in> inFlight w"
    | (queued) "Enqueue k w = w\<lparr>inFlight := insert k (inFlight w), chan := chan w @ [k]\<rparr>"
        "k \<noteq> []" "k \<notin> inFlight w" "int (length (chan w)) < chan_cap w"
    | (dropped) "Enqueue k w = w" "k \<noteq> []" "k \<notin> inFlight w" "int (length (chan w)) = chan_cap w"
proof (cases "k = [] \<or> k \<in> inFlight w")
  case True
  then show thesis by (intro skip) (auto simp: Enqueue_def markInFlight_def)
next
  case False
  then have new: "k \<noteq> []" "k \<notin> inFlight w" by simp_all
  show thesis
  proof (cases "int (length (chan w)) < chan_cap w")
    case True
    then show thesis
      by (intro queued [OF _ new]) (use new in \<open>cases w; simp add: Enqueue_def markInFlight_def\<close>)+
  next
    case False
    then have full: "int (length (chan w)) = chan_cap w" using assms by (simp add: queue_ok_def)
    then show thesis
      by (intro dropped [OF _ new full])
         (use new in \<open>cases w; simp add: Enqueue_def markInFlight_def unmarkInFlight_def\<close>)
  qed
qed

interpretation wq: enqueuer_contract Enqueue inFlight queue_ok
proof
  fix w k
  assume ok: "queue_ok w"
  show "queue_ok (Enqueue k w)"
    using ok by (rule Enqueue_cases [of w k]) (use ok in \<open>auto simp: queue_ok_def\<close>)
  show "inFlight w \<subseteq> inFlight (Enqueue k w)" "inFlight (Enqueue k w) \<subseteq> insert k (inFlight w)"
    using ok by (rule Enqueue_cases [of w k]; auto)+
qed

lemma NewWorker_ok: "queue_ok (NewWorker opts)"
  by (simp add: queue_ok_def NewWorker_def Let_def)

section \<open>What processing may change\<close>

text \<open>Only the edition and the cover of one ISBN may differ.\<close>

definition touches :: "string \<Rightarrow> catalog \<Rightarrow> catalog \<Rightarrow> bool" where
  "touches k c d \<longleftrightarrow> cat_books d = cat_books c
     \<and> (\<forall>j. j \<noteq> k \<longrightarrow> cat_editions d j = cat_editions c j \<and> cat_covers d j = cat_covers c j)"

lemma touches_refl [simp]: "touches k c c"
  by (simp add: touches_def)

lemma touches_trans: "touches k c d \<Longrightarrow> touches k d e \<Longrightarrow> touches k c e"
  by (simp add: touches_def)

lemma touches_spec:
  "touches k c (snd (spec_save_enrichment now k m st c))" "touches k c (snd (spec_save_cover k cv c))"
  by (auto simp: touches_def spec_save_enrichment_def spec_save_cover_def Let_def split: option.split)

context enrich_store
begin

lemma touches_answers:
  assumes "answers cat valid s res p" "touches k (cat s) (snd p)"
  shows "valid (snd res) \<and> touches k (cat s) (cat (snd res))"
  using assms by (auto simp: answers_def)

lemma status_step:
  assumes "valid s" "EditionStatus R k s = (r, s')"
  shows "valid s'" "cat s' = cat s"
    "r = Inr (st, found) \<Longrightarrow> (case cat_editions (cat s) k of
        None \<Rightarrow> st = [] \<and> \<not> found | Some e \<Rightarrow> st = ed_status e \<and> found)"
  using law_status [OF assms(1), of k] assms(2)
  by (auto simp: answers_def spec_edition_status_def split: option.splits)

lemma save_step:
  assumes "valid s"
  shows "valid (snd (SaveEnrichment R now k m st s))"
    "touches k (cat s) (cat (snd (SaveEnrichment R now k m st s)))"
  using touches_answers [OF law_save [OF assms, of now k m st] touches_spec(1)] by simp_all

lemma save_cover_step:
  assumes "valid s"
  shows "valid (snd (SaveCover R k cv s))" "touches k (cat s) (cat (snd (SaveCover R k cv s)))"
  using touches_answers [OF law_save_cover [OF assms, of k cv] touches_spec(2)] by simp_all

lemma storeCover_step:
  assumes "valid s"
  shows "valid (storeCover R prov k s)" "touches k (cat s) (cat (storeCover R prov k s))"
  using save_cover_step [OF assms] assms by (auto simp: storeCover_def split: sum.split)

text \<open>Whatever the provider answers and whatever the backend does, one ISBN is touched.\<close>

lemma process_touches:
  assumes "valid s"
  shows "valid (process R prov now k s) \<and> touches k (cat s) (cat (process R prov now k s))"
proof -
  obtain r s1 where st: "EditionStatus R k s = (r, s1)" by fastforce
  note s1 = status_step(1,2) [OF assms st]
  let ?s2 = "storeCover R prov k s1"
  have s2: "valid ?s2" "touches k (cat s) (cat ?s2)"
    using storeCover_step [OF s1(1), where prov = prov and k = k] s1(2) by simp_all
  have "touches k (cat s) (cat (snd (SaveEnrichment R now k m st ?s2)))" for m st
    using touches_trans [OF s2(2) save_step(2) [OF s2(1)]] .
  then show ?thesis
    using s1 save_step [OF s1(1)] save_step(1) [OF s2(1)]
    by (auto simp: process_def st markFailed_def Let_def split: sum.split prod.split)
qed

end

section \<open>Processing on a healthy store\<close>

text \<open>What the provider returns fits the columns.\<close>

definition fits :: "(string \<Rightarrow> bool) \<Rightarrow> provider \<Rightarrow> string \<Rightarrow> bool" where
  "fits A prov k \<longleftrightarrow>
     (case Lookup prov k of Inl e \<Rightarrow> True | Inr m \<Rightarrow> int4 (m_PageCount m) \<and> list_all A (metadata_texts m))
   \<and> (case FetchCover prov k of Inl e \<Rightarrow> True | Inr cv \<Rightarrow> list_all A (cover_texts cv))"

text \<open>The outcome in closed form.\<close>

definition enriched :: "provider \<Rightarrow> time \<Rightarrow> string \<Rightarrow> catalog \<Rightarrow> catalog" where
  "enriched prov now k c =
     (if \<exists>e. cat_editions c k = Some e \<and> ed_status e = StatusEnriched then c
      else case Lookup prov k of
        Inl err \<Rightarrow> put_edition k ((edition_or_new k c)\<lparr>ed_status := StatusFailed\<rparr>) c
      | Inr m \<Rightarrow>
          (let full = (\<lambda>e. e\<lparr>ed_status := StatusEnriched, ed_meta := m, ed_at := Some now\<rparr>)
           in case FetchCover prov k of
                Inl err \<Rightarrow> put_edition k (full (edition_or_new k c)) c
              | Inr cv \<Rightarrow> put_edition k (full ((edition_or_new k c)\<lparr>ed_cover := True\<rparr>))
                  (c\<lparr>cat_covers := (cat_covers c)(k \<mapsto> cv)\<rparr>)))"

lemma process_spec: "process spec_repo prov now k c = enriched prov now k c"
  by (cases "cat_editions c k"; cases "Lookup prov k"; cases "FetchCover prov k")
     (auto simp: process_def enriched_def markFailed_def storeCover_def spec_edition_status_def
        spec_save_enrichment_def spec_save_cover_def Let_def pending_edition_def StatusEnriched_def
        edition_or_new_def put_edition_def)

context enrich_store
begin

lemma process_ok:
  assumes "valid s" "ok s" "accepts k" "fits accepts prov k" "cat_editions (cat s) k \<noteq> None"
  shows "cat (process R prov now k s) = enriched prov (stamp now) k (cat s)
    \<and> valid (process R prov now k s) \<and> ok (process R prov now k s)"
proof -
  have plain: "accepts StatusEnriched" "accepts StatusFailed"
    by (auto intro!: accepts_plain simp: StatusEnriched_def StatusFailed_def)
  obtain e where e: "cat_editions (cat s) k = Some e" using assms(5) by blast
  obtain s1 where s1: "EditionStatus R k s = (Inr (ed_status e, True), s1)" "cat s1 = cat s" "valid s1" "ok s1"
    using answers_delivered [OF law_status [OF assms(1)] ok_status [OF assms(1-3)]] e
    by (cases "EditionStatus R k s") (auto simp: spec_edition_status_def)
  show ?thesis
  proof (cases "ed_status e = StatusEnriched")
    case True
    then show ?thesis using s1 e by (simp add: process_def enriched_def)
  next
    case todo: False
    show ?thesis
    proof (cases "Lookup prov k")
      case (Inl err)
      have "cat (snd (SaveEnrichment R now k None StatusFailed s1))
            = snd (spec_save_enrichment (stamp now) k None StatusFailed (cat s))
          \<and> valid (snd (SaveEnrichment R now k None StatusFailed s1))
          \<and> ok (snd (SaveEnrichment R now k None StatusFailed s1))"
        using answers_delivered [OF law_save [OF s1(3)] ok_save [OF s1(3,4) assms(3) plain(2)]] s1(2)
        by simp
      then show ?thesis
        using s1 e todo Inl
        by (simp add: process_def enriched_def markFailed_def spec_save_enrichment_def Let_def)
    next
      case m: (Inr m)
      define s2 where "s2 = storeCover R prov k s1"
      have s2: "valid s2" "ok s2" "cat s2 = (case FetchCover prov k of Inl err \<Rightarrow> cat s
          | Inr cv \<Rightarrow> snd (spec_save_cover k cv (cat s)))"
        using answers_delivered [OF law_save_cover [OF s1(3)] ok_save_cover [OF s1(3,4) _ assms(3)]]
          s1 assms(4,5)
        by (auto simp: s2_def storeCover_def fits_def split: sum.splits)
      have "cat (snd (SaveEnrichment R now k (Some m) StatusEnriched s2))
            = snd (spec_save_enrichment (stamp now) k (Some m) StatusEnriched (cat s2))
          \<and> valid (snd (SaveEnrichment R now k (Some m) StatusEnriched s2))
          \<and> ok (snd (SaveEnrichment R now k (Some m) StatusEnriched s2))"
        using answers_delivered [OF law_save [OF s2(1)] ok_save [OF s2(1,2) assms(3) plain(1)]]
          assms(4) m by (simp add: fits_def)
      moreover have "process R prov now k s = snd (SaveEnrichment R now k (Some m) StatusEnriched s2)"
        using s1 todo m by (simp add: process_def s2_def Let_def)
      moreover have "snd (spec_save_enrichment (stamp now) k (Some m) StatusEnriched (cat s2))
          = enriched prov (stamp now) k (cat s)"
        using process_spec [of prov "stamp now" k "cat s"] e todo m s2(3)
        by (cases "FetchCover prov k")
           (simp_all add: process_def storeCover_def spec_edition_status_def Let_def)
      ultimately show ?thesis by simp
    qed
  qed
qed

end

section \<open>A sweep of the reconciler\<close>

lemma Enqueue_room:
  assumes "queue_ok w" "int (length (chan w)) < chan_cap w" "k \<noteq> []"
  shows "k \<in> inFlight (Enqueue k w)" "int (length (chan (Enqueue k w))) \<le> int (length (chan w)) + 1"
    "chan_cap (Enqueue k w) = chan_cap w"
  using assms(1) by (rule Enqueue_cases [of w k]; use assms in auto)+

lemma fold_Enqueue_room:
  assumes "queue_ok w" "int (length (chan w)) + int (length ks) \<le> chan_cap w"
  shows "set ks - {[]} \<subseteq> inFlight (fold Enqueue ks w)"
  using assms
proof (induction ks arbitrary: w)
  case (Cons k ks)
  show ?case
  proof (cases "k = []")
    case True
    then have "Enqueue k w = w" by (simp add: Enqueue_def)
    then show ?thesis using Cons.IH [of w] Cons.prems True by auto
  next
    case False
    have room: "int (length (chan w)) < chan_cap w" using Cons.prems(2) by simp
    note e = Enqueue_room [OF Cons.prems(1) room False]
    have ok: "queue_ok (Enqueue k w)" using Cons.prems(1) by (rule wq.enq_sound)
    have "set ks - {[]} \<subseteq> inFlight (fold Enqueue ks (Enqueue k w))"
      using e(2,3) Cons.prems(2) by (intro Cons.IH ok) simp
    moreover have "k \<in> inFlight (fold Enqueue ks (Enqueue k w))"
      using wq.fold_keeps [OF ok, of ks] e(1) by blast
    ultimately show ?thesis by auto
  qed
qed simp

context enrich_store
begin

lemma sweep_step:
  assumes "valid s" "enumerates ks (cat_editions (cat s))" "PendingEnrichment R ks limit s = (r, s')" "0 < limit"
  shows "valid s'" "cat s' = cat s" "r = Inr xs \<Longrightarrow> sweep_of limit (cat s) xs"
proof -
  obtain ys where a: "answers cat valid s (r, s') (Inr ys, cat s)" "sweep_of limit (cat s) ys"
    using law_pending [OF assms(1,2,4)] assms(3) by auto
  show "valid s'" "cat s' = cat s" using a(1) by (auto simp: answers_def)
  show "sweep_of limit (cat s) xs" if "r = Inr xs" using a that by (auto simp: answers_def)
qed

text \<open>
  A sweep changes no data, schedules only unfinished ISBNs, and schedules all of them when
  there are no more than it asks for and the queue has room.
\<close>

lemma reconcile_sweeps:
  assumes "valid s" "enumerates ks (cat_editions (cat s))" "queue_ok w"
    "reconcile R ks (s, w) = (s', w')"
  shows "valid s'" "cat s' = cat s" "queue_ok w'"
    "inFlight w \<subseteq> inFlight w'" "inFlight w' \<subseteq> inFlight w \<union> Collect (unfinished (cat s))"
proof -
  obtain r s1 where p: "PendingEnrichment R ks 100 s = (r, s1)" by fastforce
  note step = sweep_step [OF assms(1,2) p]
  have w': "s' = s1 \<and> (w' = w \<or> (\<exists>xs. r = Inr xs \<and> w' = fold Enqueue xs w))"
    using assms(4) p by (auto simp: reconcile_def split: sum.splits)
  then show "valid s'" "cat s' = cat s" "queue_ok w'" "inFlight w \<subseteq> inFlight w'"
    using step wq.fold_sound [OF assms(3)] wq.fold_keeps [OF assms(3)] assms(3) by auto
  show "inFlight w' \<subseteq> inFlight w \<union> Collect (unfinished (cat s))"
    using w' step(3) wq.fold_only [OF assms(3)] by (fastforce simp: sweep_of_def)
qed

lemma reconcile_all:
  assumes "valid s" "enumerates ks (cat_editions (cat s))" "queue_ok w"
    "delivers (\<lambda>_. True) (PendingEnrichment R ks 100 s)"
    "card (Collect (unfinished (cat s))) \<le> 100" "finite (Collect (unfinished (cat s)))"
    "int (length (chan w)) + 100 \<le> chan_cap w" "unfinished (cat s) k" "k \<noteq> []"
  shows "k \<in> inFlight (snd (reconcile R ks (s, w)))"
proof -
  obtain r s1 where p: "PendingEnrichment R ks 100 s = (r, s1)" by fastforce
  obtain ys where "answers cat valid s (r, s1) (Inr ys, cat s)"
    using law_pending [OF assms(1,2), of 100] p by auto
  then obtain xs where r: "r = Inr xs" using assms(4) p by (auto simp: answers_def delivers_def)
  have sw: "sweep_of 100 (cat s) xs" using sweep_step(3) [OF assms(1,2) p _ r] by simp
  then have len: "length xs = card (Collect (unfinished (cat s)))" "length xs \<le> 100"
    using assms(5) by (simp_all add: sweep_of_def)
  have "set xs = Collect (unfinished (cat s))"
    using sw len(1) assms(6) by (intro card_subset_eq) (auto simp: sweep_of_def distinct_card)
  then have "k \<in> set xs - {[]}" using assms(8,9) by simp
  moreover have "set xs - {[]} \<subseteq> inFlight (fold Enqueue xs w)"
    using len(2) assms(7) by (intro fold_Enqueue_room assms(3)) simp
  ultimately show ?thesis using p r by (auto simp: reconcile_def)
qed

end

end
