(* ===== verification/Worker_Pool.thy ===== *)
theory Worker_Pool
  imports Worker "HOL-Library.Multiset"
begin

text \<open>
  The goroutines of the worker (\<open>Run\<close> in \<open>internal/enrich/worker.go\<close>) with every interleaving.
  A step is one atomic action of the code: a critical section under the mutex, an operation on
  the channel, one call of the store. Callers of \<open>Enqueue\<close> (handlers and the reconciler) and
  the requests that change the store run between any two of them.
\<close>

section \<open>One goroutine\<close>

text \<open>Where a pool goroutine stands in its loop and in \<open>process\<close>.\<close>

datatype job =
    Idle
  | Reading string
  | Asking string
  | Covering string metadata
  | SavingCover string metadata cover
  | Saving string metadata
  | Failing string
  | Leaving string

text \<open>The ISBN a goroutine received and has not yet unmarked.\<close>

fun holds :: "job \<Rightarrow> string option" where
  "holds Idle = None"
| "holds (Reading k) = Some k"
| "holds (Asking k) = Some k"
| "holds (Covering k m) = Some k"
| "holds (SavingCover k m cv) = Some k"
| "holds (Saving k m) = Some k"
| "holds (Failing k) = Some k"
| "holds (Leaving k) = Some k"

text \<open>The steps of \<open>process\<close>. The provider answers anything.\<close>

inductive job_step :: "('s, 'z) enrich_store_ops_scheme \<Rightarrow> job \<Rightarrow> 's \<Rightarrow> job \<Rightarrow> 's \<Rightarrow> bool"
  for R where
  read_failed: "EditionStatus R k s = (Inl err, s') \<Longrightarrow> job_step R (Reading k) s (Leaving k) s'"
| read_enriched: "EditionStatus R k s = (Inr (st, found), s') \<Longrightarrow> found \<and> st = StatusEnriched \<Longrightarrow>
    job_step R (Reading k) s (Leaving k) s'"
| read_todo: "EditionStatus R k s = (Inr (st, found), s') \<Longrightarrow> \<not> (found \<and> st = StatusEnriched) \<Longrightarrow>
    job_step R (Reading k) s (Asking k) s'"
| lookup_failed: "job_step R (Asking k) s (Failing k) s"
| lookup_done: "job_step R (Asking k) s (Covering k m) s"
| cover_failed: "job_step R (Covering k m) s (Saving k m) s"
| cover_done: "job_step R (Covering k m) s (SavingCover k m cv) s"
| save_cover: "job_step R (SavingCover k m cv) s (Saving k m) (snd (SaveCover R k cv s))"
| save: "job_step R (Saving k m) s (Leaving k) (snd (SaveEnrichment R now k (Some m) StatusEnriched s))"
| mark_failed: "job_step R (Failing k) s (Leaving k) (snd (SaveEnrichment R now k None StatusFailed s))"

inductive_cases job_stepE: "job_step R j s j' s'"
inductive_simps job_step_simps:
  "job_step R Idle s j' s'" "job_step R (Leaving k) s j' s'" "job_step R (Asking k) s j' s'"
  "job_step R (Saving k m) s j' s'" "job_step R (Failing k) s j' s'"

definition job_run :: "('s, 'z) enrich_store_ops_scheme \<Rightarrow> job \<times> 's \<Rightarrow> job \<times> 's \<Rightarrow> bool" where
  "job_run R = (\<lambda>a b. job_step R (fst a) (snd a) (fst b) (snd b))\<^sup>*\<^sup>*"

lemma job_run_refl: "job_run R a a"
  by (simp add: job_run_def)

lemma job_run_step: "job_step R j s j' s' \<Longrightarrow> job_run R (j', s') b \<Longrightarrow> job_run R (j, s) b"
  unfolding job_run_def by (rule converse_rtranclp_into_rtranclp) simp_all

text \<open>Run alone, the steps are \<open>process\<close>.\<close>

lemma process_is_job_run:
  "job_run R (Reading k, s) (Leaving k, process R prov now k s)"
proof -
  obtain r s1 where st: "EditionStatus R k s = (r, s1)" by fastforce
  show ?thesis
  proof (cases r)
    case (Inl err)
    then have "process R prov now k s = s1" using st by (simp add: process_def)
    then show ?thesis using read_failed [of R k s err s1] st Inl by (auto intro: job_run_step job_run_refl)
  next
    case (Inr sf)
    obtain st' found where sf: "sf = (st', found)" by fastforce
    note st = st [unfolded Inr sf]
    show ?thesis
    proof (cases "found \<and> st' = StatusEnriched")
      case True
      then have "process R prov now k s = s1" using st by (simp add: process_def)
      then show ?thesis using read_enriched [OF st True] by (auto intro: job_run_step job_run_refl)
    next
      case todo: False
      note read = read_todo [OF st todo]
      show ?thesis
      proof (cases "Lookup prov k")
        case (Inl err)
        then have "process R prov now k s = snd (SaveEnrichment R now k None StatusFailed s1)"
          using st todo by (auto simp: process_def markFailed_def)
        then show ?thesis
          using job_run_step [OF read job_run_step [OF lookup_failed job_run_step [OF mark_failed job_run_refl]]]
          by simp
      next
        case (Inr m)
        define s2 where "s2 = storeCover R prov k s1"
        have p: "process R prov now k s = snd (SaveEnrichment R now k (Some m) StatusEnriched s2)"
          using st todo Inr by (auto simp: process_def s2_def Let_def)
        have "job_run R (Covering k m, s1) (Leaving k, snd (SaveEnrichment R now k (Some m) StatusEnriched s2))"
        proof (cases "FetchCover prov k")
          case (Inl err)
          then have "s2 = s1" by (simp add: s2_def storeCover_def)
          then show ?thesis using job_run_step [OF cover_failed job_run_step [OF save job_run_refl]] by simp
        next
          case (Inr cv)
          then have "s2 = snd (SaveCover R k cv s1)" by (simp add: s2_def storeCover_def)
          then show ?thesis
            using job_run_step [OF cover_done job_run_step [OF save_cover job_run_step [OF save job_run_refl]]]
            by simp
        qed
        then show ?thesis using job_run_step [OF read job_run_step [OF lookup_done]] p by simp
      qed
    qed
  qed
qed

text \<open>A goroutine leaves \<open>process\<close> after at most five steps.\<close>

fun steps_left :: "job \<Rightarrow> nat" where
  "steps_left (Reading k) = 5"
| "steps_left (Asking k) = 4"
| "steps_left (Covering k m) = 3"
| "steps_left (SavingCover k m cv) = 2"
| "steps_left (Saving k m) = 1"
| "steps_left (Failing k) = 1"
| "steps_left _ = 0"

lemma steps_left_decreases: "job_step R j s j' s' \<Longrightarrow> steps_left j' < steps_left j"
  by (erule job_stepE) simp_all

lemma job_step_holds: "job_step R j s j' s' \<Longrightarrow> holds j' = holds j \<and> holds j \<noteq> None"
  by (erule job_stepE) simp_all

lemma job_never_stuck: "steps_left j \<noteq> 0 \<Longrightarrow> \<exists>j' s'. job_step R j s j' s'"
proof (cases j)
  case (Reading k)
  obtain r s1 where "EditionStatus R k s = (r, s1)" by fastforce
  then show ?thesis unfolding Reading
    by (cases r) (use read_failed read_enriched read_todo in \<open>fastforce\<close>)+
qed (auto intro: job_step.intros)

section \<open>The pool\<close>

text \<open>
  The state: the store, the worker, one job per goroutine, and the callers of \<open>Enqueue\<close> between
  their critical section and the channel (\<open>sending\<close>) or between the full channel and the second
  critical section (\<open>dropping\<close>).
\<close>

record 's pool =
  pstore :: 's
  pworker :: worker
  jobs :: "job list"
  sending :: "string multiset"
  dropping :: "string multiset"

inductive pool_step ::
  "('s, 'z) enrich_store_ops_scheme \<Rightarrow> ('s \<Rightarrow> 's \<Rightarrow> bool) \<Rightarrow> 's pool \<Rightarrow> 's pool \<Rightarrow> bool"
  for R env where
  request: "env (pstore p) s' \<Longrightarrow> pool_step R env p (p\<lparr>pstore := s'\<rparr>)"
| mark: "k \<noteq> [] \<Longrightarrow> markInFlight k (pworker p) = (True, w) \<Longrightarrow>
    pool_step R env p (p\<lparr>pworker := w, sending := add_mset k (sending p)\<rparr>)"
| send: "k \<in># sending p \<Longrightarrow> int (length (chan (pworker p))) < chan_cap (pworker p) \<Longrightarrow>
    pool_step R env p (p\<lparr>pworker := (pworker p)\<lparr>chan := chan (pworker p) @ [k]\<rparr>,
      sending := sending p - {#k#}\<rparr>)"
| full: "k \<in># sending p \<Longrightarrow> \<not> int (length (chan (pworker p))) < chan_cap (pworker p) \<Longrightarrow>
    pool_step R env p (p\<lparr>sending := sending p - {#k#}, dropping := add_mset k (dropping p)\<rparr>)"
| drop: "k \<in># dropping p \<Longrightarrow>
    pool_step R env p (p\<lparr>pworker := unmarkInFlight k (pworker p), dropping := dropping p - {#k#}\<rparr>)"
| receive: "i < length (jobs p) \<Longrightarrow> jobs p ! i = Idle \<Longrightarrow> chan (pworker p) = k # q \<Longrightarrow>
    pool_step R env p (p\<lparr>pworker := (pworker p)\<lparr>chan := q\<rparr>, jobs := (jobs p)[i := Reading k]\<rparr>)"
| work: "i < length (jobs p) \<Longrightarrow> job_step R (jobs p ! i) (pstore p) j' s' \<Longrightarrow>
    pool_step R env p (p\<lparr>pstore := s', jobs := (jobs p)[i := j']\<rparr>)"
| leave: "i < length (jobs p) \<Longrightarrow> jobs p ! i = Leaving k \<Longrightarrow>
    pool_step R env p (p\<lparr>pworker := unmarkInFlight k (pworker p), jobs := (jobs p)[i := Idle]\<rparr>)"

definition start :: "options \<Rightarrow> 's \<Rightarrow> 's pool" where
  "start opts s = (let w = NewWorker opts in
     \<lparr>pstore = s, pworker = w, jobs = replicate (nat (workers w)) Idle, sending = {#}, dropping = {#}\<rparr>)"

text \<open>An undisturbed caller of \<open>Enqueue\<close> goes through the steps of the code.\<close>

lemma Enqueue_steps:
  assumes "queue_ok (pworker p)"
  shows "(pool_step R env)\<^sup>*\<^sup>* p (p\<lparr>pworker := Enqueue k (pworker p)\<rparr>)"
  using assms
proof (rule Enqueue_cases [of "pworker p" k])
  assume "Enqueue k (pworker p) = pworker p"
  then show ?thesis by simp
next
  assume q: "Enqueue k (pworker p) = (pworker p)\<lparr>inFlight := insert k (inFlight (pworker p)),
      chan := chan (pworker p) @ [k]\<rparr>"
    and new: "k \<noteq> []" "k \<notin> inFlight (pworker p)" and room: "int (length (chan (pworker p))) < chan_cap (pworker p)"
  let ?w = "(pworker p)\<lparr>inFlight := insert k (inFlight (pworker p))\<rparr>"
  let ?p = "p\<lparr>pworker := ?w, sending := add_mset k (sending p)\<rparr>"
  have "pool_step R env p ?p" using new by (intro mark) (simp_all add: markInFlight_def)
  moreover have "pool_step R env ?p (p\<lparr>pworker := Enqueue k (pworker p)\<rparr>)"
    using send [of k ?p R env] room by (simp add: q)
  ultimately show ?thesis by (rule converse_rtranclp_into_rtranclp [OF _ r_into_rtranclp])
qed simp

section \<open>The invariant\<close>

definition held :: "job multiset \<Rightarrow> string multiset" where
  "held M = sum_mset (image_mset (\<lambda>j. case holds j of None \<Rightarrow> {#} | Some k \<Rightarrow> {#k#}) M)"

lemma held_simps [simp]:
  "held {#} = {#}" "holds j = None \<Longrightarrow> held (add_mset j M) = held M"
  "holds j = Some k \<Longrightarrow> held (add_mset j M) = add_mset k (held M)"
  by (simp_all add: held_def)

lemma held_mem: "k \<in># held M \<longleftrightarrow> (\<exists>j. j \<in># M \<and> holds j = Some k)"
  by (auto simp: held_def split: option.splits)

lemma jobs_split:
  assumes "i < length js"
  obtains M where "mset js = add_mset (js ! i) M" "\<And>j'. mset (js[i := j']) = add_mset j' M"
  using assms by (intro that [of "mset js - {#js ! i#}"]) (simp_all add: mset_update)

text \<open>The keys of the in-flight map are the ISBNs somebody is responsible for, each once.\<close>

definition accounted :: "'s pool \<Rightarrow> bool" where
  "accounted p \<longleftrightarrow>
     finite (inFlight (pworker p)) \<and> [] \<notin> inFlight (pworker p)
   \<and> int (length (chan (pworker p))) \<le> chan_cap (pworker p)
   \<and> mset_set (inFlight (pworker p))
       = sending p + dropping p + mset (chan (pworker p)) + held (mset (jobs p))"

lemma mset_set_unmark:
  assumes "finite A" "mset_set A = add_mset k M"
  shows "mset_set (A - {k}) = M"
proof -
  have "k \<in> A" using assms by (metis elem_mset_set union_single_eq_member)
  then show ?thesis using assms by (simp add: mset_set_Diff)
qed

lemma accounted_start: "accounted (start opts s)"
proof -
  have "held (replicate_mset n Idle) = {#}" for n by (induction n) simp_all
  then show ?thesis by (simp add: accounted_def start_def NewWorker_def Let_def)
qed

lemma accounted_step:
  assumes "pool_step R env p p'" "accounted p"
  shows "accounted p'"
  using assms(1)
proof cases
  case (mark k w)
  then have "k \<notin> inFlight (pworker p)" "w = (pworker p)\<lparr>inFlight := insert k (inFlight (pworker p))\<rparr>"
    by (auto simp: markInFlight_def split: if_splits)
  then show ?thesis using mark assms(2) by (simp add: accounted_def)
next
  case (send k)
  then obtain M where "sending p = add_mset k M" by (metis insert_DiffM)
  then show ?thesis using send assms(2) by (simp add: accounted_def)
next
  case (full k)
  then obtain M where "sending p = add_mset k M" by (metis insert_DiffM)
  then show ?thesis using full assms(2) by (simp add: accounted_def)
next
  case (drop k)
  then obtain M where M: "dropping p = add_mset k M" by (metis insert_DiffM)
  then show ?thesis
    using drop assms(2) mset_set_unmark [of "inFlight (pworker p)" k
        "sending p + M + mset (chan (pworker p)) + held (mset (jobs p))"]
    by (simp add: accounted_def unmarkInFlight_def)
next
  case (receive i k q)
  obtain M where "mset (jobs p) = add_mset Idle M" "\<And>j'. mset ((jobs p)[i := j']) = add_mset j' M"
    using jobs_split [OF receive(2)] receive(3) by metis
  then show ?thesis using receive assms(2) by (simp add: accounted_def)
next
  case (work i j' s')
  obtain k where k: "holds (jobs p ! i) = Some k" "holds j' = Some k"
    using job_step_holds [OF work(3)] by auto
  obtain M where "mset (jobs p) = add_mset (jobs p ! i) M" "\<And>j'. mset ((jobs p)[i := j']) = add_mset j' M"
    using jobs_split [OF work(2)] by metis
  then show ?thesis using work k assms(2) by (simp add: accounted_def)
next
  case (leave i k)
  obtain M where M: "mset (jobs p) = add_mset (Leaving k) M" "\<And>j'. mset ((jobs p)[i := j']) = add_mset j' M"
    using jobs_split [OF leave(2)] leave(3) by metis
  then show ?thesis
    using leave assms(2) mset_set_unmark [of "inFlight (pworker p)" k
        "sending p + dropping p + mset (chan (pworker p)) + held M"]
    by (simp add: accounted_def unmarkInFlight_def)
qed (use assms(2) in \<open>simp add: accounted_def\<close>)

lemma held_once:
  assumes "accounted p" "i < length (jobs p)" "j < length (jobs p)" "i \<noteq> j"
    "holds (jobs p ! i) = Some k"
  shows "holds (jobs p ! j) \<noteq> Some k"
proof
  assume j: "holds (jobs p ! j) = Some k"
  obtain M where M: "mset (jobs p) = add_mset (jobs p ! i) M" "\<And>j'. mset ((jobs p)[i := j']) = add_mset j' M"
    using jobs_split [OF assms(2)] by metis
  have "jobs p ! j \<in># mset ((jobs p)[i := Idle])"
    using assms(3,4) by (metis length_list_update nth_list_update_neq nth_mem_mset)
  then have "jobs p ! j \<in># M" using M(2) j by auto
  then have "k \<in># held M" using j by (auto simp: held_mem)
  then obtain N where "held (mset (jobs p)) = add_mset k (add_mset k N)"
    using M(1) assms(5) by (metis held_simps(3) insert_DiffM)
  then have "count (mset_set (inFlight (pworker p))) k \<ge> 2"
    using assms(1) by (simp add: accounted_def)
  then show False by (simp add: count_mset_set' split: if_splits)
qed

lemma held_alone:
  assumes "accounted p" "i < length (jobs p)" "holds (jobs p ! i) = Some k"
  shows "(\<forall>j < length (jobs p). holds (jobs p ! j) = Some k \<longrightarrow> j = i)
    \<and> k \<in> inFlight (pworker p) \<and> k \<notin> set (chan (pworker p)) \<and> k \<notin># sending p"
proof -
  obtain M where M: "mset (jobs p) = add_mset (jobs p ! i) M"
    using jobs_split [OF assms(2)] by metis
  then have m: "mset_set (inFlight (pworker p))
      = add_mset k (sending p + dropping p + mset (chan (pworker p)) + held M)"
    using assms(1,3) by (simp add: accounted_def)
  have fin: "finite (inFlight (pworker p))" using assms(1) by (simp add: accounted_def)
  have "k \<in> inFlight (pworker p)" using m fin by (metis elem_mset_set union_single_eq_member)
  then have "count (sending p + dropping p + mset (chan (pworker p)) + held M) k = 0"
    using arg_cong [OF m, of "\<lambda>N. count N k"] fin by (simp add: count_mset_set')
  then show ?thesis
    using held_once [OF assms(1,2) _ _ assms(3)] \<open>k \<in> inFlight (pworker p)\<close>
    by (metis add_gr_0 count_greater_zero_iff count_union not_gr0 set_mset_mset)
qed

section \<open>The store under the pool\<close>

text \<open>The ISBN a goroutine has found unfinished and is working on.\<close>

fun working :: "job \<Rightarrow> string option" where
  "working (Asking k) = Some k"
| "working (Covering k m) = Some k"
| "working (SavingCover k m cv) = Some k"
| "working (Saving k m) = Some k"
| "working (Failing k) = Some k"
| "working _ = None"

fun_cases workingE: "working j = Some k"

lemma working_holds: "working j = Some k \<Longrightarrow> holds j = Some k"
  by (erule workingE) simp_all

definition is_enriched :: "catalog \<Rightarrow> string \<Rightarrow> bool" where
  "is_enriched c k \<longleftrightarrow> (\<exists>e. cat_editions c k = Some e \<and> ed_status e = StatusEnriched)"

lemma touches_enriched: "touches k c d \<Longrightarrow> j \<noteq> k \<Longrightarrow> is_enriched d j = is_enriched c j"
  by (simp add: touches_def is_enriched_def)

lemma save_cover_enriched: "is_enriched (snd (spec_save_cover k cv c)) j = is_enriched c j"
  by (auto simp: is_enriched_def spec_save_cover_def edition_or_new_def split: option.splits)

lemma editions_kept:
  "cat_editions (snd (spec_create now i u b c)) = cat_editions c"
  "cat_editions (snd (spec_update now u b c)) = cat_editions c"
  "cat_editions (snd (spec_delete u i c)) = cat_editions c"
  by (simp_all add: spec_create_def spec_update_def spec_delete_def Let_def split: option.split)

lemma request_enriched:
  "is_enriched (snd (spec_create now i u b c)) k = is_enriched c k"
  "is_enriched (snd (spec_update now u b c)) k = is_enriched c k"
  "is_enriched (snd (spec_delete u i c)) k = is_enriched c k"
  "is_enriched (snd (spec_ensure j c)) k \<Longrightarrow> is_enriched c k"
  "is_enriched (snd (spec_mark_pending j c)) k \<Longrightarrow> is_enriched c k"
  by (simp_all add: is_enriched_def editions_kept)
     (auto simp: spec_ensure_def spec_mark_pending_def split: option.splits if_splits)

text \<open>The store calls the handlers make, one at a time.\<close>

inductive request_call :: "('s, 'y) repository_ops_scheme \<Rightarrow> ('s \<Rightarrow> catalog) \<Rightarrow> 's \<Rightarrow> 's \<Rightarrow> bool"
  for R cat where
  "CoverURL b = [] \<Longrightarrow> request_call R cat s (snd (Create R now i u b s))"
| "request_call R cat s (snd (Get R u i s))"
| "enumerates ks (cat_books (cat s)) \<Longrightarrow> request_call R cat s (snd (ListBooks R ks u s))"
| "CoverURL b = [] \<Longrightarrow> request_call R cat s (snd (Update R now u b s))"
| "request_call R cat s (snd (Delete R u i s))"
| "request_call R cat s (snd (EnsureEdition R k s))"
| "request_call R cat s (snd (MarkEditionPending R k s))"
| "request_call R cat s (snd (CoverForBook R u i s))"

text \<open>Calls that keep the store valid and finish no edition.\<close>

definition harmless :: "('s \<Rightarrow> catalog) \<Rightarrow> ('s \<Rightarrow> bool) \<Rightarrow> ('s \<Rightarrow> 's \<Rightarrow> bool) \<Rightarrow> bool" where
  "harmless cat valid env \<longleftrightarrow> (\<forall>s s'. valid s \<longrightarrow> env s s' \<longrightarrow>
     valid s' \<and> (\<forall>k. is_enriched (cat s') k \<longrightarrow> is_enriched (cat s) k))"

context repository
begin

lemma harmless_answers:
  assumes "answers cat valid s res p" "\<And>k. is_enriched (snd p) k \<Longrightarrow> is_enriched (cat s) k"
  shows "valid (snd res) \<and> (\<forall>k. is_enriched (cat (snd res)) k \<longrightarrow> is_enriched (cat s) k)"
  using assms by (auto simp: answers_def)

lemma request_calls_harmless: "harmless cat valid (request_call R cat)"
  unfolding harmless_def
proof (intro allI impI)
  fix s s'
  assume v: "valid s" and "request_call R cat s s'"
  from this(2) show "valid s' \<and> (\<forall>k. is_enriched (cat s') k \<longrightarrow> is_enriched (cat s) k)"
  proof cases
    case (1 b now i u)
    show ?thesis unfolding 1(1)
      by (rule harmless_answers [OF law_create [OF v 1(2)]]) (simp add: request_enriched(1-3))
  next
    case (2 u i)
    show ?thesis unfolding 2(1)
      by (rule harmless_answers [OF law_get [OF v]]) (simp add: request_enriched(1-3))
  next
    case (3 ks u)
    show ?thesis unfolding 3(1)
      by (rule harmless_answers [OF law_list [OF v 3(2)]]) (simp add: request_enriched(1-3))
  next
    case (4 b now u)
    show ?thesis unfolding 4(1)
      by (rule harmless_answers [OF law_update [OF v 4(2)]]) (simp add: request_enriched(1-3))
  next
    case (5 u i)
    show ?thesis unfolding 5(1)
      by (rule harmless_answers [OF law_delete [OF v]]) (simp add: request_enriched(1-3))
  next
    case (6 k)
    show ?thesis unfolding 6(1)
      by (rule harmless_answers [OF law_ensure [OF v]]) (erule request_enriched)
  next
    case (7 k)
    show ?thesis unfolding 7(1)
      by (rule harmless_answers [OF law_mark [OF v]]) (erule request_enriched)
  next
    case (8 u i)
    note harmless_answers [OF law_cover [OF v, of u i]]
    then show ?thesis unfolding 8(1) by simp
  qed
qed

end

context enrich_store
begin

text \<open>What a step of one goroutine does to the store.\<close>

lemma job_step_store:
  assumes "job_step R j s j' s'" "valid s" "holds j = Some k"
    "\<And>x. working j = Some x \<Longrightarrow> \<not> is_enriched (cat s) x"
  shows "valid s'" "touches k (cat s) (cat s')" "working j' = Some x \<Longrightarrow> \<not> is_enriched (cat s') x"
proof -
  have "valid s' \<and> touches k (cat s) (cat s') \<and> (\<forall>x. working j' = Some x \<longrightarrow> \<not> is_enriched (cat s') x)"
    using assms(1)
  proof cases
    case (read_todo k' st found)
    then have "(case cat_editions (cat s) k of None \<Rightarrow> st = [] \<and> \<not> found
        | Some e \<Rightarrow> st = ed_status e \<and> found)" "valid s'" "cat s' = cat s"
      using status_step [OF assms(2), of k "Inr (st, found)" s'] assms(3) by auto
    then show ?thesis
      using read_todo assms(3) by (auto simp: is_enriched_def split: option.splits)
  next
    case (save_cover k' m cv)
    then have "is_enriched (cat s') x = is_enriched (cat s) x" for x
      using law_save_cover [OF assms(2), of k' cv] save_cover_enriched [of k' cv "cat s" x]
      by (auto simp: answers_def)
    then show ?thesis using save_cover assms(3,4) save_cover_step [OF assms(2), of k cv] by auto
  qed (use assms status_step(1,2) [OF assms(2)] save_step [OF assms(2)] in auto)
  then show "valid s'" "touches k (cat s) (cat s')" "working j' = Some x \<Longrightarrow> \<not> is_enriched (cat s') x"
    by simp_all
qed

text \<open>
  While a goroutine works on an ISBN its edition is not enriched: no reader sees metadata
  announced as complete whose cover is still being fetched or stored.
\<close>

definition pool_ok :: "'s pool \<Rightarrow> bool" where
  "pool_ok p \<longleftrightarrow> accounted p \<and> valid (pstore p)
     \<and> (\<forall>i < length (jobs p). \<forall>k. working (jobs p ! i) = Some k \<longrightarrow> \<not> is_enriched (cat (pstore p)) k)"

lemma pool_okD: "pool_ok p \<Longrightarrow> i < length (jobs p) \<Longrightarrow> working (jobs p ! i) = Some k \<Longrightarrow>
    \<not> is_enriched (cat (pstore p)) k"
  by (simp add: pool_ok_def)

lemma pool_ok_step:
  assumes "pool_step R env p p'" "pool_ok p" "harmless cat valid env"
  shows "pool_ok p'"
proof -
  have acc: "accounted p'" using accounted_step [OF assms(1)] assms(2) by (simp add: pool_ok_def)
  have v: "valid (pstore p)" using assms(2) by (simp add: pool_ok_def)
  note idle = pool_okD [OF assms(2)]
  show ?thesis
    using assms(1)
  proof cases
    case (request s')
    then have "valid s'" "\<And>k. is_enriched (cat s') k \<Longrightarrow> is_enriched (cat (pstore p)) k"
      using v assms(3) by (auto simp: harmless_def)
    then show ?thesis using acc idle request by (auto simp: pool_ok_def)
  next
    case (receive i k q)
    then show ?thesis using acc v idle by (auto simp: pool_ok_def nth_list_update)
  next
    case (leave i k)
    then show ?thesis using acc v idle by (auto simp: pool_ok_def nth_list_update)
  next
    case (work i j' s')
    obtain k where k: "holds (jobs p ! i) = Some k" using job_step_holds [OF work(3)] by auto
    note step = job_step_store [OF work(3) v k idle [OF work(2)]]
    have "\<not> is_enriched (cat s') x" if "n < length (jobs p)" "working ((jobs p)[i := j'] ! n) = Some x" for n x
    proof (cases "n = i")
      case True
      then show ?thesis using that work(2) step(3) by simp
    next
      case False
      then have w: "working (jobs p ! n) = Some x" using that by simp
      have "x \<noteq> k"
        using held_once [OF _ work(2) that(1) _ k] False working_holds [OF w] assms(2)
        by (auto simp: pool_ok_def)
      then show ?thesis using touches_enriched [OF step(2)] idle [OF that(1) w] by simp
    qed
    then show ?thesis using acc work step(1) by (simp add: pool_ok_def)
  qed (use acc v idle in \<open>auto simp: pool_ok_def\<close>)
qed

lemma pool_ok_start: "valid s \<Longrightarrow> pool_ok (start opts s)"
  by (simp add: pool_ok_def accounted_start) (simp add: start_def Let_def)

lemma pool_reachable:
  assumes "(pool_step R env)\<^sup>*\<^sup>* (start opts s) p" "valid s" "harmless cat valid env"
  shows "pool_ok p"
  using assms(1) by induction (auto intro: pool_ok_start pool_ok_step assms)

end

end
