(* ===== verification/Enrichment_Service.thy ===== *)
theory Enrichment_Service
  imports Book_Service Worker_Pool
begin

text \<open>
  The enrichment worker on the two stores: what processing an ISBN does, what the queue and
  the reconciler guarantee and what they do not, and the pool of goroutines under every
  interleaving with the requests.
\<close>

text \<open>The facts of the contracts, at the stores.\<close>

context enrich_store
begin

lemmas processing_touches = process_touches
lemmas processing_ok = process_ok
lemmas sweep_facts = reconcile_sweeps
lemmas sweep_all = reconcile_all
lemmas reachable_pool = pool_reachable
lemmas pool_step_ok = pool_ok_step
lemmas pool_ok_alt = pool_ok_def

lemma reachable_pool_facts:
  assumes "(pool_step R env)\<^sup>*\<^sup>* (start opts s) p" "valid s" "harmless cat valid env"
  shows "accounted p" "valid (pstore p)"
    "i < length (jobs p) \<Longrightarrow> working (jobs p ! i) = Some k \<Longrightarrow> \<not> is_enriched (cat (pstore p)) k"
  using pool_reachable [OF assms] by (auto simp: pool_ok_def)

end

context repository
begin

lemmas calls_harmless = request_calls_harmless

end

section \<open>Processing\<close>

text \<open>A provider and its data, for the concrete instances.\<close>

definition taupe :: metadata where
  "taupe = \<lparr>m_Title = ''La Taupe'', m_Author = ''John le Carre'', m_Description = [],
     m_Publisher = ''Gallimard'', m_PublishedDate = ''1974'', m_PageCount = 400\<rparr>"

definition taupe_cover :: cover where
  "taupe_cover = \<lparr>c_ContentType = ''image/jpeg'', c_Bytes = ''x'', c_ETag = [], c_SourceURL = []\<rparr>"

definition library :: provider where
  "library = \<lparr>Lookup = (\<lambda>k. Inr taupe), FetchCover = (\<lambda>k. Inr taupe_cover)\<rparr>"

definition pending_db :: database where
  "pending_db = migrated\<lparr>editions_tbl := [''9782070368224'' \<mapsto> new_edition StatusPending]\<rparr>"

lemma pending_db_ok [simp]: "pg_valid pending_db" "pg_healthy pending_db"
  "editions_tbl pending_db = [''9782070368224'' \<mapsto> new_edition StatusPending]"
  by (auto simp: pg_valid_def wf_catalog_def pg_checked_def pending_db_def migrated_def pg_healthy_def
      pg_edition_of_def new_edition_def)

lemma library_fits [simp]: "fits pg_text library k"
  "Lookup library k = Inr taupe" "FetchCover library k = Inr taupe_cover"
  by (simp_all add: fits_def library_def taupe_def taupe_cover_def int4_def
      metadata_texts_def cover_texts_def pg_text_ascii)

text \<open>
  Whatever the provider answers, and whatever statements fail or lose their reply,
  processing an ISBN keeps the invariants of the tables and changes nothing but the edition
  and the cover of that ISBN: no book is ever touched.
\<close>
theorem pg_process_touches:
  assumes "pg_valid d"
  shows "pg_valid (process pg_repo prov now k d)
    \<and> touches k (pg_catalog d) (pg_catalog (process pg_repo prov now k d))"
  using assms by (rule pg.processing_touches)

theorem pg_process_touches_witness:
  "touches ''9782070368224'' (pg_catalog (pending_db\<lparr>conn := [Answered, Refused ''down'']\<rparr>))
    (pg_catalog (process pg_repo library 7000 ''9782070368224'' (pending_db\<lparr>conn := [Answered, Refused ''down'']\<rparr>)))"
  by (rule pg_process_touches [THEN conjunct2]) simp

text \<open>
  C12: the outcome on a healthy Postgres store. An enriched edition is left alone; without
  metadata the edition is failed and keeps what it had; with metadata it is enriched with
  exactly that metadata and the time, and the cover the provider returned, if any, is stored
  and announced. This is what the interleaved steps of an undisturbed goroutine do, from the
  receipt of the ISBN to the end of \<open>process\<close>.
\<close>
theorem pg_process_outcome:
  assumes "pg_valid d" "pg_healthy d" "pg_text k" "fits pg_text prov k" "editions_tbl d k \<noteq> None"
  shows "job_run pg_repo (Reading k, d) (Leaving k, process pg_repo prov now k d)
    \<and> pg_catalog (process pg_repo prov now k d) = enriched prov (truncate_us now) k (pg_catalog d)"
  using pg.processing_ok [OF assms(1-4)] assms(5) process_is_job_run by simp

theorem pg_process_outcome_witness:
  "pg_catalog (process pg_repo library 7000 ''9782070368224'' pending_db)
    = enriched library 7000 ''9782070368224'' (pg_catalog pending_db)"
  using pg_process_outcome [of pending_db "''9782070368224''" library 7000]
  by (simp add: pg_text_ascii truncate_us_def)

section \<open>The queue and the reconciler\<close>

lemma firsts_snoc: "rev (remdups (rev (xs @ [x]))) =
    (if x \<in> set xs then rev (remdups (rev xs)) else rev (remdups (rev xs)) @ [x])"
  by simp

text \<open>
  C31: the queue of a fresh worker after any sequence of calls of \<open>Enqueue\<close> with no goroutine
  receiving: the different non-empty ISBNs in the order of their first call, up to the
  capacity; exactly those are in flight.
\<close>
theorem enqueue_sequence:
  "chan (fold Enqueue ks (NewWorker opts))
     = take (nat (chan_cap (NewWorker opts))) (rev (remdups (rev (filter (\<lambda>k. k \<noteq> []) ks))))
   \<and> inFlight (fold Enqueue ks (NewWorker opts)) = set (chan (fold Enqueue ks (NewWorker opts)))"
proof (induction ks rule: rev_induct)
  case Nil
  show ?case by (simp add: NewWorker_def Let_def)
next
  case (snoc k ks)
  let ?w = "fold Enqueue ks (NewWorker opts)" and ?xs = "rev (remdups (rev (filter (\<lambda>k. k \<noteq> []) ks)))"
  let ?n = "nat (chan_cap (NewWorker opts))"
  have cap: "chan_cap (fold Enqueue ys w) = chan_cap w" for ys w
    by (induction ys arbitrary: w)
       (simp_all add: Enqueue_def markInFlight_def unmarkInFlight_def split: prod.split)
  have pos: "0 < chan_cap (NewWorker opts)" by (simp add: NewWorker_def Let_def)
  have ok: "queue_ok ?w" by (rule wq.fold_sound [OF NewWorker_ok])
  have step: "fold Enqueue (ks @ [k]) (NewWorker opts) = Enqueue k ?w" by simp
  have set_xs: "set ?xs = {x \<in> set ks. x \<noteq> []}" by auto
  have "chan (Enqueue k ?w) = take ?n (rev (remdups (rev (filter (\<lambda>k. k \<noteq> []) (ks @ [k])))))
      \<and> inFlight (Enqueue k ?w) = set (chan (Enqueue k ?w))"
    using ok
  proof (rule Enqueue_cases [of ?w k])
    assume e: "Enqueue k ?w = ?w" "k = [] \<or> k \<in> inFlight ?w"
    then have "k = [] \<or> k \<in> set ?xs" using snoc.IH by (auto dest: in_set_takeD)
    then show ?thesis using snoc.IH e(1) by (auto simp: set_xs)
  next
    assume e: "Enqueue k ?w = ?w\<lparr>inFlight := insert k (inFlight ?w), chan := chan ?w @ [k]\<rparr>"
      and k: "k \<noteq> []" "k \<notin> inFlight ?w" and room: "int (length (chan ?w)) < chan_cap ?w"
    have "length (take ?n ?xs) < ?n" using room snoc.IH cap [of ks "NewWorker opts"] by simp
    then have all: "take ?n ?xs = ?xs" "length ?xs < ?n" by simp_all
    then have "k \<notin> set ?xs" using k snoc.IH by auto
    then show ?thesis using snoc.IH e k(1) all set_xs by simp
  next
    assume e: "Enqueue k ?w = ?w" "k \<noteq> []" "k \<notin> inFlight ?w"
      and full: "int (length (chan ?w)) = chan_cap ?w"
    have "length (take ?n ?xs) = ?n" using full snoc.IH cap [of ks "NewWorker opts"] pos by simp
    then have "?n \<le> length ?xs" by simp
    then show ?thesis using snoc.IH e by simp
  qed
  then show ?case by (simp only: step)
qed

text \<open>
  C32: on the in-memory store a sweep leaves nothing behind while at most a hundred editions
  are unfinished and the queue has room for a hundred: afterwards every unfinished ISBN is in
  flight, and none that is finished was added.
\<close>
theorem mem_reconcile_complete:
  assumes "mem_valid s" "enumerates ks (cat_editions (mem_catalog s))" "queue_ok w"
    and "card (Collect (unfinished (mem_catalog s))) \<le> 100"
    and "int (length (chan w)) + 100 \<le> chan_cap w"
  shows "Collect (unfinished (mem_catalog s)) - {[]} \<subseteq> inFlight (snd (reconcile mem_repo ks (s, w)))
    \<and> inFlight (snd (reconcile mem_repo ks (s, w))) \<subseteq> inFlight w \<union> Collect (unfinished (mem_catalog s))"
proof
  have "Collect (unfinished (mem_catalog s)) \<subseteq> dom (cat_editions (mem_catalog s))"
    by (auto simp: unfinished_def)
  then have fin: "finite (Collect (unfinished (mem_catalog s)))"
    using enumerates_finite [OF assms(2)] by (rule finite_subset)
  have "delivers (\<lambda>_. True) (PendingEnrichment mem_repo ks 100 s)"
    by (simp add: delivers_def mem_PendingEnrichment_def Let_def)
  then show "Collect (unfinished (mem_catalog s)) - {[]} \<subseteq> inFlight (snd (reconcile mem_repo ks (s, w)))"
    using mem.sweep_all [OF assms(1-3) _ assms(4) fin assms(5)] by auto
  show "inFlight (snd (reconcile mem_repo ks (s, w))) \<subseteq> inFlight w \<union> Collect (unfinished (mem_catalog s))"
    using mem.sweep_facts(5) [OF assms(1-3) prod.collapse [symmetric]] .
qed

text \<open>A store with one pending edition, and one with a hundred and one.\<close>

definition one_pending :: memory_store where
  "one_pending = snd (mem_EnsureEdition ''9782070368224'' NewMemoryStore)"

definition crowded :: memory_store where
  "crowded = NewMemoryStore\<lparr>mem_editions :=
     (\<lambda>k. if k = ''1'' \<or> k \<in> zeros ` {1..<101} then Some (zero_mem_edition\<lparr>e_Status := StatusPending\<rparr>)
          else None)\<rparr>"

lemma one_pending_ok [simp]: "mem_valid one_pending"
  "mem_editions one_pending = [''9782070368224'' \<mapsto> zero_mem_edition\<lparr>e_Status := StatusPending\<rparr>]"
  by (auto simp: one_pending_def mem_valid_def wf_catalog_def mem_EnsureEdition_def NewMemoryStore_def
      mem_edition_of_def zero_mem_edition_def)

theorem mem_reconcile_complete_witness:
  "''9782070368224'' \<in> inFlight (snd (reconcile mem_repo [''9782070368224'']
     (one_pending, NewWorker \<lparr>Workers = 0, QueueSize = 0, SweepEvery = 0\<rparr>)))"
proof -
  have u: "Collect (unfinished (mem_catalog one_pending)) = {''9782070368224''}"
    by (auto simp: unfinished_def mem_catalog_def split: if_splits)
  have "enumerates [''9782070368224''] (cat_editions (mem_catalog one_pending))"
    by (rule enumeratesI) simp_all
  then show ?thesis
    using mem_reconcile_complete [of one_pending "[''9782070368224'']"
        "NewWorker \<lparr>Workers = 0, QueueSize = 0, SweepEvery = 0\<rparr>"]
    by (simp add: u NewWorker_ok) (simp add: NewWorker_def)
qed

text \<open>
  C35: beyond a hundred the reconciler starves. An ISBN with a hundred smaller unfinished
  ISBNs is scheduled by no sweep, however much room the queue has; editions without upstream
  record stay unfinished, so the drop of such an ISBN is never made up for.
\<close>
theorem mem_reconcile_starves:
  assumes "enumerates ks (mem_editions s)" "queue_ok w"
    and "A \<subseteq> Collect (unfinished (mem_catalog s))" "\<And>a. a \<in> A \<Longrightarrow> a < k" "100 \<le> card A"
  shows "k \<in> inFlight (snd (reconcile mem_repo ks (s, w))) \<longleftrightarrow> k \<in> inFlight w"
proof -
  let ?xs = "sort (filter (mem_unfinished s) ks)"
  have p: "mem_PendingEnrichment ks 100 s = (Inr (take (nat 100) ?xs), s)"
    by (rule mem_PendingEnrichment_alt) simp
  have "x \<in> set ks" if "mem_unfinished s x" for x
    using that enumerates_dom [OF assms(1)] by (auto simp: mem_unfinished_def split: option.splits)
  then have "A \<subseteq> set ?xs" using assms(3) by (auto simp: mem_unfinished [symmetric])
  then have k: "k \<notin> set (take (nat 100) ?xs)"
    using assms(1,4,5) by (intro not_in_sorted_prefix [of _ A]) (auto simp: enumerates_def)
  have "snd (reconcile mem_repo ks (s, w)) = fold Enqueue (take (nat 100) ?xs) w"
    by (simp only: reconcile_def mem_repo_simps fst_conv snd_conv p prod.case sum.case)
  then show ?thesis
    using k wq.fold_only [OF assms(2), of "take (nat 100) ?xs"] wq.fold_keeps [OF assms(2), of "take (nat 100) ?xs"]
    by auto
qed

theorem mem_reconcile_starves_witness:
  "''1'' \<notin> inFlight (snd (reconcile mem_repo (''1'' # map zeros [1..<101])
     (crowded, NewWorker \<lparr>Workers = 0, QueueSize = 0, SweepEvery = 0\<rparr>)))"
proof -
  have z: "zeros n \<noteq> ''1''" for n by (cases n) (simp_all add: zeros_def)
  have less: "zeros n < ''1''" for n by (cases n) (simp_all add: zeros_def less_char_def)
  have "''1'' \<in> inFlight (snd (reconcile mem_repo (''1'' # map zeros [1..<101])
        (crowded, NewWorker \<lparr>Workers = 0, QueueSize = 0, SweepEvery = 0\<rparr>)))
      \<longleftrightarrow> ''1'' \<in> inFlight (NewWorker \<lparr>Workers = 0, QueueSize = 0, SweepEvery = 0\<rparr>)"
  proof (rule mem_reconcile_starves [where A = "zeros ` {1..<101}"])
    show "enumerates (''1'' # map zeros [1..<101]) (mem_editions crowded)"
    proof (rule enumeratesI)
      show "distinct (''1'' # map zeros [1..<101])"
        using z z [symmetric] inj_zeros by (auto simp: distinct_map dest: inj_on_subset)
    qed (auto simp: crowded_def dom_def)
    show "zeros ` {1..<101} \<subseteq> Collect (unfinished (mem_catalog crowded))"
      by (auto simp: unfinished_def crowded_def)
    show "100 \<le> card (zeros ` {1..<101})"
      using inj_zeros by (simp add: card_image inj_on_subset)
  qed (use less in \<open>auto simp: NewWorker_ok\<close>)
  then show ?thesis by (simp add: NewWorker_def)
qed

section \<open>The pool\<close>

text \<open>
  C7: the same ISBN is never fetched twice at once. In every state the goroutines, the callers
  of \<open>Enqueue\<close> and the requests can reach from a fresh worker on a valid Postgres store, no two
  goroutines hold the same ISBN, and the ISBN a goroutine holds is in flight and neither
  waiting in the queue nor about to enter it.
\<close>
theorem pg_no_double_fetch:
  assumes "(pool_step pg_repo (request_call pg_repo pg_catalog))\<^sup>*\<^sup>* (start opts d) p" "pg_valid d"
    and "i < length (jobs p)" "holds (jobs p ! i) = Some k"
  shows "(\<forall>j < length (jobs p). holds (jobs p ! j) = Some k \<longrightarrow> j = i)
    \<and> k \<in> inFlight (pworker p) \<and> k \<notin> set (chan (pworker p)) \<and> k \<notin># sending p"
  using held_alone [OF pg.reachable_pool_facts(1) [OF assms(1,2) pg.calls_harmless] assms(3,4)] .

text \<open>
  The cover comes before the announcement. In every reachable state, while a goroutine
  is looking up, fetching or storing for an ISBN, its edition is not enriched, so no request
  reads it as complete with its cover still on the way.
\<close>
theorem pg_enriched_last:
  assumes "(pool_step pg_repo (request_call pg_repo pg_catalog))\<^sup>*\<^sup>* (start opts d) p" "pg_valid d"
    and "i < length (jobs p)" "working (jobs p ! i) = Some (ISBN b)"
  shows "EnrichmentStatus (reader_view (pg_catalog (pstore p)) b) \<noteq> StatusEnriched"
  using pg.reachable_pool_facts(3) [OF assms(1,2) pg.calls_harmless assms(3,4)]
  by (auto simp: reader_view_def edition_of_def is_enriched_def StatusEnriched_def split: option.splits)

text \<open>
  The interleaved steps are those of the sequential code: undisturbed, a goroutine that
  received an ISBN goes from the channel to the end of \<open>process\<close> with exactly the effect of
  \<open>process\<close>.
\<close>
theorem process_by_steps:
  "job_run R (Reading k, s) (Leaving k, process R prov now k s)"
  by (rule process_is_job_run)

text \<open>
  \<open>process\<close> comes to its end: a goroutine makes at most five steps from receiving an ISBN
  to leaving it, and never is stuck in between.
\<close>
theorem process_terminates:
  "{(b, a). job_step R (fst a) (snd a) (fst b) (snd b)} \<subseteq> measure (\<lambda>a. steps_left (fst a))
   \<and> steps_left j \<le> 5 \<and> (steps_left j = 0 \<longleftrightarrow> (\<nexists>j' s'. job_step R j s j' s'))"
proof (intro conjI iffI)
  show "{(b, a). job_step R (fst a) (snd a) (fst b) (snd b)} \<subseteq> measure (\<lambda>a. steps_left (fst a))"
    using steps_left_decreases by fastforce
  show "steps_left j \<le> 5" by (cases j) simp_all
  show "\<nexists>j' s'. job_step R j s j' s'" if "steps_left j = 0" using steps_left_decreases that by fastforce
  show "steps_left j = 0" if "\<nexists>j' s'. job_step R j s j' s'" using job_never_stuck that by metis
qed

text \<open>A run of the pool: a call of \<open>Enqueue\<close>, a goroutine that receives it and reads the status.\<close>

definition defaults :: options where
  "defaults = \<lparr>Workers = 0, QueueSize = 0, SweepEvery = 0\<rparr>"

definition pool_at :: "database \<Rightarrow> job \<Rightarrow> database pool" where
  "pool_at d j = \<lparr>pstore = d, pworker = (NewWorker defaults)\<lparr>inFlight := {''9782070368224''}\<rparr>,
     jobs = [j, Idle], sending = {#}, dropping = {#}\<rparr>"

lemma pool_at_reachable:
  assumes "pg_EditionStatus ''9782070368224'' d = (Inr (st, found), d)" "\<not> (found \<and> st = StatusEnriched)"
  shows "(pool_step pg_repo (request_call pg_repo pg_catalog))\<^sup>*\<^sup>* (start defaults d) (pool_at d (Asking ''9782070368224''))"
proof -
  let ?step = "pool_step pg_repo (request_call pg_repo pg_catalog)" and ?k = "''9782070368224''"
  let ?w = "NewWorker defaults"
  let ?p1 = "(start defaults d)\<lparr>pworker := Enqueue ?k ?w\<rparr>"
  let ?p2 = "?p1\<lparr>pworker := (Enqueue ?k ?w)\<lparr>chan := []\<rparr>, jobs := [Reading ?k, Idle]\<rparr>"
  have st: "pworker (start defaults d) = ?w" "jobs (start defaults d) = [Idle, Idle]"
    by (simp_all add: start_def NewWorker_def defaults_def Let_def numeral_2_eq_2)
  have e: "Enqueue ?k ?w = ?w\<lparr>inFlight := {?k}, chan := [?k]\<rparr>"
    by (simp add: Enqueue_def markInFlight_def NewWorker_def defaults_def Let_def)
  have a: "?step\<^sup>*\<^sup>* (start defaults d) ?p1"
    using Enqueue_steps [of "start defaults d" pg_repo "request_call pg_repo pg_catalog" ?k]
    by (simp add: st NewWorker_ok)
  have b: "?step ?p1 ?p2"
    using receive [of 0 ?p1 ?k "[]" pg_repo "request_call pg_repo pg_catalog"] st by (simp add: e)
  have "job_step pg_repo (Reading ?k) d (Asking ?k) d"
    using assms by (intro read_todo [where st = st and found = found]) simp_all
  then have c: "?step ?p2 (?p2\<lparr>pstore := d, jobs := [Asking ?k, Idle]\<rparr>)"
    using work [of 0 ?p2 pg_repo "Asking ?k" d "request_call pg_repo pg_catalog"]
    by (simp add: start_def Let_def)
  have d: "?p2\<lparr>pstore := d, jobs := [Asking ?k, Idle]\<rparr> = pool_at d (Asking ?k)"
    by (simp add: pool_at_def e start_def Let_def) (simp add: NewWorker_def Let_def)
  have "?step\<^sup>*\<^sup>* (start defaults d) ?p2"
    using a b by (rule rtranclp.rtrancl_into_rtrancl)
  moreover have "?step ?p2 (pool_at d (Asking ?k))" using c by (simp only: d)
  ultimately show ?thesis by (rule rtranclp.rtrancl_into_rtrancl)
qed

definition asking :: "database pool" where
  "asking = pool_at pending_db (Asking ''9782070368224'')"

lemma asking_reachable:
  "(pool_step pg_repo (request_call pg_repo pg_catalog))\<^sup>*\<^sup>* (start defaults pending_db) asking"
proof -
  have "pg_EditionStatus ''9782070368224'' pending_db = (Inr (StatusPending, True), pending_db)"
    using pending_db_ok(2) by (simp add: pg_EditionStatus_def statement_healthy sql_select_status_def
        pg_text_ascii new_edition_def)
  then show ?thesis unfolding asking_def by (rule pool_at_reachable) simp
qed

theorem pg_no_double_fetch_witness:
  "''9782070368224'' \<in> inFlight (pworker asking) \<and> ''9782070368224'' \<notin># sending asking"
  using pg_no_double_fetch [OF asking_reachable, of 0 "''9782070368224''"] by (simp add: asking_def pool_at_def)

theorem pg_enriched_last_witness:
  "EnrichmentStatus (reader_view (pg_catalog pending_db) (posted 5000 noon ''ann'' ''9782070368224'' scan))
    \<noteq> StatusEnriched"
  using pg_enriched_last [OF asking_reachable, of 0 "posted 5000 noon ''ann'' ''9782070368224'' scan"]
  by (simp add: asking_def pool_at_def)

end
