(* ===== verification/Sourcing.thy ===== *)
theory Sourcing
  imports Fallback Url Enrichment_Service
begin

text \<open>
  The providers composed with the rest: what they ask upstream, the bounds on what they
  bring into the store, and what the combination of the two sources means for an edition.
\<close>

section \<open>What upstream is asked\<close>

lemma known_key:
  "k \<in> {''bibkeys'', ''format'', ''jscmd'', ''q'', ''fields'', ''limit'', ''key''} \<Longrightarrow>
   parameter (k @ CHR ''='' # v) = (k, QueryUnescape v)"
  by (intro parameter_key) auto

lemma ol_lookup_query:
  "ParseQuery ((''bibkeys='' @ ''ISBN:'' @ QueryEscape isbn) @ CHR ''&'' # ''format=json'' @ CHR ''&'' # ''jscmd=data'')
     = [(''bibkeys'', ''ISBN:'' @ isbn), (''format'', ''json''), (''jscmd'', ''data'')]" (is "ParseQuery ?a = _")
proof -
  have "split_at (CHR ''&'') ?a = [''bibkeys='' @ ''ISBN:'' @ QueryEscape isbn, ''format=json'', ''jscmd=data'']"
    using QueryEscape_separate(1) [of isbn] by (subst split_at_sep) simp_all
  then show ?thesis
    using known_key [of "''bibkeys''" "''ISBN:'' @ QueryEscape isbn"] known_key [of "''format''" "''json''"]
      known_key [of "''jscmd''" "''data''"] unescape_literal [of "''ISBN:''" True "QueryEscape isbn"]
    by (simp add: ParseQuery_def del: split_at.simps)
qed

lemma ol_search_query:
  "ParseQuery ((''q='' @ QueryEscape q)
       @ CHR ''&'' # (''fields='' @ ''title,author_name,first_publish_year,publisher,isbn'')
       @ CHR ''&'' # ''limit='' @ Itoa l)
     = [(''q'', q), (''fields'', ''title,author_name,first_publish_year,publisher,isbn''), (''limit'', Itoa l)]"
  (is "ParseQuery ?b = [_, (_, ?fields), _]")
proof -
  have lim: "CHR ''&'' \<notin> set (Itoa l)" "QueryUnescape (Itoa l) = Itoa l"
    using Itoa_literal unescape_literal [of "Itoa l" True "[]"] by auto
  have "split_at (CHR ''&'') ?b = [''q='' @ QueryEscape q, ''fields='' @ ?fields, ''limit='' @ Itoa l]"
    using QueryEscape_separate(1) [of q] lim(1) by (subst split_at_sep) (simp_all add: split_at_none)
  then show ?thesis
    using known_key [of "''q''" "QueryEscape q"] known_key [of "''fields''" ?fields]
      known_key [of "''limit''" "Itoa l"] lim(2)
    by (simp add: ParseQuery_def del: split_at.simps)
qed

lemma gb_lookup_query:
  "ParseQuery ((''q='' @ ''isbn:'' @ QueryEscape isbn)
       @ (if key = [] then [] else CHR ''&'' # ''key='' @ QueryEscape key))
     = (''q'', ''isbn:'' @ isbn) # (if key = [] then [] else [(''key'', key)])" (is "ParseQuery ?c = _")
proof -
  have "split_at (CHR ''&'') ?c = (''q='' @ ''isbn:'' @ QueryEscape isbn)
      # (if key = [] then [] else [''key='' @ QueryEscape key])"
    using QueryEscape_separate(1) [of isbn] QueryEscape_separate(1) [of key]
    by (cases "key = []") (simp_all add: split_at_none split_at_sep)
  then show ?thesis
    using known_key [of "''q''" "''isbn:'' @ QueryEscape isbn"] known_key [of "''key''" "QueryEscape key"]
      unescape_literal [of "''isbn:''" True "QueryEscape isbn"]
    by (simp add: ParseQuery_def del: split_at.simps)
qed

text \<open>
  C22: the queries upstream receives, read back as a server reads them: the lookups ask for
  the very ISBN they were given and the search for the trimmed text, as one parameter each,
  so nothing in them can add, drop or change another parameter, and the rest is what the code
  intends.
\<close>
theorem provider_queries:
  "\<exists>a b c d.
     ol_lookup_url p isbn = ol_baseURL p @ ''/api/books?'' @ a
   \<and> ParseQuery a = [(''bibkeys'', ''ISBN:'' @ isbn), (''format'', ''json''), (''jscmd'', ''data'')]
   \<and> ol_search_url p q l = ol_baseURL p @ ''/search.json?'' @ b
   \<and> ParseQuery b = [(''q'', q), (''fields'', ''title,author_name,first_publish_year,publisher,isbn''),
                     (''limit'', Itoa l)]
   \<and> gb_lookup_url g isbn = gb_baseURL g @ ''/books/v1/volumes?'' @ c
   \<and> ParseQuery c = (''q'', ''isbn:'' @ isbn) # (if gb_apiKey g = [] then [] else [(''key'', gb_apiKey g)])
   \<and> ol_cover_url p isbn = ol_coversURL p @ ''/b/isbn/'' @ d @ ''-L.jpg?default=false''
   \<and> PathUnescape d = isbn \<and> set d \<inter> {CHR ''/'', CHR ''?'', CHR ''#''} = {}"
  by (rule exI [of _ "(''bibkeys='' @ ''ISBN:'' @ QueryEscape isbn) @ CHR ''&'' # ''format=json'' @ CHR ''&'' # ''jscmd=data''"],
      rule exI [of _ "(''q='' @ QueryEscape q) @ CHR ''&''
        # (''fields='' @ ''title,author_name,first_publish_year,publisher,isbn'') @ CHR ''&'' # ''limit='' @ Itoa l"],
      rule exI [of _ "(''q='' @ ''isbn:'' @ QueryEscape isbn)
        @ (if gb_apiKey g = [] then [] else CHR ''&'' # ''key='' @ QueryEscape (gb_apiKey g))"],
      rule exI [of _ "PathEscape isbn"])
     (use PathEscape_separate [of isbn] in \<open>simp only: ol_lookup_query ol_search_query gb_lookup_query,
       simp add: ol_lookup_url_def ol_search_url_def gb_lookup_url_def ol_cover_url_def Let_def\<close>)

section \<open>How much the search asks for\<close>

text \<open>
  C25: whatever limit a caller asks for, a search sends at most three requests, each for between
  one and 25 results (ten when the limit is not positive), and none for a blank text.
\<close>
theorem ol_search_bounded:
  "\<exists>new limit'. snd (snd (ol_Search U (recorded H) J p q limit (n, tr))) = tr @ new
     \<and> 1 \<le> limit' \<and> limit' \<le> 25 \<and> limit' = (if limit \<le> 0 then 10 else min limit 25)
     \<and> requests new \<le> (if TrimSpace q = [] then 0 else 3) \<and> pauses new \<le> 1000000000
     \<and> set new \<subseteq> {Sent (ol_search_url p (TrimSpace q) limit') userAgent, Paused 200000000, Paused 800000000}"
proof (cases "TrimSpace q = []")
  case True
  then show ?thesis
    by (intro exI [of _ "[]"] exI [of _ "if limit \<le> 0 then 10 else min limit 25"]) (auto simp: ol_Search_def)
next
  case False
  define l where "l = (if limit \<le> 0 then 10 else min limit 25)"
  obtain m where m: "m \<le> 5" "snd (snd (httpGetWithRetry (recorded H) (ol_search_url p (TrimSpace q) l) userAgent (n, tr)))
      = tr @ take m (longest_run (ol_search_url p (TrimSpace q) l) userAgent)"
    using recorded_run [of H "ol_search_url p (TrimSpace q) l" userAgent n tr] by blast
  have "snd (ol_Search U (recorded H) J p q limit (n, tr))
      = snd (httpGetWithRetry (recorded H) (ol_search_url p (TrimSpace q) l) userAgent (n, tr))"
    using False by (auto simp: ol_Search_def Let_def l_def ol_get_def defaultSearchLimit_def
        maxSearchLimit_def min_def split: prod.split sum.split)
  moreover have "1 \<le> l" "l \<le> 25" by (auto simp: l_def)
  ultimately show ?thesis
    using m take_longest_run [OF m(1)] False
    by (intro exI [of _ "take m (longest_run (ol_search_url p (TrimSpace q) l) userAgent)"] exI [of _ l])
       (simp add: l_def)
qed

section \<open>What reaches the store\<close>

text \<open>The provider the program wires up: Open Library, then Google Books.\<close>

definition wired ::
  "'n http \<Rightarrow> ol_json \<Rightarrow> gb_json \<Rightarrow> string \<Rightarrow> string \<Rightarrow> string \<Rightarrow> string \<Rightarrow> 'n net_provider" where
  "wired H J G olBase olCovers gbBase gbKey =
     fallback (NewFallbackProvider (open_library H J (NewOpenLibraryProvider olBase olCovers))
       (google_books H G (NewGoogleBooksProvider gbBase gbKey)))"

definition covers_within :: "int \<Rightarrow> catalog \<Rightarrow> bool" where
  "covers_within cap c \<longleftrightarrow> Ball (ran (cat_covers c)) (cover_within cap)"

lemma covers_kept: "cat_covers (snd (spec_save_enrichment now k m st c)) = cat_covers c"
  by (simp add: spec_save_enrichment_def Let_def)

lemma covers_saved: "covers_within cap c \<Longrightarrow> cover_within cap cv \<Longrightarrow> covers_within cap (snd (spec_save_cover k cv c))"
  by (auto simp: covers_within_def spec_save_cover_def ran_def)

context enrich_store
begin

text \<open>Covers enter a store only through a provider.\<close>

lemma process_covers:
  assumes "valid s" "covers_within cap (cat s)" "\<And>cv. FetchCover prov k = Inr cv \<Longrightarrow> cover_within cap cv"
  shows "covers_within cap (cat (process R prov now k s))"
proof -
  have save: "covers_within cap (cat (snd (SaveEnrichment R now k m st s')))"
    if "valid s'" "covers_within cap (cat s')" for m st s'
    using law_save [OF that(1), of now k m st] that(2) covers_kept
    by (auto simp: answers_def covers_within_def)
  have store: "covers_within cap (cat (storeCover R prov k s'))" if "valid s'" "covers_within cap (cat s')" for s'
  proof (cases "FetchCover prov k")
    case (Inr cv)
    have "covers_within cap (snd (spec_save_cover k cv (cat s')))"
      using that(2) assms(3) [OF Inr] by (rule covers_saved)
    then show ?thesis
      using law_save_cover [OF that(1), of k cv] that(2) Inr by (auto simp: storeCover_def answers_def)
  qed (use that in \<open>simp add: storeCover_def\<close>)
  obtain r s1 where st: "EditionStatus R k s = (r, s1)" by fastforce
  have s1: "valid s1" "covers_within cap (cat s1)" using status_step(1,2) [OF assms(1) st] assms(2) by simp_all
  note s2 = storeCover_step(1) [OF s1(1), of prov k] store [OF s1]
  show ?thesis
    using s1 save [OF s1] save [OF s2] by (auto simp: process_def st markFailed_def Let_def split: sum.split prod.split)
qed

end

text \<open>A network that answers every lookup with one record and every cover request with one image.\<close>

definition gallery :: "nat http" where
  "gallery = \<lparr>NewRequest = (\<lambda>u. None),
     Do = (\<lambda>u ag n. (Inr \<lparr>StatusCode = 200, Header = (\<lambda>k. []), body_bytes = ''x'', body_error = None\<rparr>, n + 1)),
     Pause = (\<lambda>d n. (None, n))\<rparr>"

definition gallery_json :: ol_json where
  "gallery_json = \<lparr>decode_data = (\<lambda>r. Inr (\<lambda>k. Some \<lparr>od_Title = ''La Taupe'', od_Authors = [''John le Carre''],
       od_Publishers = [], od_PublishDate = [], od_Pages = 400, od_Excerpts = []\<rparr>)),
     decode_search = (\<lambda>r. Inr [])\<rparr>"

definition no_volumes :: gb_json where
  "no_volumes = (\<lambda>r. Inr \<lparr>TotalItems = 0, Items = []\<rparr>)"

lemma enriched_iff:
  assumes "cat_editions c k \<noteq> None"
  shows "is_enriched (enriched prov now k c) k \<longleftrightarrow> is_enriched c k \<or> (\<exists>m. Lookup prov k = Inr m)"
  using assms by (cases "Lookup prov k"; cases "FetchCover prov k")
    (auto simp: enriched_def is_enriched_def Let_def)

text \<open>
  C19: with the wired providers, processing an ISBN of the catalogue on a healthy database
  ends with an enriched edition exactly when it was enriched before, or Open Library has the
  metadata, or Google Books, asked after Open Library failed for any reason, has it.
\<close>
theorem pg_enriched_by_either:
  assumes "pg_valid d" "pg_healthy d" "pg_text k" "editions_tbl d k \<noteq> None"
    and "fits pg_text (observed (wired H J G olBase olCovers gbBase gbKey) n) k"
  shows "is_enriched (pg_catalog (process pg_repo (observed (wired H J G olBase olCovers gbBase gbKey) n) now k d)) k
    \<longleftrightarrow> is_enriched (pg_catalog d) k
      \<or> (\<exists>m. fst (ol_Lookup H J (NewOpenLibraryProvider olBase olCovers) k n) = Inr m)
      \<or> (\<exists>m. fst (gb_Lookup H G (NewGoogleBooksProvider gbBase gbKey) k
               (snd (ol_Lookup H J (NewOpenLibraryProvider olBase olCovers) k n))) = Inr m)"
proof -
  have e: "cat_editions (pg_catalog d) k \<noteq> None" using assms(4) by simp
  have l: "(\<exists>m. Lookup (observed (wired H J G olBase olCovers gbBase gbKey) n) k = Inr m)
      \<longleftrightarrow> (\<exists>m. fst (ol_Lookup H J (NewOpenLibraryProvider olBase olCovers) k n) = Inr m)
        \<or> (\<exists>m. fst (gb_Lookup H G (NewGoogleBooksProvider gbBase gbKey) k
               (snd (ol_Lookup H J (NewOpenLibraryProvider olBase olCovers) k n))) = Inr m)"
    by (auto simp: wired_def fb_Lookup_def split: prod.splits sum.splits)
  show ?thesis
    unfolding l [symmetric] using pg.processing_ok [OF assms(1-3,5) e, of now] enriched_iff [OF e] by simp
qed

theorem pg_enriched_by_either_witness:
  "is_enriched (pg_catalog (process pg_repo
     (observed (wired gallery gallery_json no_volumes [] [] [] []) 0) 7000 ''9782070368224'' pending_db)) ''9782070368224''"
proof -
  have get: "httpGetWithRetry gallery u ag n =
      (Inr \<lparr>StatusCode = 200, Header = (\<lambda>k. []), body_bytes = ''x'', body_error = None\<rparr>, n + 1)" for u ag n
    by (simp add: retry_simps gallery_def transient_def StatusTooManyRequests_def)
  have l: "ol_Lookup gallery gallery_json p k n = (Inr (ol_metadata \<lparr>od_Title = ''La Taupe'',
      od_Authors = [''John le Carre''], od_Publishers = [], od_PublishDate = [], od_Pages = 400, od_Excerpts = []\<rparr>), n + 1)"
    for p k n
    by (simp add: ol_Lookup_def ol_get_def get StatusOK_def gallery_json_def)
  have c: "ol_FetchCover gallery (NewOpenLibraryProvider [] []) k n = (Inr \<lparr>c_ContentType = ''image/jpeg'',
      c_Bytes = ''x'', c_ETag = [], c_SourceURL = ol_cover_url (NewOpenLibraryProvider [] []) k\<rparr>, n + 1)" for k n
    by (simp add: ol_FetchCover_def ol_get_def get StatusOK_def StatusNotFound_def read_limited_def
        NewOpenLibraryProvider_def)
  have url: "ol_cover_url (NewOpenLibraryProvider [] []) ''9782070368224''
      = ''https://covers.openlibrary.org/b/isbn/9782070368224-L.jpg?default=false''"
    by (simp add: ol_cover_url_def NewOpenLibraryProvider_def defaultCoversBase_def TrimRight_def
        PathEscape_def unreserved_def)
  show ?thesis
    by (subst pg_enriched_by_either)
       (simp_all add: l c url pg_text_ascii fits_def wired_def fb_Lookup_def fb_FetchCover_def
          ol_metadata_def int4_def metadata_texts_def cover_texts_def)
qed

text \<open>
  C38: an outage of Open Library is reported as the absence of a record: when its three
  attempts fail in any way and Google Books answers that it has no such volume, the wired
  providers answer \<open>ErrNotFound\<close>, for the metadata and for the cover alike, which the worker
  takes for "no record upstream".
\<close>
theorem outage_reads_as_not_found:
  assumes "transient a1" "transient a2" "transient a3" "StatusCode r = 200"
    and "G r = Inr pl" "TotalItems pl = 0"
  shows "net_Lookup (wired scripted J G olBase olCovers gbBase gbKey) k (a1 # a2 # a3 # Inr r # as)
       = (Inl (Sentinel EditionNotFound), as)
    \<and> net_FetchCover (wired scripted J G olBase olCovers gbBase gbKey) k (a1 # a2 # a3 # Inr r # as)
       = (Inl (Sentinel EditionNotFound), as)"
proof -
  have down: "httpGetWithRetry scripted u ag (a1 # a2 # a3 # as') =
      (Inl (Wrap ''request failed after 3 attempts'' (attempt_error a3)), as')" for u ag as'
    using assms(1-3) by (simp add: retry_simps scripted_def)
  have up: "httpGetWithRetry scripted u ag (Inr r # as) = (Inr r, as)" for u ag
    using assms(4) by (simp add: retry_simps scripted_def transient_def StatusTooManyRequests_def)
  have "lookupVolume scripted G p k (Inr r # as) = (Inl (Sentinel EditionNotFound), as)" for p
    using assms(4-6) by (simp add: lookupVolume_def up StatusOK_def)
  then show ?thesis
    by (simp add: wired_def fb_Lookup_def fb_FetchCover_def ol_Lookup_def ol_FetchCover_def ol_get_def
        down gb_Lookup_def gb_FetchCover_def Let_def)
qed

theorem outage_reads_as_not_found_witness:
  "fst (net_Lookup (wired scripted gallery_json no_volumes [] [] [] []) ''9782070368224''
     (replicate 3 (Inl (Opaque ''no route to host''))
       @ [Inr \<lparr>StatusCode = 200, Header = (\<lambda>k. []), body_bytes = [], body_error = None\<rparr>]))
   = Inl (Sentinel EditionNotFound)"
  using outage_reads_as_not_found [of "Inl (Opaque ''no route to host'')" "Inl (Opaque ''no route to host'')"
      "Inl (Opaque ''no route to host'')" "\<lparr>StatusCode = 200, Header = (\<lambda>k. []), body_bytes = [], body_error = None\<rparr>"
      no_volumes "\<lparr>TotalItems = 0, Items = []\<rparr>" gallery_json "[]" "[]" "[]" "[]" "''9782070368224''" "[]"]
  by (simp add: transient_def no_volumes_def numeral_eq_Suc)

section \<open>From a suggestion to a book\<close>

text \<open>
  A suggestion may be one that creating a book refuses. A work whose only identifier is
  an ASIN (ten characters, not an ISBN) is suggested with it, and posting that suggestion is
  answered 422, on every store.
\<close>
theorem suggestion_refused:
  "map r_ISBN (ol_results U [\<lparr>doc_Title = t, doc_AuthorName = as, doc_FirstPublishYear = y,
      doc_Publisher = ps, doc_ISBN = [''B000FA5ZEG'']\<rparr>]) = [''B000FA5ZEG'']
   \<and> fst (h_create R enq rt (Some \<lparr>Subject = ''ann'', Username = n, Groups = gs\<rparr>)
        (body\<lparr>w_ISBN := ''B000FA5ZEG''\<rparr>) sv) = Inl (error_422 ErrInvalidISBN_text)"
proof -
  have up: "ToUpper V ''B000FA5ZEG'' = ''B000FA5ZEG''" for V
    by (subst ToUpper_eq_ascii) (simp_all add: upper_rune_def)
  have strip: "stripISBNSeparators ''B000FA5ZEG'' = ''B000FA5ZEG''"
    unfolding stripISBNSeparators_def strings_Map_def
    by (subst encode_runes_eq_ascii) (simp_all add: isbn_separator_def List.map_filter_simps)
  have "pickISBN U [''B000FA5ZEG''] = ''B000FA5ZEG''"
    by (simp add: pickISBN_def ol_normal_def up isbn13_def Let_def)
  moreover have "canonicalISBN V ''B000FA5ZEG'' = Inl (Sentinel InvalidISBN)" for V
    by (simp add: canonicalISBN_def strip up Let_def isbnShape_def is_digit_byte)
  ultimately show ?thesis
    by (simp add: ol_result_def Let_def h_create_def requireUser_def FromContext_def isbnFromInput_def)
qed

end
