(* ===== verification/Api.thy ===== *)
theory Api
  imports Search
begin

text \<open>
  The HTTP surface: the operations \<open>Register\<close> declares (\<open>internal/books/handlers.go\<close>,
  \<open>internal/search/handlers.go\<close>), the routing of a request to one of them as
  \<open>http.ServeMux\<close> does it, and the validation the tags of the input structs declare
  (\<open>BookWrite\<close>, \<open>BookPatch\<close>, \<open>searchInput\<close>). Summaries and descriptions, which only the
  OpenAPI document shows, are left out.
\<close>

section \<open>Operations\<close>

datatype endpoint =
    ToCreate | ToList | ToGet | ToUpdate | ToDelete | ToCover | ToRefresh | ToSearch

datatype middleware = AuthMW

text \<open>\<open>huma.Operation\<close> with the handler it is registered with; an unset status is 0.\<close>

record operation =
  op_OperationID :: string
  op_Method :: string
  op_Path :: string
  op_Tags :: "string list"
  op_DefaultStatus :: nat
  op_Errors :: "nat list"
  op_Security :: "string list"
  op_Middlewares :: "middleware list"
  op_handler :: endpoint

definition book_operation :: operation where
  "book_operation = \<lparr>op_OperationID = [], op_Method = [], op_Path = [], op_Tags = [''books''],
     op_DefaultStatus = 0, op_Errors = [], op_Security = [''bearer''], op_Middlewares = [AuthMW],
     op_handler = ToList\<rparr>"

definition book_operations :: "operation list" where
  "book_operations =
    [book_operation\<lparr>op_OperationID := ''create-book'', op_Method := ''POST'', op_Path := ''/books'',
       op_DefaultStatus := 201, op_Errors := [422], op_handler := ToCreate\<rparr>,
     book_operation\<lparr>op_OperationID := ''list-books'', op_Method := ''GET'', op_Path := ''/books'',
       op_handler := ToList\<rparr>,
     book_operation\<lparr>op_OperationID := ''get-book'', op_Method := ''GET'', op_Path := ''/books/{id}'',
       op_Errors := [404], op_handler := ToGet\<rparr>,
     book_operation\<lparr>op_OperationID := ''update-book'', op_Method := ''PATCH'', op_Path := ''/books/{id}'',
       op_Errors := [404, 422], op_handler := ToUpdate\<rparr>,
     book_operation\<lparr>op_OperationID := ''delete-book'', op_Method := ''DELETE'', op_Path := ''/books/{id}'',
       op_DefaultStatus := 204, op_Errors := [404], op_handler := ToDelete\<rparr>,
     book_operation\<lparr>op_OperationID := ''get-book-cover'', op_Method := ''GET'', op_Path := ''/books/{id}/cover'',
       op_Errors := [404], op_handler := ToCover\<rparr>,
     book_operation\<lparr>op_OperationID := ''refresh-book'', op_Method := ''POST'', op_Path := ''/books/{id}/refresh'',
       op_DefaultStatus := 202, op_Errors := [404, 422], op_handler := ToRefresh\<rparr>]"

definition search_operation :: operation where
  "search_operation = \<lparr>op_OperationID = ''search-editions'', op_Method = ''GET'', op_Path = ''/search'',
     op_Tags = [''search''], op_DefaultStatus = 0, op_Errors = [422, 502, 503, 504],
     op_Security = [''bearer''], op_Middlewares = [AuthMW], op_handler = ToSearch\<rparr>"

text \<open>The security schemes \<open>newAPI\<close> declares: type, scheme and bearer format.\<close>

definition security_schemes :: "string \<rightharpoonup> string \<times> string \<times> string" where
  "security_schemes = [''bearer'' \<mapsto> (''http'', ''bearer'', ''JWT'')]"

text \<open>Huma answers 200 when the operation with a body names no other status.\<close>

definition success_status :: "operation \<Rightarrow> nat" where
  "success_status op = (if op_DefaultStatus op = 0 then 200 else op_DefaultStatus op)"

section \<open>Routing\<close>

datatype segment = Lit string | Wild string

definition segment_of :: "string \<Rightarrow> segment" where
  "segment_of s = (if s \<noteq> [] \<and> hd s = CHR ''{'' then Wild (butlast (tl s)) else Lit s)"

text \<open>The segments of a path or of a pattern, both of which start with a slash.\<close>

definition path_segments :: "string \<Rightarrow> string list" where
  "path_segments p = tl (split_at (CHR ''/'') p)"

text \<open>
  A pattern matches segment by segment, after unescaping; a wildcard takes any one segment that
  is not empty. The result is the values of the wildcards.
\<close>

fun match_segments :: "segment list \<Rightarrow> string list \<Rightarrow> string list option" where
  "match_segments [] [] = Some []"
| "match_segments (Lit l # ps) (s # ss) =
     (if PathUnescape s = l then match_segments ps ss else None)"
| "match_segments (Wild w # ps) (s # ss) =
     (if s = [] then None else map_option ((#) (PathUnescape s)) (match_segments ps ss))"
| "match_segments _ _ = None"

definition method_matches :: "string \<Rightarrow> string \<Rightarrow> bool" where
  "method_matches m pattern \<longleftrightarrow> m = pattern \<or> m = ''HEAD'' \<and> pattern = ''GET''"

text \<open>The mux redirects a path that is not clean instead of routing it.\<close>

definition clean_path :: "string \<Rightarrow> bool" where
  "clean_path p \<longleftrightarrow> p \<noteq> [] \<and> hd p = CHR ''/''
     \<and> [] \<notin> set (butlast (path_segments p)) \<and> set (path_segments p) \<inter> {''.'', ''..''} = {}"

datatype destination = Registered operation | Healthz | Documentation

record route =
  rt_Method :: string
  rt_Pattern :: string
  rt_To :: destination

definition route_match :: "string \<Rightarrow> string \<Rightarrow> route \<Rightarrow> string list option" where
  "route_match m p r =
     (if clean_path p \<and> method_matches m (rt_Method r)
      then match_segments (map segment_of (path_segments (rt_Pattern r))) (path_segments p)
      else None)"

fun dispatch :: "route list \<Rightarrow> string \<Rightarrow> string \<Rightarrow> (destination \<times> string list) option" where
  "dispatch [] m p = None"
| "dispatch (r # rs) m p =
     (case route_match m p r of Some vs \<Rightarrow> Some (rt_To r, vs) | None \<Rightarrow> dispatch rs m p)"

definition register :: "operation list \<Rightarrow> route list" where
  "register ops = map (\<lambda>op. \<lparr>rt_Method = op_Method op, rt_Pattern = op_Path op, rt_To = Registered op\<rparr>) ops"

text \<open>The program's own routes: the registered operations and the health check.\<close>

definition routes :: "route list" where
  "routes = register book_operations @ register [search_operation]
     @ [\<lparr>rt_Method = ''GET'', rt_Pattern = ''/healthz'', rt_To = Healthz\<rparr>]"

text \<open>
  The whole mux. \<open>newAPI\<close> also puts Huma's documentation (the pages under \<open>/docs\<close>, the OpenAPI
  document, the schemas) on it; which patterns these are is the library's, a parameter here.
\<close>

definition doc_routes :: "(string \<times> string) list \<Rightarrow> route list" where
  "doc_routes docs = map (\<lambda>(m, pat). \<lparr>rt_Method = m, rt_Pattern = pat, rt_To = Documentation\<rparr>) docs"

definition mux :: "(string \<times> string) list \<Rightarrow> route list" where
  "mux docs = doc_routes docs @ routes"

section \<open>Validation\<close>

text \<open>The fields of a JSON body that are present.\<close>

record book_json =
  j_isbn :: "string option"
  j_title :: "string option"
  j_author :: "string option"
  j_status :: "string option"
  j_rating :: "int option"
  j_opinion :: "string option"
  j_tags :: "string list option"

text \<open>The lengths of the tags count characters.\<close>

definition runes_within :: "nat \<Rightarrow> nat \<Rightarrow> string \<Rightarrow> bool" where
  "runes_within lo hi s \<longleftrightarrow> lo \<le> length (runes s) \<and> length (runes s) \<le> hi"

definition status_enum :: "string list" where
  "status_enum = [StatusToRead, StatusReading, StatusRead]"

definition valid_write :: "book_json \<Rightarrow> bool" where
  "valid_write j \<longleftrightarrow>
     j_isbn j \<noteq> None \<and> pred_option (runes_within 10 17) (j_isbn j)
   \<and> pred_option (runes_within 0 500) (j_title j) \<and> pred_option (runes_within 0 500) (j_author j)
   \<and> pred_option (\<lambda>s. s \<in> set status_enum) (j_status j)
   \<and> pred_option (\<lambda>n. 0 \<le> n \<and> n \<le> 5) (j_rating j)"

definition valid_patch :: "book_json \<Rightarrow> bool" where
  "valid_patch j \<longleftrightarrow>
     pred_option (runes_within 10 17) (j_isbn j)
   \<and> pred_option (runes_within 1 500) (j_title j) \<and> pred_option (runes_within 1 500) (j_author j)
   \<and> pred_option (\<lambda>s. s \<in> set status_enum) (j_status j)
   \<and> pred_option (\<lambda>n. 0 \<le> n \<and> n \<le> 5) (j_rating j)"

text \<open>Decoding: an absent field of \<open>BookWrite\<close> is the zero value, of \<open>BookPatch\<close> the nil pointer.\<close>

definition decode_write :: "book_json \<Rightarrow> book_write" where
  "decode_write j = \<lparr>w_ISBN = strDeref (j_isbn j), w_Title = strDeref (j_title j),
     w_Author = strDeref (j_author j), w_Status = strDeref (j_status j),
     w_Rating = (case j_rating j of None \<Rightarrow> 0 | Some n \<Rightarrow> n), w_Opinion = strDeref (j_opinion j),
     w_Tags = (case j_tags j of None \<Rightarrow> [] | Some ts \<Rightarrow> ts)\<rparr>"

definition decode_patch :: "book_json \<Rightarrow> book_patch" where
  "decode_patch j = \<lparr>p_ISBN = j_isbn j, p_Title = j_title j, p_Author = j_author j,
     p_Status = j_status j, p_Rating = j_rating j, p_Opinion = j_opinion j, p_Tags = j_tags j\<rparr>"

text \<open>
  A request as it reaches the mux: the escaped path, the Authorization header, the body as far
  as it decodes, the query parameters. A limit that is no number is refused as one of 0 is.
\<close>

record http_request =
  hr_Method :: string
  hr_Path :: string
  hr_Authorization :: string
  hr_Body :: "book_json option"
  hr_q :: "string option"
  hr_limit :: "int option"

record search_input =
  Q :: string
  Limit :: int

definition valid_search :: "search_input \<Rightarrow> bool" where
  "valid_search i \<longleftrightarrow> runes_within 3 200 (Q i) \<and> 1 \<le> Limit i \<and> Limit i \<le> 25"

definition decode_search :: "http_request \<Rightarrow> search_input option" where
  "decode_search r =
     (case hr_q r of
        None \<Rightarrow> None
      | Some q \<Rightarrow>
          (let i = \<lparr>Q = q, Limit = (case hr_limit r of None \<Rightarrow> 10 | Some l \<Rightarrow> l)\<rparr>
           in if valid_search i then Some i else None))"

text \<open>What a handler is called with, \<open>None\<close> when validation refuses the request.\<close>

datatype call_input = BookCall request | SearchCall search_input

definition decode_input :: "endpoint \<Rightarrow> string list \<Rightarrow> http_request \<Rightarrow> call_input option" where
  "decode_input e vs r =
     (case e of
        ToCreate \<Rightarrow> (case hr_Body r of
            None \<Rightarrow> None
          | Some j \<Rightarrow> if valid_write j then Some (BookCall (CreateBook (decode_write j))) else None)
      | ToList \<Rightarrow> Some (BookCall ListTheBooks)
      | ToGet \<Rightarrow> Some (BookCall (GetBook (hd vs)))
      | ToUpdate \<Rightarrow> (case hr_Body r of
            None \<Rightarrow> None
          | Some j \<Rightarrow> if valid_patch j then Some (BookCall (UpdateBook (hd vs) (decode_patch j))) else None)
      | ToDelete \<Rightarrow> Some (BookCall (DeleteBook (hd vs)))
      | ToCover \<Rightarrow> Some (BookCall (GetCover (hd vs)))
      | ToRefresh \<Rightarrow> Some (BookCall (RefreshBook (hd vs)))
      | ToSearch \<Rightarrow> map_option SearchCall (decode_search r))"

section \<open>The table of routes\<close>

lemma pattern_segments:
  "map segment_of (path_segments ''/books'') = [Lit ''books'']"
  "map segment_of (path_segments ''/books/{id}'') = [Lit ''books'', Wild ''id'']"
  "map segment_of (path_segments ''/books/{id}/cover'') = [Lit ''books'', Wild ''id'', Lit ''cover'']"
  "map segment_of (path_segments ''/books/{id}/refresh'') = [Lit ''books'', Wild ''id'', Lit ''refresh'']"
  "map segment_of (path_segments ''/search'') = [Lit ''search'']"
  "map segment_of (path_segments ''/healthz'') = [Lit ''healthz'']"
  by (simp_all add: path_segments_def segment_of_def)

lemmas route_table = routes_def register_def book_operations_def search_operation_def book_operation_def

definition route_row :: "route \<Rightarrow> string \<times> segment list" where
  "route_row r = (rt_Method r, map segment_of (path_segments (rt_Pattern r)))"

definition route_rows :: "(string \<times> segment list) list" where
  "route_rows = [(''POST'', [Lit ''books'']), (''GET'', [Lit ''books'']), (''GET'', [Lit ''books'', Wild ''id'']),
     (''PATCH'', [Lit ''books'', Wild ''id'']), (''DELETE'', [Lit ''books'', Wild ''id'']),
     (''GET'', [Lit ''books'', Wild ''id'', Lit ''cover'']), (''POST'', [Lit ''books'', Wild ''id'', Lit ''refresh'']),
     (''GET'', [Lit ''search'']), (''GET'', [Lit ''healthz''])]"

lemma route_rows: "map route_row routes = route_rows"
  by (simp add: route_table route_row_def route_rows_def pattern_segments)

lemma match_some:
  "match_segments [] ss = Some vs \<longleftrightarrow> ss = [] \<and> vs = []"
  "match_segments (Lit l # ps) ss = Some vs \<longleftrightarrow>
     (\<exists>s t. ss = s # t \<and> PathUnescape s = l \<and> match_segments ps t = Some vs)"
  "match_segments (Wild w # ps) ss = Some vs \<longleftrightarrow>
     (\<exists>s t us. ss = s # t \<and> s \<noteq> [] \<and> vs = PathUnescape s # us \<and> match_segments ps t = Some us)"
  by (cases ss; auto)+

lemma dispatch_some:
  "dispatch rs m p = Some (d, vs) \<Longrightarrow> \<exists>r \<in> set rs. rt_To r = d \<and> route_match m p r = Some vs"
  by (induction rs) (auto split: option.splits)

lemma match_length: "match_segments ps ss = Some vs \<Longrightarrow> length ss = length ps"
  by (induction ps ss arbitrary: vs rule: match_segments.induct) (auto split: if_splits)

definition cover_operation :: operation where
  "cover_operation = book_operation\<lparr>op_OperationID := ''get-book-cover'', op_Method := ''GET'',
     op_Path := ''/books/{id}/cover'', op_Errors := [404], op_handler := ToCover\<rparr>"

text \<open>The characters of a UUID in its text form.\<close>

definition uuid_text :: "string \<Rightarrow> bool" where
  "uuid_text i \<longleftrightarrow> i \<noteq> [] \<and> list_all (\<lambda>c. is_digit c \<or> c \<in> set ''abcdef-'') i"

lemma uuid_plain:
  assumes "uuid_text i"
  shows "CHR ''/'' \<notin> set i" "PathUnescape i = i" "i \<noteq> []" "i \<noteq> ''.''" "i \<noteq> ''..''"
proof -
  have chars: "is_digit c \<or> c \<in> set ''abcdef-''" if "c \<in> set i" for c
    using assms that by (auto simp: uuid_text_def list_all_iff)
  show "CHR ''/'' \<notin> set i" "i \<noteq> ''.''" "i \<noteq> ''..''" "i \<noteq> []"
    using chars [of "CHR ''/''"] chars [of "CHR ''.''"] assms
    by (auto simp: is_digit_byte uuid_text_def)
  have "CHR ''%'' \<notin> set i" "CHR ''+'' \<notin> set i"
    using chars [of "CHR ''%''"] chars [of "CHR ''+''"] by (auto simp: is_digit_byte)
  then have "\<forall>c \<in> set i. c \<noteq> CHR ''%'' \<and> c \<noteq> CHR ''+''" by metis
  then show "PathUnescape i = i" using unescape_literal [of i False "[]"] by simp
qed

lemma cover_path:
  assumes "CHR ''/'' \<notin> set i"
  shows "path_segments (''/books/'' @ i @ ''/cover'') = [''books'', i, ''cover'']"
proof -
  have "split_at (CHR ''/'') (i @ CHR ''/'' # ''cover'') = [i, ''cover'']"
    by (simp add: split_at_sep [OF assms])
  then show ?thesis by (simp add: path_segments_def)
qed

lemma cover_dispatch:
  assumes "uuid_text i"
  shows "dispatch routes ''GET'' (''/books/'' @ i @ ''/cover'') = Some (Registered cover_operation, [i])"
proof -
  let ?p = "''/books/'' @ i @ ''/cover''"
  have path: "path_segments ?p = [''books'', i, ''cover'']" "clean_path ?p"
    using uuid_plain [OF assms] cover_path by (simp_all add: clean_path_def del: append_Cons)
  define p where "p = ?p"
  show ?thesis unfolding p_def [symmetric]
    using path [folded p_def] uuid_plain [OF assms]
    by (simp add: route_table route_match_def method_matches_def pattern_segments cover_operation_def)
qed

definition get_operation :: operation where
  "get_operation = book_operation\<lparr>op_OperationID := ''get-book'', op_Method := ''GET'',
     op_Path := ''/books/{id}'', op_Errors := [404], op_handler := ToGet\<rparr>"

lemma get_dispatch:
  assumes "uuid_text i"
  shows "dispatch routes ''GET'' (''/books/'' @ i) = Some (Registered get_operation, [i])"
proof -
  let ?p = "''/books/'' @ i"
  have "path_segments ?p = [''books'', i]"
    using uuid_plain(1) [OF assms] by (simp add: path_segments_def split_at_none)
  then have path: "path_segments ?p = [''books'', i]" "clean_path ?p"
    using uuid_plain [OF assms] by (simp_all add: clean_path_def del: append_Cons)
  define p where "p = ?p"
  show ?thesis unfolding p_def [symmetric]
    using path [folded p_def] uuid_plain [OF assms]
    by (simp add: route_table route_match_def method_matches_def pattern_segments get_operation_def)
qed

text \<open>Every route leads to the health check or to an operation behind the middleware.\<close>

lemma dispatch_guarded:
  assumes "dispatch routes m p = Some (d, vs)"
  shows "d = Healthz \<and> vs = [] \<or> (\<exists>op. d = Registered op \<and> op \<in> set book_operations \<union> {search_operation}
    \<and> AuthMW \<in> set (op_Middlewares op) \<and> set (op_Security op) \<subseteq> dom security_schemes)"
proof -
  obtain r where r: "r \<in> set routes" "rt_To r = d" "route_match m p r = Some vs"
    using dispatch_some [OF assms] by blast
  have ops: "op \<in> set book_operations \<union> {search_operation} \<Longrightarrow>
      AuthMW \<in> set (op_Middlewares op) \<and> set (op_Security op) \<subseteq> dom security_schemes" for op
    by (auto simp: route_table security_schemes_def)
  have reg: "(\<exists>op. d = Registered op \<and> op \<in> set book_operations \<union> {search_operation})
      \<or> d = Healthz \<and> rt_Pattern r = ''/healthz''"
    using r(1,2) by (auto simp: routes_def register_def)
  then show ?thesis using ops r(3)
    by (auto simp: route_match_def pattern_segments match_some split: if_splits)
qed

text \<open>
  The documentation does not take paths of the program: each pattern starts with a fixed
  segment that none of the program's routes starts with.
\<close>

definition documentation_apart :: "(string \<times> string) list \<Rightarrow> bool" where
  "documentation_apart docs \<longleftrightarrow> list_all (\<lambda>(m, pat). case map segment_of (path_segments pat) of
     Lit l # ps \<Rightarrow> l \<notin> {''books'', ''search'', ''healthz''} | _ \<Rightarrow> False) docs"

lemma match_first:
  assumes "route_match m p r \<noteq> None" "map segment_of (path_segments (rt_Pattern r)) = Lit l # ps"
  shows "\<exists>s t. path_segments p = s # t \<and> PathUnescape s = l"
  using assms by (auto simp: route_match_def match_some split: if_splits)

lemma own_first:
  "r \<in> set routes \<Longrightarrow> \<exists>l ps. map segment_of (path_segments (rt_Pattern r)) = Lit l # ps
     \<and> l \<in> {''books'', ''search'', ''healthz''}"
  by (auto simp: route_table pattern_segments)

lemma doc_first:
  assumes "documentation_apart docs" "r \<in> set (doc_routes docs)"
  shows "\<exists>l ps. map segment_of (path_segments (rt_Pattern r)) = Lit l # ps
     \<and> l \<notin> {''books'', ''search'', ''healthz''}"
proof -
  obtain m pat where pat: "(m, pat) \<in> set docs" "rt_Pattern r = pat" using assms(2) by (auto simp: doc_routes_def)
  then have "case map segment_of (path_segments pat) of
      Lit l # ps \<Rightarrow> l \<notin> {''books'', ''search'', ''healthz''} | _ \<Rightarrow> False"
    using assms(1) unfolding documentation_apart_def list_all_iff by blast
  then show ?thesis unfolding pat(2) by (simp split: list.splits segment.splits)
qed

lemma own_or_doc:
  assumes "documentation_apart docs" "r \<in> set routes" "route_match m p r \<noteq> None" "r' \<in> set (doc_routes docs)"
  shows "route_match m p r' = None"
proof (rule ccontr)
  assume "route_match m p r' \<noteq> None"
  then show False
    using own_first [OF assms(2)] doc_first [OF assms(1,4)] match_first [OF assms(3)] match_first [of m p r'] by force
qed

lemma dispatch_append:
  "dispatch (rs @ rs') m p = (case dispatch rs m p of None \<Rightarrow> dispatch rs' m p | Some x \<Rightarrow> Some x)"
  by (induction rs) (auto split: option.split)

lemma dispatch_none: "dispatch rs m p = None \<longleftrightarrow> (\<forall>r \<in> set rs. route_match m p r = None)"
  by (induction rs) (auto split: option.split)

lemma doc_dispatch: "dispatch (doc_routes docs) m p = Some (d, vs) \<Longrightarrow> d = Documentation"
  by (auto simp: doc_routes_def dest!: dispatch_some)

lemma one_own_route: "length (filter (\<lambda>r. route_match m p r \<noteq> None) routes) \<le> 1"
proof -
  have long: "match_segments ps (a # b # c # e # t) = None" if "length ps \<le> 3" for ps a b c e t
    using match_length [of ps "a # b # c # e # t"] that by (cases "match_segments ps (a # b # c # e # t)") auto
  let ?hit = "\<lambda>(pm, ps). clean_path p \<and> method_matches m pm \<and> match_segments ps (path_segments p) \<noteq> None"
  have count: "length (filter P xs) = (\<Sum>x\<leftarrow>xs. if P x then 1 else 0)" for P and xs :: "'x list"
    by (induction xs) simp_all
  have "filter (\<lambda>r. route_match m p r \<noteq> None) routes = filter (?hit \<circ> route_row) routes"
    by (rule filter_cong) (auto simp: route_match_def route_row_def)
  then have rows: "length (filter (\<lambda>r. route_match m p r \<noteq> None) routes)
      = (\<Sum>x\<leftarrow>route_rows. if ?hit x then 1 else 0)"
    unfolding count [symmetric] by (simp only: route_rows [symmetric] filter_map length_map)
  consider "path_segments p = []" | a where "path_segments p = [a]" | a b where "path_segments p = [a, b]"
    | a b c where "path_segments p = [a, b, c]" | a b c e t where "path_segments p = a # b # c # e # t"
    by (metis neq_Nil_conv)
  then show ?thesis
    unfolding rows by cases (simp_all add: route_rows_def method_matches_def long)
qed

text \<open>
  C24: on the whole mux, with any documentation routes that do not take the program's paths, a
  request matches at most one of the program's own routes, and then none of the documentation:
  the order of registration does not matter. Whatever is not the public documentation, the
  public health check or unrouted is an operation that runs the authentication middleware
  first and whose security requirement is a declared scheme, and it is routed as it is without
  the documentation.
\<close>
theorem routes_unambiguous:
  assumes "documentation_apart docs"
  shows "length (filter (\<lambda>r. route_match m p r \<noteq> None) routes) \<le> 1
   \<and> filter (\<lambda>r. route_match m p r \<noteq> None) (mux docs)
       \<in> {filter (\<lambda>r. route_match m p r \<noteq> None) (doc_routes docs), filter (\<lambda>r. route_match m p r \<noteq> None) routes}
   \<and> dispatch (mux docs) m p \<in> {None, Some (Healthz, [])} \<union> {Some (Documentation, vs) |vs. dispatch routes m p = None}
       \<union> {Some (Registered op, vs) |op vs. dispatch routes m p = Some (Registered op, vs)
            \<and> AuthMW \<in> set (op_Middlewares op) \<and> set (op_Security op) \<subseteq> dom security_schemes}"
proof (intro conjI)
  show "length (filter (\<lambda>r. route_match m p r \<noteq> None) routes) \<le> 1" by (rule one_own_route)
  show "filter (\<lambda>r. route_match m p r \<noteq> None) (mux docs)
       \<in> {filter (\<lambda>r. route_match m p r \<noteq> None) (doc_routes docs), filter (\<lambda>r. route_match m p r \<noteq> None) routes}"
  proof (cases "\<exists>r \<in> set routes. route_match m p r \<noteq> None")
    case True
    then have "filter (\<lambda>r. route_match m p r \<noteq> None) (doc_routes docs) = []"
      using own_or_doc [OF assms, of _ m p] by (fastforce simp: filter_empty_conv)
    then show ?thesis by (simp add: mux_def)
  next
    case False
    then have "filter (\<lambda>r. route_match m p r \<noteq> None) routes = []" unfolding filter_empty_conv by blast
    then show ?thesis by (simp add: mux_def)
  qed
  show "dispatch (mux docs) m p \<in> {None, Some (Healthz, [])} \<union> {Some (Documentation, vs) |vs. dispatch routes m p = None}
       \<union> {Some (Registered op, vs) |op vs. dispatch routes m p = Some (Registered op, vs)
            \<and> AuthMW \<in> set (op_Middlewares op) \<and> set (op_Security op) \<subseteq> dom security_schemes}"
  proof (cases "dispatch (doc_routes docs) m p")
    case None
    then show ?thesis
      using dispatch_guarded [of m p] by (cases "dispatch routes m p") (auto simp: mux_def dispatch_append)
  next
    case (Some x)
    then have "\<not> (\<forall>r \<in> set (doc_routes docs). route_match m p r = None)"
      using dispatch_none [of "doc_routes docs" m p] by simp
    then have "\<forall>r' \<in> set routes. route_match m p r' = None" using own_or_doc [OF assms, of _ m p] by blast
    then have "dispatch routes m p = None" by (simp add: dispatch_none)
    then show ?thesis using Some doc_dispatch by (cases x) (auto simp: mux_def dispatch_append)
  qed
qed

text \<open>The documentation the README names.\<close>

definition readme_docs :: "(string \<times> string) list" where
  "readme_docs = [(''GET'', ''/docs''), (''GET'', ''/openapi.json''), (''GET'', ''/schemas/{schema}'')]"

theorem routes_unambiguous_witness:
  "length (filter (\<lambda>r. route_match ''GET'' ''/docs'' r \<noteq> None) (mux readme_docs)) = 1
   \<and> dispatch (mux readme_docs) ''GET'' ''/docs'' = Some (Documentation, [])"
proof -
  have pats: "map segment_of (path_segments ''/docs'') = [Lit ''docs'']"
    "map segment_of (path_segments ''/openapi.json'') = [Lit ''openapi.json'']"
    "map segment_of (path_segments ''/schemas/{schema}'') = [Lit ''schemas'', Wild ''schema'']"
    by (simp_all add: path_segments_def segment_of_def)
  have apart: "documentation_apart readme_docs" by (simp add: documentation_apart_def readme_docs_def pats)
  have seg: "path_segments ''/docs'' = [''docs'']" by (simp add: path_segments_def)
  have hit: "dispatch (doc_routes readme_docs) ''GET'' ''/docs'' = Some (Documentation, [])"
    "length (filter (\<lambda>r. route_match ''GET'' ''/docs'' r \<noteq> None) (doc_routes readme_docs)) = 1"
    by (simp_all add: doc_routes_def readme_docs_def route_match_def method_matches_def pats seg clean_path_def
        segment_of_def)
  then have d: "dispatch (mux readme_docs) ''GET'' ''/docs'' = Some (Documentation, [])"
    by (simp add: mux_def dispatch_append)
  note all = routes_unambiguous [OF apart, of "''GET''" "''/docs''"]
  have "dispatch routes ''GET'' ''/docs'' = None" using all d by auto
  then have "filter (\<lambda>r. route_match ''GET'' ''/docs'' r \<noteq> None) routes = []"
    by (simp add: dispatch_none filter_empty_conv)
  then show ?thesis using hit d by (simp add: mux_def)
qed

end
