(* ===== verification/Server.thy ===== *)
theory Server
  imports Search_Service Sourcing Api
begin

text \<open>
  The program as \<open>cmd/api/main.go\<close> puts it together: the backend, the providers, the worker,
  the authentication and the handlers chosen by the environment, and the requests the result
  serves; with the migrations it applies (\<open>migrations/embed.go\<close>, \<open>Migrate\<close> in
  \<open>internal/books/store_postgres.go\<close>). A fatal configuration error (\<open>os.Exit(1)\<close> after a log
  line) is the left case of a sum with the line. The shutdown is in the theory \<open>Lifecycle\<close>.
\<close>

section \<open>Migrations\<close>

record migration =
  mig_Name :: string
  mig_SQL :: string

text \<open>
  The embedded files: the names the file system lists and their contents. Both calls can fail
  in the interface of the library.
\<close>

record embedded =
  glob :: "go_error + string list"
  ReadFile :: "string \<Rightarrow> go_error + string"

fun read_all :: "embedded \<Rightarrow> string list \<Rightarrow> go_error + migration list" where
  "read_all F [] = Inr []"
| "read_all F (name # names) =
     (case ReadFile F name of
        Inl err \<Rightarrow> Inl err
      | Inr sql \<Rightarrow>
          (case read_all F names of
             Inl err \<Rightarrow> Inl err
           | Inr out \<Rightarrow> Inr (\<lparr>mig_Name = name, mig_SQL = sql\<rparr> # out)))"

definition All :: "embedded \<Rightarrow> go_error + migration list" where
  "All F = (case glob F of Inl err \<Rightarrow> Inl err | Inr names \<Rightarrow> read_all F (sort names))"

text \<open>What a script does to a database is Postgres's: it is the argument \<open>exec\<close>.\<close>

fun apply_all ::
  "(string \<Rightarrow> 'd \<Rightarrow> go_error option \<times> 'd) \<Rightarrow> migration list \<Rightarrow> 'd \<Rightarrow> go_error option \<times> 'd" where
  "apply_all exec [] d = (None, d)"
| "apply_all exec (m # ms) d =
     (case exec (mig_SQL m) d of
        (Some err, d1) \<Rightarrow> (Some (Wrap (''apply migration '' @ mig_Name m) err), d1)
      | (None, d1) \<Rightarrow> apply_all exec ms d1)"

definition Migrate ::
  "(string \<Rightarrow> 'd \<Rightarrow> go_error option \<times> 'd) \<Rightarrow> embedded \<Rightarrow> 'd \<Rightarrow> go_error option \<times> 'd" where
  "Migrate exec F d =
     (case All F of
        Inl err \<Rightarrow> (Some (Wrap ''load migrations'' err), d)
      | Inr ms \<Rightarrow> apply_all exec ms d)"

section \<open>The environment and the outside world\<close>

type_synonym env = "string \<Rightarrow> string"

text \<open>The third-party constructors: the connection pool, OIDC discovery, script execution.\<close>

record outside =
  connect :: "string \<Rightarrow> go_error + database"
  discover :: "string \<Rightarrow> go_error + (string \<Rightarrow> string \<Rightarrow> go_error + token)"
  exec_script :: "string \<Rightarrow> database \<Rightarrow> go_error option \<times> database"
  migration_files :: embedded

datatype backend = InMemory memory_store | Postgres database

definition newStore :: "env \<Rightarrow> outside \<Rightarrow> string + backend" where
  "newStore Getenv X =
     (if Getenv ''STORE'' \<noteq> ''postgres'' then Inr (InMemory NewMemoryStore)
      else
        (let dsn = Getenv ''DATABASE_URL''
         in if dsn = [] then Inl ''STORE=postgres requires DATABASE_URL''
            else case connect X dsn of
                Inl err \<Rightarrow> Inl ''connect to postgres''
              | Inr pool \<Rightarrow>
                  (case Migrate (exec_script X) (migration_files X) pool of
                     (Some err, d) \<Rightarrow> Inl ''run migrations''
                   | (None, d) \<Rightarrow> Inr (Postgres d))))"

section \<open>Enrichment\<close>

definition noop_Enqueue :: "string \<Rightarrow> 'w \<Rightarrow> 'w" where
  "noop_Enqueue k w = w"

text \<open>Without a worker there is only the enqueuer that discards.\<close>

definition newEnricher :: "env \<Rightarrow> worker option" where
  "newEnricher Getenv =
     (if Getenv ''ENRICH_DISABLED'' = ''true'' then None
      else Some (NewWorker \<lparr>Workers = 0, QueueSize = 0, SweepEvery = 0\<rparr>))"

definition enricher_Enqueue :: "string \<Rightarrow> worker option \<Rightarrow> worker option" where
  "enricher_Enqueue k e = (case e of None \<Rightarrow> noop_Enqueue k None | Some w \<Rightarrow> Some (Enqueue k w))"

definition scheduled :: "worker option \<Rightarrow> string set" where
  "scheduled e = (case e of None \<Rightarrow> {} | Some w \<Rightarrow> inFlight w)"

definition enricher_ok :: "worker option \<Rightarrow> bool" where
  "enricher_ok e = (case e of None \<Rightarrow> True | Some w \<Rightarrow> queue_ok w)"

context enqueuer_contract
begin

text \<open>A request keeps the state behind the enqueuer sound, whatever the store does.\<close>

lemma enqueue_sound: "sound (queue sv) \<Longrightarrow> sound (queue (enqueueEnrichment R enq k sv))"
  by (auto simp: enqueueEnrichment_def enq_sound split: prod.split sum.split)

lemma handle_sound:
  assumes "sound (queue sv)"
  shows "sound (queue (snd (handle R enq ks rt ctx req sv)))"
proof (cases req)
  case (CreateBook w)
  then show ?thesis using assms
    by (auto simp: handle_def h_create_def Let_def enqueue_sound split: prod.split sum.split)
next
  case (UpdateBook i p)
  then show ?thesis using assms
    by (auto simp: handle_def h_update_def Let_def enqueue_sound split: prod.split sum.split)
next
  case (RefreshBook i)
  then show ?thesis using assms
    by (auto simp: handle_def h_refresh_def Let_def enq_sound split: prod.split sum.split)
qed (use assms in \<open>auto simp: handle_def h_list_def h_get_def h_delete_def h_cover_def
       split: prod.split sum.split\<close>)

end

interpretation eq: enqueuer_contract enricher_Enqueue scheduled enricher_ok
  by unfold_locales
     (auto simp: enricher_Enqueue_def scheduled_def enricher_ok_def noop_Enqueue_def
       dest: wq.enq_sound wq.enq_keeps wq.enq_only split: option.splits)

section \<open>Authentication\<close>

definition newAuthMiddleware ::
  "env \<Rightarrow> outside \<Rightarrow> string + (string \<Rightarrow> (request_context \<Rightarrow> 'r) \<Rightarrow> nat + 'r)" where
  "newAuthMiddleware Getenv X =
     (let requiredGroup = Getenv ''OIDC_REQUIRED_GROUP''
      in if Getenv ''AUTH_DISABLED'' = ''true''
         then Inr (StaticHumaMiddleware \<lparr>Subject = ''dev'', Username = ''dev'', Groups = [requiredGroup]\<rparr>)
         else
           (let issuer = Getenv ''OIDC_ISSUER''
            in if issuer = []
               then Inl ''OIDC_ISSUER is required (or set AUTH_DISABLED=true for local development)''
               else
                 (let audience = Getenv ''OIDC_AUDIENCE''
                  in case NewOIDCVerifier (discover X) issuer audience requiredGroup of
                       Inl err \<Rightarrow> Inl ''configure OIDC verifier''
                     | Inr verifier \<Rightarrow> Inr (NewHumaMiddleware verifier))))"

section \<open>The program\<close>

text \<open>
  The running program. The middleware is kept by what it does with the handler that returns
  its context: the status it writes, or the context it calls the next handler with.
\<close>

record 'n app =
  app_store :: backend
  app_worker :: "worker option"
  app_auth :: "string \<Rightarrow> nat + request_context"
  app_provider :: "'n net_provider"
  app_search :: "'n search_handler"
  app_addr :: string

definition listen_addr :: "env \<Rightarrow> string" where
  "listen_addr Getenv = (let v = Getenv ''ADDR'' in if v \<noteq> [] then v else '':8080'')"

definition main ::
  "unicode \<Rightarrow> (int option \<Rightarrow> 'n http) \<Rightarrow> ol_json \<Rightarrow> gb_json \<Rightarrow> outside \<Rightarrow> env \<Rightarrow> string + 'n app" where
  "main U net J G X Getenv =
     (case newStore Getenv X of
        Inl fatal \<Rightarrow> Inl fatal
      | Inr store \<Rightarrow>
          (let olProvider = NewOpenLibraryProvider (Getenv ''OPENLIBRARY_BASE_URL'') (Getenv ''OPENLIBRARY_COVERS_URL'');
               gbProvider = NewGoogleBooksProvider (Getenv ''GOOGLEBOOKS_BASE_URL'') (Getenv ''GOOGLEBOOKS_API_KEY'');
               provider = NewFallbackProvider (open_library (net None) J olProvider) (google_books (net None) G gbProvider);
               worker = newEnricher Getenv
           in case newAuthMiddleware Getenv X of
                Inl fatal \<Rightarrow> Inl fatal
              | Inr authMiddleware \<Rightarrow>
                  Inr \<lparr>app_store = store, app_worker = worker,
                    app_auth = (\<lambda>header. authMiddleware header (\<lambda>ctx. ctx)),
                    app_provider = fallback provider,
                    app_search = NewSearchHandler (Some (ol_searcher U net J olProvider)),
                    app_addr = listen_addr Getenv\<rparr>))"

section \<open>What the program serves\<close>

text \<open>A handler called with the context the middleware built.\<close>

definition run_handler ::
  "string list \<Rightarrow> runtime \<Rightarrow> request_context \<Rightarrow> request \<Rightarrow> 'n app \<Rightarrow> (api_error + response) \<times> 'n app" where
  "run_handler order rt ctx req a =
     (case app_store a of
        InMemory s \<Rightarrow>
          (case handle mem_repo enricher_Enqueue order rt ctx req \<lparr>db = s, queue = app_worker a\<rparr> of
             (r, sv) \<Rightarrow> (r, a\<lparr>app_store := InMemory (db sv), app_worker := queue sv\<rparr>))
      | Postgres d \<Rightarrow>
          (case handle pg_repo enricher_Enqueue order rt ctx req \<lparr>db = d, queue = app_worker a\<rparr> of
             (r, sv) \<Rightarrow> (r, a\<lparr>app_store := Postgres (db sv), app_worker := queue sv\<rparr>)))"

definition run_search ::
  "unicode \<Rightarrow> moment \<Rightarrow> request_context \<Rightarrow> search_input \<Rightarrow> 'n app \<times> 'n
     \<Rightarrow> (api_error + search_hit list) \<times> 'n app \<times> 'n" where
  "run_search U t ctx i an =
     (case an of (a, n) \<Rightarrow>
      case h_search U t ctx (Q i) (Limit i) (app_search a, n) of
        (r, (h, n1)) \<Rightarrow> (r, (a\<lparr>app_search := h\<rparr>, n1)))"

text \<open>
  The answer to a request. What is neither an operation nor the health check is left to the
  mux and to Huma's documentation pages; a request that validation refuses never reaches its
  handler.
\<close>

datatype http_reply =
    Elsewhere
  | Health nat string
  | Denied nat
  | Invalid
  | Failure api_error
  | Answer nat response
  | Hits nat "search_hit list"

text \<open>What is arbitrary about a request: the order of the books, clock and identifier, the search's clock.\<close>

record circumstances =
  books_order :: "string list"
  at_runtime :: runtime
  at_moment :: moment

definition run_operation ::
  "unicode \<Rightarrow> circumstances \<Rightarrow> operation \<Rightarrow> request_context \<Rightarrow> call_input \<Rightarrow> 'n app \<times> 'n
     \<Rightarrow> http_reply \<times> 'n app \<times> 'n" where
  "run_operation U cs op ctx input an =
     (case input of
        BookCall req \<Rightarrow>
          (case run_handler (books_order cs) (at_runtime cs) ctx req (fst an) of
             (Inl err, a1) \<Rightarrow> (Failure err, (a1, snd an))
           | (Inr resp, a1) \<Rightarrow> (Answer (success_status op) resp, (a1, snd an)))
      | SearchCall i \<Rightarrow>
          (case run_search U (at_moment cs) ctx i an of
             (Inl err, an1) \<Rightarrow> (Failure err, an1)
           | (Inr hs, an1) \<Rightarrow> (Hits (success_status op) hs, an1)))"

text \<open>
  An HTTP request to the mux. One without a route of the program is answered elsewhere: by the
  mux itself or, when it is for the documentation, by the Huma library.
\<close>

definition serve_http ::
  "unicode \<Rightarrow> circumstances \<Rightarrow> http_request \<Rightarrow> 'n app \<times> 'n \<Rightarrow> http_reply \<times> 'n app \<times> 'n" where
  "serve_http U cs r an =
     (case dispatch routes (hr_Method r) (hr_Path r) of
        None \<Rightarrow> (Elsewhere, an)
      | Some (Documentation, vs) \<Rightarrow> (Elsewhere, an)
      | Some (Healthz, vs) \<Rightarrow> (Health 200 ''ok'', an)
      | Some (Registered op, vs) \<Rightarrow>
          (case (if AuthMW \<in> set (op_Middlewares op) then app_auth (fst an) (hr_Authorization r) else Inr None) of
             Inl status \<Rightarrow> (Denied status, an)
           | Inr ctx \<Rightarrow>
               (case decode_input (op_handler op) vs r of
                  None \<Rightarrow> (Invalid, an)
                | Some input \<Rightarrow> run_operation U cs op ctx input an)))"

text \<open>One turn of a goroutine of the worker, and one sweep of the reconciler.\<close>

definition backend_process :: "provider \<Rightarrow> time \<Rightarrow> string \<Rightarrow> backend \<Rightarrow> backend" where
  "backend_process prov now k b =
     (case b of InMemory s \<Rightarrow> InMemory (process mem_repo prov now k s)
      | Postgres d \<Rightarrow> Postgres (process pg_repo prov now k d))"

definition work_off :: "time \<Rightarrow> 'n app \<times> 'n \<Rightarrow> 'n app" where
  "work_off now an =
     (case an of (a, n) \<Rightarrow>
      case app_worker a of
        None \<Rightarrow> a
      | Some w \<Rightarrow>
          (case chan w of
             [] \<Rightarrow> a
           | k # ks \<Rightarrow>
               a\<lparr>app_store := backend_process (observed (app_provider a) n) now k (app_store a),
                 app_worker := Some (unmarkInFlight k (w\<lparr>chan := ks\<rparr>))\<rparr>))"

definition sweep :: "string list \<Rightarrow> 'n app \<Rightarrow> 'n app" where
  "sweep order a =
     (case app_worker a of
        None \<Rightarrow> a
      | Some w \<Rightarrow>
          (case app_store a of
             InMemory s \<Rightarrow>
               (case reconcile mem_repo order (s, w) of
                  (s1, w1) \<Rightarrow> a\<lparr>app_store := InMemory s1, app_worker := Some w1\<rparr>)
           | Postgres d \<Rightarrow>
               (case reconcile pg_repo order (d, w) of
                  (d1, w1) \<Rightarrow> a\<lparr>app_store := Postgres d1, app_worker := Some w1\<rparr>)))"

section \<open>Migrations run in order\<close>

lemma read_all_readable:
  "(\<And>name. name \<in> set names \<Longrightarrow> ReadFile F name = Inr (content name)) \<Longrightarrow>
   read_all F names = Inr (map (\<lambda>name. \<lparr>mig_Name = name, mig_SQL = content name\<rparr>) names)"
  by (induction names) auto

lemma apply_all_prefix:
  "\<exists>ran left. ms = ran @ left
     \<and> snd (apply_all exec ms d) = fold (\<lambda>m d. snd (exec (mig_SQL m) d)) ran d
     \<and> (fst (apply_all exec ms d) = None \<longrightarrow> left = [])"
proof (induction ms arbitrary: d)
  case (Cons m ms)
  obtain e d1 where e: "exec (mig_SQL m) d = (e, d1)" by fastforce
  show ?case
  proof (cases e)
    case None
    obtain ran left where "ms = ran @ left"
      "snd (apply_all exec ms d1) = fold (\<lambda>m d. snd (exec (mig_SQL m) d)) ran d1"
      "fst (apply_all exec ms d1) = None \<longrightarrow> left = []"
      using Cons.IH by blast
    then show ?thesis using e None by (intro exI [of _ "m # ran"] exI [of _ left]) simp
  next
    case (Some err)
    then show ?thesis using e by (intro exI [of _ "[m]"] exI [of _ ms]) simp
  qed
qed simp

text \<open>
  C40: at startup the migrations run in the order of their file names, whatever order the file
  system lists them in, each at most once; the first that fails stops the run, and without a
  failure every file was applied.
\<close>
theorem migrations_in_order:
  assumes "glob F = Inr names" "\<And>name. name \<in> set names \<Longrightarrow> ReadFile F name = Inr (content name)"
  shows "\<exists>ran left. sort names = ran @ left
     \<and> snd (Migrate exec F d) = fold (\<lambda>name d. snd (exec (content name) d)) ran d
     \<and> (fst (Migrate exec F d) = None \<longrightarrow> left = [])"
proof -
  let ?mig = "\<lambda>name. \<lparr>mig_Name = name, mig_SQL = content name\<rparr>"
  have "All F = Inr (map ?mig (sort names))"
    using assms(1) read_all_readable [of "sort names" F content] assms(2) by (simp add: All_def)
  then have m: "Migrate exec F d = apply_all exec (map ?mig (sort names)) d" by (simp add: Migrate_def)
  obtain ran left where p: "map ?mig (sort names) = ran @ left"
    "snd (apply_all exec (map ?mig (sort names)) d) = fold (\<lambda>m d. snd (exec (mig_SQL m) d)) ran d"
    "fst (apply_all exec (map ?mig (sort names)) d) = None \<longrightarrow> left = []"
    using apply_all_prefix [of "map ?mig (sort names)" exec d] by (elim exE conjE) (rule that)
  obtain xs ys where "sort names = xs @ ys" "map ?mig xs = ran" "map ?mig ys = left"
    using p(1) by (auto simp: map_eq_append_conv)
  then show ?thesis
    using p(2,3) m by (intro exI [of _ xs] exI [of _ ys]) (auto simp: fold_map comp_def)
qed

definition two_files :: embedded where
  "two_files = \<lparr>glob = Inr [''0002.sql'', ''0001.sql''], ReadFile = (\<lambda>name. Inr (''-- '' @ name))\<rparr>"

theorem migrations_in_order_witness:
  "snd (Migrate (\<lambda>sql d. (None, d @ [sql])) two_files []) = [''-- 0001.sql'', ''-- 0002.sql'']"
proof -
  have s: "sort [''0002.sql'', ''0001.sql''] = [''0001.sql'', ''0002.sql'']" by (simp add: less_char_def)
  have "\<exists>ran left. sort [''0002.sql'', ''0001.sql''] = ran @ left
     \<and> snd (Migrate (\<lambda>sql d. (None, d @ [sql])) two_files [])
         = fold (\<lambda>name d. snd ((\<lambda>sql d. (None :: go_error option, d @ [sql])) (''-- '' @ name) d)) ran []
     \<and> (fst (Migrate (\<lambda>sql d. (None, d @ [sql])) two_files []) = None \<longrightarrow> left = [])"
    by (rule migrations_in_order) (simp_all add: two_files_def)
  moreover have "fst (Migrate (\<lambda>sql d. (None, d @ [sql])) two_files []) = None"
    by (simp add: Migrate_def All_def two_files_def less_char_def)
  ultimately show ?thesis by (auto simp: s)
qed

end
