(* ===== verification/Typing.thy ===== *)
theory Typing
  imports Server
begin

text \<open>
  What the types of the API promise. The tags of the input structs confine what a handler is
  called with; from there every stored and every shown book has a canonical ISBN, one of the
  three statuses, a rating from 0 to 5 and an owner. The reply of an operation has the form and
  the status its registration declares. Proved in the contract of the store, so for both stores
  under any failures.
\<close>

section \<open>Typed books, requests and responses\<close>

definition book_typed :: "book \<Rightarrow> bool" where
  "book_typed b \<longleftrightarrow> isbnShape (ISBN b) \<and> Status b \<in> set status_enum \<and> 0 \<le> Rating b \<and> Rating b \<le> 5
     \<and> UserID b \<noteq> []"

definition books_typed :: "catalog \<Rightarrow> bool" where
  "books_typed c \<longleftrightarrow> (\<forall>b \<in> ran (cat_books c). book_typed b)"

fun request_typed :: "request \<Rightarrow> bool" where
  "request_typed (CreateBook w) \<longleftrightarrow> w_Status w \<in> set ([] # status_enum) \<and> 0 \<le> w_Rating w \<and> w_Rating w \<le> 5"
| "request_typed (UpdateBook i p) \<longleftrightarrow> pred_option (\<lambda>s. s \<in> set status_enum) (p_Status p)
     \<and> pred_option (\<lambda>n. 0 \<le> n \<and> n \<le> 5) (p_Rating p)"
| "request_typed _ \<longleftrightarrow> True"

fun response_typed :: "api_error + response \<Rightarrow> bool" where
  "response_typed (Inr (RBook b)) \<longleftrightarrow> book_typed b"
| "response_typed (Inr (RBooks bs)) \<longleftrightarrow> list_all book_typed bs"
| "response_typed _ \<longleftrightarrow> True"

lemma books_typedD: "books_typed c \<Longrightarrow> cat_books c i = Some b \<Longrightarrow> book_typed b"
  by (auto simp: books_typed_def ran_def)

lemma books_typed_owned: "books_typed c \<Longrightarrow> owned c u i = Some b \<Longrightarrow> book_typed b"
  by (auto dest: owned_SomeD books_typedD)

lemma book_typed_view [simp]:
  "book_typed (reader_view c b) \<longleftrightarrow> book_typed b" "book_typed (setCoverURL b) \<longleftrightarrow> book_typed b"
  "book_typed (bare b) \<longleftrightarrow> book_typed b"
  by (simp_all add: book_typed_def setCoverURL_def bare_def)

lemma decoded_typed: "decode_input e vs r = Some (BookCall req) \<Longrightarrow> request_typed req"
  by (auto simp: decode_input_def decode_write_def decode_patch_def valid_write_def valid_patch_def
      strDeref_def split: endpoint.splits option.splits if_splits)

lemma requireUser_nonempty: "requireUser ctx = Inr u \<Longrightarrow> u \<noteq> []"
  by (auto simp: requireUser_def split: prod.splits if_splits)

section \<open>The promises keep books typed\<close>

lemma typed_put_book: "books_typed c \<Longrightarrow> book_typed b \<Longrightarrow> books_typed (put_book b c)"
  by (auto simp: books_typed_def ran_def split: if_splits)

lemma typed_same_books: "cat_books d = cat_books c \<Longrightarrow> books_typed c \<Longrightarrow> books_typed d"
  by (simp add: books_typed_def)

lemma typed_spec_delete: "books_typed c \<Longrightarrow> books_typed (snd (spec_delete u i c))"
  by (auto simp: spec_delete_def books_typed_def ran_def split: option.splits if_splits)

lemma typed_spec_create:
  "books_typed c \<Longrightarrow> book_typed (stamped now i u b) \<Longrightarrow> books_typed (snd (spec_create now i u b c))"
  by (simp add: spec_create_def Let_def typed_put_book)

lemma typed_spec_update:
  "books_typed c \<Longrightarrow> book_typed (b\<lparr>UserID := u\<rparr>) \<Longrightarrow> books_typed (snd (spec_update now u b c))"
  by (auto simp: spec_update_def Let_def book_typed_def intro!: typed_put_book split: option.split)

lemma typed_spec_mark: "books_typed c \<Longrightarrow> books_typed (snd (spec_mark_pending k c))"
  by (simp add: spec_mark_pending_def typed_same_books [of "put_edition _ _ c" c])

lemma typed_spec_ensure: "books_typed c \<Longrightarrow> books_typed (snd (spec_ensure k c))"
  by (auto simp: spec_ensure_def typed_same_books [of "put_edition _ _ c" c] split: option.split)

lemma stamped_typed:
  assumes "request_typed (CreateBook w)" "isbnShape isbn" "u \<noteq> []"
  shows "book_typed (stamped now i u ((toBook w)\<lparr>ISBN := isbn\<rparr>))"
  using assms by (auto simp: book_typed_def stamped_def toBook_def zero_book_def status_enum_def StatusToRead_def)

lemma applyTo_typed:
  assumes "canonical_patch rt p = Inr p'" "request_typed (UpdateBook i p)" "book_typed b"
  shows "book_typed (applyTo p' b)"
proof -
  have same: "p_Status p' = p_Status p" "p_Rating p' = p_Rating p"
    using assms(1) by (auto simp: canonical_patch_def split: option.splits sum.splits)
  have "Status (applyTo p' b) = (case p_Status p of None \<Rightarrow> Status b | Some s \<Rightarrow> s)"
    "Rating (applyTo p' b) = (case p_Rating p of None \<Rightarrow> Rating b | Some n \<Rightarrow> n)"
    by (simp_all add: applyTo_def Let_def same split: option.split)
  moreover have "isbnShape (ISBN (applyTo p' b))"
    using applyTo_ISBN [OF assms(1), of b] assms(3) by (auto simp: book_typed_def)
  ultimately show ?thesis
    using assms(2,3) by (auto simp: book_typed_def applyTo_user split: option.splits)
qed

section \<open>The handlers keep books typed\<close>

context repository
begin

lemma typed_answer:
  assumes "answers cat valid s (r, s') p" "books_typed (cat s)" "books_typed (snd p)"
  shows "valid s' \<and> books_typed (cat s')"
  using assms by (auto simp: answers_def)

lemma typed_get:
  assumes "valid s" "books_typed (cat s)" "Get R u i s = (r, s')"
  shows "valid s'" "books_typed (cat s')" "r = Inr b \<Longrightarrow> book_typed b"
  using get_step [OF assms(1,3)] assms(2) books_typed_owned by auto

lemma typed_enqueue:
  assumes "valid (db sv)" "books_typed (cat (db sv))"
  shows "valid (db (enqueueEnrichment R enq k sv)) \<and> books_typed (cat (db (enqueueEnrichment R enq k sv)))"
  using enqueue_step(1,3) [OF assms(1)] typed_same_books [OF _ assms(2)] by blast

lemma h_get_typed:
  assumes "valid (db sv)" "books_typed (cat (db sv))" "h_get R ctx i sv = (r, sv')"
  shows "books_typed (cat (db sv')) \<and> response_typed (map_sum id RBook r)"
proof -
  obtain u where "requireUser ctx = Inr u \<or> (\<exists>e. requireUser ctx = Inl e)" by (cases "requireUser ctx") auto
  moreover obtain r1 s1 where g: "Get R u i (db sv) = (r1, s1)" by fastforce
  ultimately show ?thesis
    using assms(2,3) typed_get [OF assms(1,2) g] by (cases r1) (auto simp: h_get_def g)
qed

lemma h_list_typed:
  assumes "valid (db sv)" "books_typed (cat (db sv))" "enumerates ks (cat_books (cat (db sv)))"
    "h_list R ks ctx sv = (r, sv')"
  shows "books_typed (cat (db sv')) \<and> response_typed (map_sum id RBooks r)"
proof (cases "requireUser ctx")
  case (Inr u)
  obtain r1 s1 where g: "ListBooks R ks u (db sv) = (r1, s1)" by fastforce
  have "fst (spec_list ks u (cat (db sv))) = Inr bs \<Longrightarrow> list_all book_typed bs" for bs
    using books_typedD [OF assms(2)]
    by (auto simp: spec_list_def list_all_iff set_entries)
  then have "r1 = Inr bs \<Longrightarrow> list_all book_typed bs" for bs
    using law_list [OF assms(1,3), of u] g by (auto simp: answers_def)
  then show ?thesis
    using assms(2,4) list_step(2) [OF assms(1,3) g] Inr g
    by (cases r1) (auto simp: h_list_def list_all_iff)
qed (use assms in \<open>auto simp: h_list_def\<close>)

lemma h_create_typed:
  assumes "valid (db sv)" "books_typed (cat (db sv))" "request_typed (CreateBook w)"
    "h_create R enq rt ctx w sv = (r, sv')"
  shows "books_typed (cat (db sv')) \<and> response_typed (map_sum id RBook r)"
proof (cases "requireUser ctx")
  case u: (Inr u)
  show ?thesis
  proof (cases "isbnFromInput rt (w_ISBN w)")
    case isbn: (Inr isbn)
    let ?b = "(toBook w)\<lparr>ISBN := isbn\<rparr>"
    have url: "CoverURL ?b = []" by (simp add: toBook_def zero_book_def)
    have new: "book_typed (stamped (stamp (clock rt)) (mint rt) u ?b)"
      using stamped_typed [OF assms(3) isbnFromInput_shape [OF isbn] requireUser_nonempty [OF u]] .
    obtain r1 s1 where c: "Create R (clock rt) (mint rt) u ?b (db sv) = (r1, s1)" by fastforce
    have s1: "valid s1" "books_typed (cat s1)"
      using typed_answer [OF law_create [OF assms(1) url, of "clock rt" "mint rt" u, unfolded c] assms(2)]
        typed_spec_create [OF assms(2) new] by blast+
    show ?thesis
    proof (cases r1)
      case (Inr b)
      let ?sv2 = "enqueueEnrichment R enq (ISBN b) (sv\<lparr>db := s1\<rparr>)"
      have s2: "valid (db ?sv2)" "books_typed (cat (db ?sv2))"
        using typed_enqueue [of "sv\<lparr>db := s1\<rparr>" enq "ISBN b"] s1 by simp_all
      obtain r3 s3 where g: "Get R u (ID b) (db ?sv2) = (r3, s3)" by fastforce
      show ?thesis
        using assms(4) typed_get [OF s2 g] by (cases r3) (auto simp: h_create_def u isbn c Inr Let_def g)
    qed (use assms(4) s1 in \<open>auto simp: h_create_def u isbn c\<close>)
  qed (use assms in \<open>auto simp: h_create_def u\<close>)
qed (use assms in \<open>auto simp: h_create_def\<close>)

lemma h_update_typed:
  assumes "valid (db sv)" "books_typed (cat (db sv))" "request_typed (UpdateBook i p)"
    "h_update R enq rt ctx i p sv = (r, sv')"
  shows "books_typed (cat (db sv')) \<and> response_typed (map_sum id RBook r)"
proof (cases "requireUser ctx")
  case u: (Inr u)
  obtain r1 s1 where g: "Get R u i (db sv) = (r1, s1)" by fastforce
  note s1 = typed_get(1,2) [OF assms(1,2) g]
  show ?thesis
  proof (cases r1)
    case r1: (Inr old)
    have old: "book_typed old" "CoverURL old = []" "UserID old = u"
      using typed_get(3) [OF assms(1,2) g r1] get_step(3) [OF assms(1) g r1] by (auto dest: owned_SomeD)
    show ?thesis
    proof (cases "canonical_patch rt p")
      case p': (Inr p')
      let ?b = "applyTo p' old"
      obtain r2 s2 where up: "Update R (clock rt) u ?b s1 = (r2, s2)" by fastforce
      have "book_typed (?b\<lparr>UserID := u\<rparr>)"
        using applyTo_typed [OF p' assms(3) old(1)] old(3) applyTo_user(1) [of p' old] by (simp add: book_typed_def)
      then have s2: "valid s2" "books_typed (cat s2)"
        using typed_answer [OF law_update [OF s1(1), of ?b "clock rt" u, unfolded up] s1(2)]
          typed_spec_update [OF s1(2)] old(2) by simp_all
      show ?thesis
      proof (cases r2)
        case r2: (Inr b)
        define sv3 where "sv3 = (if ISBN b \<noteq> ISBN old
          then enqueueEnrichment R enq (ISBN b) (sv\<lparr>db := s2\<rparr>) else sv\<lparr>db := s2\<rparr>)"
        have s3: "valid (db sv3)" "books_typed (cat (db sv3))"
          using typed_enqueue [of "sv\<lparr>db := s2\<rparr>" enq "ISBN b"] s2 by (simp_all add: sv3_def)
        obtain r4 s4 where g4: "Get R u i (db sv3) = (r4, s4)" by fastforce
        show ?thesis
          using assms(4) typed_get [OF s3 g4] r1 r2 p'
          by (cases r4) (auto simp: h_update_def u g up Let_def sv3_def [symmetric] g4)
      qed (use assms(4) s2 r1 p' in \<open>auto simp: h_update_def u g up Let_def\<close>)
    qed (use assms(4) s1 r1 in \<open>auto simp: h_update_def u g\<close>)
  qed (use assms(4) s1 in \<open>auto simp: h_update_def u g\<close>)
qed (use assms in \<open>auto simp: h_update_def\<close>)

lemma h_refresh_typed:
  assumes "valid (db sv)" "books_typed (cat (db sv))" "h_refresh R enq ctx i sv = (r, sv')"
  shows "books_typed (cat (db sv'))"
proof (cases "requireUser ctx")
  case u: (Inr u)
  obtain r1 s1 where g: "Get R u i (db sv) = (r1, s1)" by fastforce
  note s1 = typed_get(1,2) [OF assms(1,2) g]
  show ?thesis
  proof (cases r1)
    case (Inr b)
    obtain r2 s2 where m: "MarkEditionPending R (ISBN b) s1 = (r2, s2)" by fastforce
    have "books_typed (cat s2)"
      using typed_answer [OF law_mark [OF s1(1), of "ISBN b", unfolded m] s1(2)] typed_spec_mark [OF s1(2)] by blast
    then show ?thesis
      using assms(3) s1 Inr by (cases r2) (auto simp: h_refresh_def u g m split: if_splits)
  qed (use assms(3) s1 in \<open>auto simp: h_refresh_def u g\<close>)
qed (use assms in \<open>auto simp: h_refresh_def\<close>)

lemma h_delete_typed:
  assumes "valid (db sv)" "books_typed (cat (db sv))" "h_delete R ctx i sv = (r, sv')"
  shows "books_typed (cat (db sv'))"
proof (cases "requireUser ctx")
  case u: (Inr u)
  obtain r1 s1 where g: "Delete R u i (db sv) = (r1, s1)" by fastforce
  have "books_typed (cat s1)"
    using typed_answer [OF law_delete [OF assms(1), of u i, unfolded g] assms(2)] typed_spec_delete [OF assms(2)] by blast
  then show ?thesis using assms(3) by (cases r1) (auto simp: h_delete_def u g)
qed (use assms in \<open>auto simp: h_delete_def\<close>)

lemma h_cover_typed:
  assumes "valid (db sv)" "books_typed (cat (db sv))" "h_cover R ctx i sv = (r, sv')"
  shows "books_typed (cat (db sv'))"
proof (cases "requireUser ctx")
  case u: (Inr u)
  then show ?thesis using h_cover_safe [OF assms(1) u assms(3)] assms(2) by simp
qed (use assms in \<open>auto simp: h_cover_def\<close>)

text \<open>A well-typed request on well-typed books: the answer and the books afterwards are well-typed.\<close>

lemma handle_typed:
  assumes "valid (db sv)" "books_typed (cat (db sv))" "request_typed req"
    "enumerates ks (cat_books (cat (db sv)))" "handle R enq ks rt ctx req sv = (r, sv')"
  shows "books_typed (cat (db sv')) \<and> response_typed r"
proof -
  have other: "response_typed (map_sum id RCover x)" "response_typed (map_sum id RRefresh y)"
    "response_typed (map_sum id (\<lambda>_. RNoContent) z)" for x y and z :: "api_error + unit"
    by (cases x, simp_all) (cases y, simp_all, cases z, simp_all)
  show ?thesis
  proof (cases req)
    case (CreateBook w)
    then show ?thesis using h_create_typed [OF assms(1,2), of w enq rt ctx] assms(3,5)
      by (cases "h_create R enq rt ctx w sv") (auto simp: handle_def)
  next
    case ListTheBooks
    then show ?thesis using h_list_typed [OF assms(1,2,4), of ctx] assms(5)
      by (cases "h_list R ks ctx sv") (auto simp: handle_def)
  next
    case (GetBook i)
    then show ?thesis using h_get_typed [OF assms(1,2), of ctx i] assms(5)
      by (cases "h_get R ctx i sv") (auto simp: handle_def)
  next
    case (UpdateBook i p)
    then show ?thesis using h_update_typed [OF assms(1,2), of i p enq rt ctx] assms(3,5)
      by (cases "h_update R enq rt ctx i p sv") (auto simp: handle_def)
  next
    case (DeleteBook i)
    then show ?thesis using h_delete_typed [OF assms(1,2), of ctx i] assms(5) other(3)
      by (cases "h_delete R ctx i sv") (auto simp: handle_def)
  next
    case (GetCover i)
    then show ?thesis using h_cover_typed [OF assms(1,2), of ctx i] assms(5) other(1)
      by (cases "h_cover R ctx i sv") (auto simp: handle_def)
  next
    case (RefreshBook i)
    then show ?thesis using h_refresh_typed [OF assms(1,2), of enq ctx i] assms(5) other(2)
      by (cases "h_refresh R enq ctx i sv") (auto simp: handle_def)
  qed
qed

end

section \<open>The replies of an operation\<close>

text \<open>The form of what each endpoint answers with.\<close>

fun form_of :: "endpoint \<Rightarrow> response \<Rightarrow> bool" where
  "form_of ToCreate (RBook b) = True"
| "form_of ToList (RBooks bs) = True"
| "form_of ToGet (RBook b) = True"
| "form_of ToUpdate (RBook b) = True"
| "form_of ToDelete RNoContent = True"
| "form_of ToCover (RCover c) = True"
| "form_of ToRefresh (RRefresh x) = True"
| "form_of _ _ = False"

text \<open>The statuses a handler can fail with.\<close>

fun failure_statuses :: "endpoint \<Rightarrow> nat set" where
  "failure_statuses ToCreate = {401, 422, 500}"
| "failure_statuses ToList = {401, 500}"
| "failure_statuses ToGet = {401, 404, 500}"
| "failure_statuses ToUpdate = {401, 404, 422, 500}"
| "failure_statuses ToDelete = {401, 404, 500}"
| "failure_statuses ToCover = {401, 404, 500}"
| "failure_statuses ToRefresh = {401, 404, 422, 500}"
| "failure_statuses ToSearch = {401, 502, 503, 504}"

text \<open>
  The replies to a request for an operation, each with the case it belongs to. Refused by the
  middleware, with 401 or 403; refused by the validation of the input; a failure of the
  handler, with one of its statuses, which the registration lists but for 401 and 500; or an
  answer with the success status and the form of the operation, whose books are typed.
\<close>

fun reply_fits :: "'n app \<Rightarrow> http_request \<Rightarrow> operation \<Rightarrow> string list \<Rightarrow> http_reply \<Rightarrow> bool" where
  "reply_fits a r op vs (Denied status) \<longleftrightarrow>
     app_auth a (hr_Authorization r) = Inl status \<and> status \<in> {401, 403}"
| "reply_fits a r op vs Invalid \<longleftrightarrow>
     \<not> isl (app_auth a (hr_Authorization r)) \<and> decode_input (op_handler op) vs r = None"
| "reply_fits a r op vs (Failure err) \<longleftrightarrow>
     \<not> isl (app_auth a (hr_Authorization r)) \<and> decode_input (op_handler op) vs r \<noteq> None
     \<and> api_status err \<in> failure_statuses (op_handler op)
     \<and> (api_status err \<in> {401, 500} \<or> api_status err \<in> set (op_Errors op))"
| "reply_fits a r op vs (Answer status x) \<longleftrightarrow>
     \<not> isl (app_auth a (hr_Authorization r)) \<and> decode_input (op_handler op) vs r \<noteq> None
     \<and> status = success_status op \<and> form_of (op_handler op) x \<and> response_typed (Inr x)"
| "reply_fits a r op vs (Hits status hs) \<longleftrightarrow>
     \<not> isl (app_auth a (hr_Authorization r)) \<and> decode_input (op_handler op) vs r \<noteq> None
     \<and> status = success_status op \<and> op_handler op = ToSearch"
| "reply_fits a r op vs _ = False"

fun reply_typed :: "'n app \<Rightarrow> http_request \<Rightarrow> (destination \<times> string list) option \<Rightarrow> http_reply \<Rightarrow> bool" where
  "reply_typed a r None x \<longleftrightarrow> x = Elsewhere"
| "reply_typed a r (Some (Documentation, vs)) x \<longleftrightarrow> x = Elsewhere"
| "reply_typed a r (Some (Healthz, vs)) x \<longleftrightarrow> x = Health 200 ''ok''"
| "reply_typed a r (Some (Registered op, vs)) x \<longleftrightarrow> reply_fits a r op vs x"

text \<open>The statuses and the forms of the handlers.\<close>

lemma operation_declares:
  "op \<in> set book_operations \<union> {search_operation} \<Longrightarrow> x \<in> failure_statuses (op_handler op) \<Longrightarrow>
   x \<in> {401, 500} \<or> x \<in> set (op_Errors op)"
  by (auto simp: route_table)

lemma requireUser_status: "requireUser ctx = Inl e \<Longrightarrow> api_status e = 401"
  by (auto simp: requireUser_def split: prod.splits if_splits)

lemma isbnFromInput_status: "isbnFromInput rt raw = Inl e \<Longrightarrow> api_status e = 422"
  by (auto simp: isbnFromInput_def split: sum.splits)

lemma canonical_patch_status: "canonical_patch rt p = Inl e \<Longrightarrow> api_status e = 422"
  by (auto simp: canonical_patch_def dest: isbnFromInput_status split: option.splits sum.splits)

lemmas handler_statuses = requireUser_status isbnFromInput_status canonical_patch_status

lemma handler_failure:
  "h_create R enq rt ctx w sv = (Inl e, sv') \<Longrightarrow> api_status e \<in> failure_statuses ToCreate"
  "h_list R ks ctx sv = (Inl e, sv') \<Longrightarrow> api_status e \<in> failure_statuses ToList"
  "h_get R ctx i sv = (Inl e, sv') \<Longrightarrow> api_status e \<in> failure_statuses ToGet"
  "h_update R enq rt ctx i p sv = (Inl e, sv') \<Longrightarrow> api_status e \<in> failure_statuses ToUpdate"
  "h_delete R ctx i sv = (Inl e, sv') \<Longrightarrow> api_status e \<in> failure_statuses ToDelete"
  "h_cover R ctx i sv = (Inl e, sv') \<Longrightarrow> api_status e \<in> failure_statuses ToCover"
  "h_refresh R enq ctx i sv = (Inl e, sv') \<Longrightarrow> api_status e \<in> failure_statuses ToRefresh"
  by (auto simp: h_create_def h_list_def h_get_def h_update_def h_delete_def h_cover_def h_refresh_def
      Let_def dest!: handler_statuses split: sum.splits prod.splits if_splits)

lemma apfst_sum:
  "apfst (map_sum id f) y = (res, t)
    \<longleftrightarrow> (\<exists>e. y = (Inl e, t) \<and> res = Inl e) \<or> (\<exists>x. y = (Inr x, t) \<and> res = Inr (f x))"
  by (cases y; cases "fst y") auto

lemma handle_replies:
  assumes "decode_input e vs r = Some (BookCall req)" "handle R enq ks rt ctx req sv = (res, sv')"
  shows "case res of Inl err \<Rightarrow> api_status err \<in> failure_statuses e | Inr x \<Rightarrow> form_of e x"
  using assms
  by (cases e)
     (auto simp: decode_input_def handle_def apfst_sum simp del: failure_statuses.simps
       split: option.splits if_splits, (erule handler_failure)+)

lemma search_replies:
  assumes "h_search U t ctx q l hn = (Inl err, hn')"
  shows "api_status err \<in> failure_statuses ToSearch"
  using assms by (auto simp: h_search_def Let_def split: prod.splits option.splits sum.splits if_splits)

end
