(* ===== verification/Server_Runs.thy ===== *)
theory Server_Runs
  imports Typing
begin

text \<open>
  The runs of the wired program: HTTP requests, turns of the worker's goroutines and sweeps of
  the reconciler in any order, with the invariant every step keeps and the typing of the books
  and replies.
\<close>

section \<open>The state of the program\<close>

definition backend_catalog :: "backend \<Rightarrow> catalog" where
  "backend_catalog b = (case b of InMemory s \<Rightarrow> mem_catalog s | Postgres d \<Rightarrow> pg_catalog d)"

definition backend_valid :: "backend \<Rightarrow> bool" where
  "backend_valid b = (case b of InMemory s \<Rightarrow> mem_valid s | Postgres d \<Rightarrow> pg_valid d)"

text \<open>
  A step of the program: any HTTP request, a turn of a goroutine, a sweep. UUIDs are fresh and
  the clock is past the zero time.
\<close>

definition plausible :: "circumstances \<Rightarrow> 'n app \<Rightarrow> bool" where
  "plausible cs a \<longleftrightarrow>
     enumerates (books_order cs) (cat_books (backend_catalog (app_store a)))
   \<and> cat_books (backend_catalog (app_store a)) (mint (at_runtime cs)) = None
   \<and> enumerates (range_order (at_moment cs)) (cache (app_search a)) \<and> 0 \<le> at_put (at_moment cs)"

inductive app_step :: "unicode \<Rightarrow> 'n app \<times> 'n \<Rightarrow> 'n app \<times> 'n \<Rightarrow> bool" for U where
  serving: "plausible cs (fst an) \<Longrightarrow> app_step U an (snd (serve_http U cs r an))"
| working: "app_step U (a, n) (work_off now (a, n), n')"
| sweeping: "enumerates order (cat_editions (backend_catalog (app_store a))) \<Longrightarrow>
    app_step U (a, n) (sweep order a, n)"

inductive_cases app_stepE: "app_step U an bn"

lemma run_operation_state:
  "snd (run_operation U cs op ctx (BookCall req) an)
    = (snd (run_handler (books_order cs) (at_runtime cs) ctx req (fst an)), snd an)"
  "snd (run_operation U cs op ctx (SearchCall i) an) = snd (run_search U (at_moment cs) ctx i an)"
  by (simp_all add: run_operation_def split: prod.split sum.split)

text \<open>A request that is answered changes the program as its handler, if it is run, does.\<close>

lemma serve_http_cases:
  assumes "\<And>req ctx. request_typed req \<Longrightarrow>
      P (snd (run_handler (books_order cs) (at_runtime cs) ctx req (fst an)), snd an)"
    and "\<And>i ctx. P (snd (run_search U (at_moment cs) ctx i an))" and "P an"
  shows "P (snd (serve_http U cs r an))"
proof -
  have "P (snd (run_operation U cs op ctx input an))" if "decode_input e vs r = Some input" for op ctx input e vs
    using assms(1) [OF decoded_typed] assms(2) that by (cases input) (simp_all add: run_operation_state)
  then show ?thesis using assms(3)
    by (auto simp: serve_http_def split: option.split prod.split destination.split sum.split)
qed

text \<open>
  The invariant of the whole state: a valid store, covers within the bound, a sound queue, a
  bounded cache, a source whose covers are within the bound, and a middleware that refuses with
  401 or 403.
\<close>

definition app_ok :: "'n app \<Rightarrow> bool" where
  "app_ok a \<longleftrightarrow> backend_valid (app_store a) \<and> covers_within 5242880 (backend_catalog (app_store a))
     \<and> enricher_ok (app_worker a) \<and> cache_ok (cache (app_search a))
     \<and> (\<forall>n k cv. FetchCover (observed (app_provider a) n) k = Inr cv \<longrightarrow> cover_within 5242880 cv)
     \<and> (\<forall>header status. app_auth a header = Inl status \<longrightarrow> status \<in> {401, 403})"

lemma handle_refused:
  "requireUser ctx = Inl err \<Longrightarrow> snd (handle R enq ks rt ctx req sv) = sv"
  by (cases req) (simp_all add: handle_def h_create_def h_list_def h_get_def h_update_def
      h_delete_def h_cover_def h_refresh_def)

context repository
begin

lemma request_keeps_covers:
  assumes "valid (db sv)" "enumerates ks (cat_books (cat (db sv)))"
    "\<And>w. req = CreateBook w \<Longrightarrow> cat_books (cat (db sv)) (mint rt) = None"
  shows "valid (db (snd (handle R enq ks rt ctx req sv)))
    \<and> cat_covers (cat (db (snd (handle R enq ks rt ctx req sv)))) = cat_covers (cat (db sv))"
proof (cases "requireUser ctx")
  case (Inr u)
  then show ?thesis using request_is_confined [OF assms(1) Inr assms(2), of req rt enq] assms(3)
    by (auto simp: request_confined_def dest: confinedD(3))
qed (use assms in \<open>simp add: handle_refused\<close>)

end

lemma run_handler_ok:
  assumes "app_ok a" "plausible cs a"
  shows "app_ok (snd (run_handler (books_order cs) (at_runtime cs) ctx req a))"
proof (cases "app_store a")
  case (InMemory s)
  then show ?thesis
    using assms mem.request_keeps_covers [of "\<lparr>db = s, queue = app_worker a\<rparr>" "books_order cs" req "at_runtime cs" enricher_Enqueue ctx]
      eq.handle_sound [of "\<lparr>db = s, queue = app_worker a\<rparr>" mem_repo "books_order cs" "at_runtime cs" ctx req]
    by (auto simp: run_handler_def app_ok_def plausible_def backend_valid_def backend_catalog_def covers_within_def
        split: prod.split)
next
  case (Postgres d)
  then show ?thesis
    using assms pg.request_keeps_covers [of "\<lparr>db = d, queue = app_worker a\<rparr>" "books_order cs" req "at_runtime cs" enricher_Enqueue ctx]
      eq.handle_sound [of "\<lparr>db = d, queue = app_worker a\<rparr>" pg_repo "books_order cs" "at_runtime cs" ctx req]
    by (auto simp: run_handler_def app_ok_def plausible_def backend_valid_def backend_catalog_def covers_within_def
        split: prod.split)
qed

lemma run_search_ok:
  assumes "app_ok (fst an)" "plausible cs (fst an)"
  shows "app_ok (fst (snd (run_search U (at_moment cs) ctx i an)))"
proof -
  obtain a n where an: "an = (a, n)" by fastforce
  obtain r h n1 where s: "h_search U (at_moment cs) ctx (Q i) (Limit i) (app_search a, n) = (r, (h, n1))"
    by (metis prod.exhaust)
  have "cache_ok (cache (app_search a))" using assms(1) an by (simp add: app_ok_def)
  then have "cache_ok (cache h)"
    using h_search_cache [OF s] cache_put_ok assms(2) an by (fastforce simp: plausible_def)
  then show ?thesis using assms(1) an s by (simp add: run_search_def app_ok_def)
qed

lemma serve_http_ok:
  "app_ok (fst an) \<Longrightarrow> plausible cs (fst an) \<Longrightarrow> app_ok (fst (snd (serve_http U cs r an)))"
  by (rule serve_http_cases) (auto intro: run_handler_ok run_search_ok)

lemma taken_ok:
  assumes "queue_ok w" "chan w = k # ks"
  shows "queue_ok (unmarkInFlight k (w\<lparr>chan := ks\<rparr>))"
  using assms by (auto simp: queue_ok_def unmarkInFlight_def)

lemma work_off_ok:
  assumes "app_ok a"
  shows "app_ok (work_off now (a, n))"
proof (cases "\<exists>w k ks. app_worker a = Some w \<and> chan w = k # ks")
  case True
  then obtain w k ks where w: "app_worker a = Some w" "chan w = k # ks" by blast
  let ?prov = "observed (app_provider a) n"
  have src: "\<And>cv. FetchCover ?prov k = Inr cv \<Longrightarrow> cover_within 5242880 cv"
    using assms by (simp add: app_ok_def)
  have ok: "backend_valid (app_store a)" "covers_within 5242880 (backend_catalog (app_store a))"
    using assms by (simp_all add: app_ok_def)
  have "backend_valid (backend_process ?prov now k (app_store a))
    \<and> covers_within 5242880 (backend_catalog (backend_process ?prov now k (app_store a)))"
  proof (cases "app_store a")
    case (InMemory s)
    then show ?thesis
      using ok mem.processing_touches [of s] mem.process_covers [of s 5242880 ?prov k now] src
      by (simp add: backend_valid_def backend_catalog_def backend_process_def)
  next
    case (Postgres d)
    then show ?thesis
      using ok pg.processing_touches [of d] pg.process_covers [of d 5242880 ?prov k now] src
      by (simp add: backend_valid_def backend_catalog_def backend_process_def)
  qed
  moreover have "enricher_ok (Some (unmarkInFlight k (w\<lparr>chan := ks\<rparr>)))"
    using assms w taken_ok [of w k ks] by (simp add: app_ok_def enricher_ok_def)
  ultimately show ?thesis using assms w by (simp add: work_off_def app_ok_def)
next
  case False
  then have "work_off now (a, n) = a" by (auto simp: work_off_def split: option.split list.split)
  then show ?thesis using assms by simp
qed

lemma sweep_ok:
  assumes "app_ok a" "enumerates order (cat_editions (backend_catalog (app_store a)))"
  shows "app_ok (sweep order a)"
proof (cases "app_worker a")
  case None
  then show ?thesis using assms(1) by (simp add: sweep_def)
next
  case (Some w)
  have q: "queue_ok w" using assms(1) Some by (simp add: app_ok_def enricher_ok_def)
  show ?thesis
  proof (cases "app_store a")
    case (InMemory s)
    obtain s1 w1 where r: "reconcile mem_repo order (s, w) = (s1, w1)" by fastforce
    have v: "mem_valid s" using assms(1) InMemory by (simp add: app_ok_def backend_valid_def)
    note facts = mem.sweep_facts [OF v _ q r]
    show ?thesis using assms InMemory Some r facts(1-3)
      by (simp add: sweep_def app_ok_def backend_valid_def backend_catalog_def enricher_ok_def)
  next
    case (Postgres d)
    obtain d1 w1 where r: "reconcile pg_repo order (d, w) = (d1, w1)" by fastforce
    have v: "pg_valid d" using assms(1) Postgres by (simp add: app_ok_def backend_valid_def)
    note facts = pg.sweep_facts [OF v _ q r]
    show ?thesis using assms Postgres Some r facts(1-3)
      by (simp add: sweep_def app_ok_def backend_valid_def backend_catalog_def enricher_ok_def)
  qed
qed

lemma app_step_ok: "app_step U an bn \<Longrightarrow> app_ok (fst an) \<Longrightarrow> app_ok (fst bn)"
  by (erule app_stepE) (auto intro: serve_http_ok work_off_ok sweep_ok)

text \<open>The program as it starts is in a good state when its backend is.\<close>

lemma main_ok:
  assumes "main U net J G X Getenv = Inr a" "backend_valid (app_store a)"
    and "covers_within 5242880 (backend_catalog (app_store a))"
  shows "app_ok a"
proof -
  obtain u v w k where src: "app_provider a = wired (net None) J G u v w k"
    using assms(1) by (auto simp: main_def wired_def Let_def split: sum.splits)
  have "app_worker a = newEnricher Getenv" "cache (app_search a) = newResultCache"
    using assms(1) by (auto simp: main_def Let_def NewSearchHandler_def split: sum.splits)
  moreover have "\<forall>n k cv. FetchCover (observed (app_provider a) n) k = Inr cv \<longrightarrow> cover_within 5242880 cv"
    using sources.both.observed_within unfolding src wired_def by (metis defaultCoverMaxBytes_value)
  moreover have "app_auth a header = Inl status \<Longrightarrow> status \<in> {401, 403}" for header status
    using assms(1)
    by (auto simp: main_def newAuthMiddleware_def NewHumaMiddleware_def StaticHumaMiddleware_def Let_def
        split: sum.splits if_splits prod.splits option.splits)
  ultimately show ?thesis
    using assms(2,3) NewWorker_ok
    by (auto simp: app_ok_def newEnricher_def enricher_ok_def newResultCache_def cache_ok_def)
qed

lemma runs_ok: "(app_step U)\<^sup>*\<^sup>* an bn \<Longrightarrow> app_ok (fst an) \<Longrightarrow> app_ok (fst bn)"
  by (induction rule: rtranclp_induct) (auto intro: app_step_ok)

section \<open>Typed runs\<close>

lemma run_handler_typed:
  assumes "backend_valid (app_store a)" "plausible cs a" "books_typed (backend_catalog (app_store a))"
    "request_typed req" "run_handler (books_order cs) (at_runtime cs) ctx req a = (res, a1)"
  shows "books_typed (backend_catalog (app_store a1)) \<and> response_typed res"
proof (cases "app_store a")
  case (InMemory s)
  obtain r sv where h: "handle mem_repo enricher_Enqueue (books_order cs) (at_runtime cs) ctx req
      \<lparr>db = s, queue = app_worker a\<rparr> = (r, sv)" by fastforce
  show ?thesis using assms mem.handle_typed [OF _ _ assms(4) _ h] h InMemory
    by (auto simp: run_handler_def plausible_def backend_valid_def backend_catalog_def)
next
  case (Postgres d)
  obtain r sv where h: "handle pg_repo enricher_Enqueue (books_order cs) (at_runtime cs) ctx req
      \<lparr>db = d, queue = app_worker a\<rparr> = (r, sv)" by fastforce
  show ?thesis using assms pg.handle_typed [OF _ _ assms(4) _ h] h Postgres
    by (auto simp: run_handler_def plausible_def backend_valid_def backend_catalog_def)
qed

lemma run_search_store: "app_store (fst (snd (run_search U t ctx i an))) = app_store (fst an)"
  by (simp add: run_search_def split: prod.split)

lemma work_off_books:
  assumes "backend_valid (app_store a)"
  shows "cat_books (backend_catalog (app_store (work_off now (a, n)))) = cat_books (backend_catalog (app_store a))"
  using assms mem.processing_touches pg.processing_touches
  by (auto simp: work_off_def backend_process_def backend_valid_def backend_catalog_def touches_def
      split: option.split list.split backend.split backend.splits)

lemma sweep_books:
  assumes "app_ok a" "enumerates order (cat_editions (backend_catalog (app_store a)))"
  shows "backend_catalog (app_store (sweep order a)) = backend_catalog (app_store a)"
  using assms mem.sweep_facts(2) pg.sweep_facts(2)
  by (fastforce simp: sweep_def app_ok_def backend_valid_def backend_catalog_def enricher_ok_def
      split: option.splits backend.splits prod.splits)

lemma app_step_typed:
  assumes "app_step U an bn" "app_ok (fst an)" "books_typed (backend_catalog (app_store (fst an)))"
  shows "books_typed (backend_catalog (app_store (fst bn)))"
  using assms(1)
proof cases
  case (serving cs r)
  have v: "backend_valid (app_store (fst an))" using assms(2) by (simp add: app_ok_def)
  show ?thesis unfolding serving(1)
    by (rule serve_http_cases)
       (use run_handler_typed [OF v serving(2) assms(3) _ prod.collapse [symmetric]] assms(3)
         in \<open>auto simp: run_search_store\<close>)
next
  case (working a n now n')
  then show ?thesis using assms(2,3) work_off_books typed_same_books by (fastforce simp: app_ok_def)
next
  case (sweeping order a n)
  then show ?thesis using assms(2,3) sweep_books [of a order] by simp
qed

lemma runs_typed:
  assumes "(app_step U)\<^sup>*\<^sup>* an bn" "app_ok (fst an)" "books_typed (backend_catalog (app_store (fst an)))"
  shows "app_ok (fst bn) \<and> books_typed (backend_catalog (app_store (fst bn)))"
  using assms by (induction rule: rtranclp_induct) (auto intro: app_step_ok app_step_typed)

text \<open>The reply of every request fits its operation.\<close>

lemma run_operation_fits:
  assumes "app_ok (fst an)" "plausible cs (fst an)" "books_typed (backend_catalog (app_store (fst an)))"
    "op \<in> set book_operations \<union> {search_operation}" "decode_input (op_handler op) vs r = Some input"
    and "app_auth (fst an) (hr_Authorization r) = Inr ctx"
  shows "reply_fits (fst an) r op vs (fst (run_operation U cs op ctx input an))"
proof (cases input)
  case (BookCall req)
  have dec: "decode_input (op_handler op) vs r = Some (BookCall req)" using assms(5) BookCall by simp
  obtain res a1 where h: "run_handler (books_order cs) (at_runtime cs) ctx req (fst an) = (res, a1)" by fastforce
  have v: "backend_valid (app_store (fst an))" using assms(1) by (simp add: app_ok_def)
  have "case res of Inl err \<Rightarrow> api_status err \<in> failure_statuses (op_handler op) | Inr x \<Rightarrow> form_of (op_handler op) x"
    using h handle_replies [OF dec, where R = mem_repo and res = res]
      handle_replies [OF dec, where R = pg_repo and res = res]
    by (auto simp: run_handler_def split: backend.splits prod.splits)
  then show ?thesis
    using run_handler_typed [OF v assms(2,3) decoded_typed [OF dec] h] h BookCall operation_declares [OF assms(4)] assms(5,6)
    by (cases res) (auto simp: run_operation_def)
next
  case (SearchCall i)
  have e: "op_handler op = ToSearch"
    using assms(5) SearchCall by (cases "op_handler op") (auto simp: decode_input_def split: option.splits if_splits)
  obtain r1 h1 where s: "h_search U (at_moment cs) ctx (Q i) (Limit i) (app_search (fst an), snd an) = (r1, h1)"
    by (metis surj_pair)
  have "r1 = Inl err \<Longrightarrow> api_status err \<in> failure_statuses ToSearch" for err
    using s search_replies [of U "at_moment cs" ctx "Q i" "Limit i" "(app_search (fst an), snd an)" err h1] by simp
  then show ?thesis
    using s SearchCall e operation_declares [OF assms(4)] assms(5,6)
    by (cases an; cases r1) (auto simp: run_operation_def run_search_def split: prod.splits)
qed

lemma serve_http_typed:
  assumes "app_ok (fst an)" "plausible cs (fst an)" "books_typed (backend_catalog (app_store (fst an)))"
  shows "reply_typed (fst an) r (dispatch routes (hr_Method r) (hr_Path r)) (fst (serve_http U cs r an))"
proof (cases "dispatch routes (hr_Method r) (hr_Path r)")
  case (Some dv)
  obtain d vs where dv: "dv = (d, vs)" by fastforce
  then show ?thesis
    using Some dispatch_guarded [of "hr_Method r" "hr_Path r" d vs] run_operation_fits [OF assms, where vs = vs and r = r and U = U] assms(1)
    by (auto simp: serve_http_def app_ok_def split: sum.split option.split)
qed (simp add: serve_http_def)

section \<open>A displayed cover\<close>

lemma uuid_accepted:
  assumes "uuid_text i"
  shows "pg_text i"
proof -
  have chars: "is_digit c \<or> c \<in> set ''abcdef-''" if "c \<in> set i" for c
    using assms that by (auto simp: uuid_text_def list_all_iff)
  then have "ascii i" "CHR 0x00 \<notin> set i"
    by (fastforce simp: ascii_def is_digit_byte list_all_iff)+
  then show ?thesis by (rule pg_text_ascii)
qed

definition getting :: "string \<Rightarrow> string \<Rightarrow> http_request" where
  "getting path header = \<lparr>hr_Method = ''GET'', hr_Path = path, hr_Authorization = header,
     hr_Body = None, hr_q = None, hr_limit = None\<rparr>"

lemma serve_get_book:
  assumes "uuid_text i" "app_auth (fst an) header = Inr ctx"
  shows "serve_http U cs (getting (''/books/'' @ i) header) an
    = run_operation U cs get_operation ctx (BookCall (GetBook i)) an"
  using assms by (simp add: serve_http_def getting_def get_dispatch decode_input_def del: append_Cons)
    (simp add: get_operation_def book_operation_def)

lemma serve_get_cover:
  assumes "uuid_text i" "app_auth (fst an) header = Inr ctx"
  shows "serve_http U cs (getting (''/books/'' @ i @ ''/cover'') header) an
    = run_operation U cs cover_operation ctx (BookCall (GetCover i)) an"
  using assms by (simp add: serve_http_def getting_def cover_dispatch decode_input_def del: append_Cons)
    (simp add: cover_operation_def book_operation_def)

end
