(* ===== verification/Pool_Progress.thy ===== *)
theory Pool_Progress
  imports Worker_Pool
begin

text \<open>
  The pool comes to rest: the work left in a pool is its size, every step that takes in
  nothing new makes it smaller, and such a step is possible as long as an ISBN is in flight.
\<close>

section \<open>The work left\<close>

definition job_weight :: "job \<Rightarrow> nat" where
  "job_weight j = (case holds j of None \<Rightarrow> 0 | Some k \<Rightarrow> Suc (steps_left j))"

instantiation pool_ext :: (type, type) size
begin

definition size_pool_ext :: "('a, 'b) pool_ext \<Rightarrow> nat" where
  "size_pool_ext p = 8 * size (sending p) + size (dropping p) + 7 * length (chan (pworker p))
     + sum_list (map job_weight (jobs p))"

instance ..

end

text \<open>A step by which no request reaches the store and no further ISBN comes in flight.\<close>

definition settling :: "('s, 'z) enrich_store_ops_scheme \<Rightarrow> 's pool \<Rightarrow> 's pool \<Rightarrow> bool" where
  "settling R p q \<longleftrightarrow> pool_step R (\<lambda>_ _. False) p q \<and> inFlight (pworker q) \<subseteq> inFlight (pworker p)"

lemma weight_update:
  "i < length js \<Longrightarrow> sum_list (map job_weight (js[i := j])) + job_weight (js ! i)
     = sum_list (map job_weight js) + job_weight j"
proof (induction js arbitrary: i)
  case (Cons x js)
  then show ?case by (cases i) auto
qed simp

lemma settling_smaller:
  assumes "settling R p q"
  shows "size q < size p"
proof -
  have step: "pool_step R (\<lambda>_ _. False) p q" "inFlight (pworker q) \<subseteq> inFlight (pworker p)"
    using assms by (simp_all add: settling_def)
  from step(1) show ?thesis
  proof cases
    case (mark k w)
    then show ?thesis using step(2) by (auto simp: markInFlight_def split: if_splits)
  next
    case (send k)
    then obtain M where "sending p = add_mset k M" by (metis insert_DiffM)
    then show ?thesis using send by (simp add: size_pool_ext_def)
  next
    case (full k)
    then obtain M where "sending p = add_mset k M" by (metis insert_DiffM)
    then show ?thesis using full by (simp add: size_pool_ext_def)
  next
    case (drop k)
    then obtain M where "dropping p = add_mset k M" by (metis insert_DiffM)
    then show ?thesis using drop by (simp add: size_pool_ext_def unmarkInFlight_def)
  next
    case (receive i k qs)
    then show ?thesis
      using weight_update [of i "jobs p" "Reading k"] by (simp add: size_pool_ext_def job_weight_def)
  next
    case (work i j' s')
    have "job_weight j' < job_weight (jobs p ! i)"
      using job_step_holds [OF work(3)] steps_left_decreases [OF work(3)]
      by (auto simp: job_weight_def split: option.splits)
    then show ?thesis
      using work weight_update [of i "jobs p" j'] by (simp add: size_pool_ext_def)
  next
    case (leave i k)
    then show ?thesis
      using weight_update [of i "jobs p" Idle] by (simp add: size_pool_ext_def job_weight_def unmarkInFlight_def)
  qed simp
qed

section \<open>Never stuck\<close>

lemma pool_step_length: "pool_step R env p q \<Longrightarrow> length (jobs q) = length (jobs p)"
  by (induction rule: pool_step.induct) simp_all

lemma reachable_length:
  "(pool_step R env)\<^sup>*\<^sup>* (start opts s) p \<Longrightarrow> length (jobs p) = nat (workers (NewWorker opts))"
proof (induction rule: rtranclp_induct)
  case base
  show ?case by (simp add: start_def Let_def)
qed (simp add: pool_step_length)

lemma workers_pos: "0 < workers (NewWorker opts)"
  by (simp add: NewWorker_def Let_def)

lemma reachable_accounted: "(pool_step R env)\<^sup>*\<^sup>* (start opts s) p \<Longrightarrow> accounted p"
  by (induction rule: rtranclp_induct) (auto intro: accounted_start accounted_step)

text \<open>A goroutine that holds an ISBN can take its next step.\<close>

lemma holder_moves:
  assumes "i < length (jobs p)" "holds (jobs p ! i) \<noteq> None"
  shows "\<exists>q. settling R p q"
proof (cases "steps_left (jobs p ! i) = 0")
  case True
  then obtain k where "jobs p ! i = Leaving k" using assms(2) by (cases "jobs p ! i") auto
  then have "settling R p (p\<lparr>pworker := unmarkInFlight k (pworker p), jobs := (jobs p)[i := Idle]\<rparr>)"
    using leave [OF assms(1)] by (auto simp: settling_def unmarkInFlight_def)
  then show ?thesis ..
next
  case False
  then obtain j' s' where "job_step R (jobs p ! i) (pstore p) j' s'"
    using job_never_stuck [OF False, of R "pstore p"] by blast
  then have "settling R p (p\<lparr>pstore := s', jobs := (jobs p)[i := j']\<rparr>)"
    using work [OF assms(1)] by (auto simp: settling_def)
  then show ?thesis ..
qed

lemma busy_moves:
  assumes "accounted p" "jobs p \<noteq> []" "inFlight (pworker p) \<noteq> {}"
  shows "\<exists>q. settling R p q"
proof -
  have "finite (inFlight (pworker p))" "mset_set (inFlight (pworker p))
      = sending p + dropping p + mset (chan (pworker p)) + held (mset (jobs p))"
    using assms(1) by (simp_all add: accounted_def)
  then have "sending p + dropping p + mset (chan (pworker p)) + held (mset (jobs p)) \<noteq> {#}"
    using assms(3) by (metis mset_set_empty_iff)
  then consider k where "k \<in># sending p" | k where "k \<in># dropping p" | k qs where "chan (pworker p) = k # qs"
    | k where "k \<in># held (mset (jobs p))"
    by (auto simp: neq_Nil_conv dest!: multi_nonempty_split) blast+
  then show ?thesis
  proof cases
    case (1 k)
    then show ?thesis using send [OF 1] full [OF 1] by (fastforce simp: settling_def)
  next
    case (2 k)
    then show ?thesis using drop [OF 2] by (fastforce simp: settling_def unmarkInFlight_def)
  next
    case (3 k qs)
    show ?thesis
    proof (cases "jobs p ! 0")
      case Idle
      then have "settling R p (p\<lparr>pworker := (pworker p)\<lparr>chan := qs\<rparr>, jobs := (jobs p)[0 := Reading k]\<rparr>)"
        using receive [of 0 p k qs R "\<lambda>_ _. False"] 3 assms(2) by (simp add: settling_def)
      then show ?thesis ..
    qed (use holder_moves [of 0 p] assms(2) in simp_all)
  next
    case (4 k)
    then obtain j where "j \<in> set (jobs p)" "holds j = Some k" by (auto simp: held_mem)
    then show ?thesis using holder_moves by (metis in_set_conv_nth option.distinct(1))
  qed
qed

lemma settling_busy:
  assumes "settling R p q" "accounted p"
  shows "inFlight (pworker p) \<noteq> {}"
proof
  assume e: "inFlight (pworker p) = {}"
  then have none: "sending p = {#}" "dropping p = {#}" "chan (pworker p) = []" "held (mset (jobs p)) = {#}"
    using assms(2) by (simp_all add: accounted_def)
  then have idle: "holds (jobs p ! i) = None" if "i < length (jobs p)" for i
    using that held_mem [of _ "mset (jobs p)"] by (metis empty_iff nth_mem_mset option.exhaust set_mset_empty)
  have "pool_step R (\<lambda>_ _. False) p q" "inFlight (pworker q) \<subseteq> {}"
    using assms(1) e by (simp_all add: settling_def)
  then show False
  proof cases
    case (mark k w)
    then show ?thesis using \<open>inFlight (pworker q) \<subseteq> {}\<close> by (auto simp: markInFlight_def split: if_splits)
  next
    case (work i j' s')
    then show ?thesis using idle [OF work(2)] job_step_holds [OF work(3)] by simp
  next
    case (leave i k)
    then show ?thesis using idle [OF leave(2)] by simp
  qed (use none in simp_all)
qed

text \<open>
  C9: once the requests stop, the pool comes to rest with nothing left behind. From every
  state reachable with any store, each further step of a goroutine or of a caller under way
  lowers the work left, so there are only finitely many; and such a step is possible exactly
  while some ISBN is in flight. Hence every run ends, with an empty queue and nobody holding
  an ISBN, and no ISBN stays in flight for ever.
\<close>
theorem pool_drains:
  assumes "(pool_step R env)\<^sup>*\<^sup>* (start opts s) p"
  shows "{(b, a). settling R a b} \<subseteq> measure size
    \<and> ((\<exists>q. settling R p q) \<longleftrightarrow> inFlight (pworker p) \<noteq> {})"
proof -
  have "jobs p \<noteq> []" using reachable_length [OF assms] workers_pos [of opts] by auto
  then show ?thesis
    using reachable_accounted [OF assms] busy_moves settling_busy settling_smaller by fastforce
qed

text \<open>A pool with one call of \<open>Enqueue\<close> on its way to the channel.\<close>

definition no_effect :: "unit enrich_store_ops" where
  "no_effect = \<lparr>PendingEnrichment = (\<lambda>ks l s. (Inr [], s)), EditionStatus = (\<lambda>k s. (Inr ([], False), s)),
     SaveEnrichment = (\<lambda>t k m st s. (Inr (), s)), SaveCover = (\<lambda>k c s. (Inr (), s))\<rparr>"

theorem pool_drains_witness:
  "\<exists>p. inFlight (pworker p) = {''9782070368224''} \<and> (\<exists>q. settling no_effect p q)"
proof -
  let ?a = "start \<lparr>Workers = 1, QueueSize = 1, SweepEvery = 1\<rparr> ()"
  let ?p = "?a\<lparr>pworker := (pworker ?a)\<lparr>inFlight := {''9782070368224''}\<rparr>,
    sending := add_mset ''9782070368224'' (sending ?a)\<rparr>"
  have "pool_step no_effect (\<lambda>_ _. False) ?a ?p"
    by (rule mark) (simp_all add: markInFlight_def start_def NewWorker_def Let_def)
  then have "(pool_step no_effect (\<lambda>_ _. False))\<^sup>*\<^sup>* ?a ?p" by (rule r_into_rtranclp)
  then have "(\<exists>q. settling no_effect ?p q) \<longleftrightarrow> inFlight (pworker ?p) \<noteq> {}"
    by (rule pool_drains [THEN conjunct2])
  moreover have i: "inFlight (pworker ?p) = {''9782070368224''}" by simp
  ultimately have "\<exists>q. settling no_effect ?p q" by simp
  then have "inFlight (pworker ?p) = {''9782070368224''} \<and> (\<exists>q. settling no_effect ?p q)"
    using i by (rule conjI [rotated])
  then show ?thesis by (rule exI [of _ ?p])
qed

end
