(* ===== verification/Lifecycle.thy ===== *)
theory Lifecycle
  imports Pool_Progress
begin

text \<open>
  The life of the worker: \<open>Run\<close> in \<open>internal/enrich/worker.go\<close> with the reconciler's goroutine,
  the cancellation of its context and the wait for the goroutines, and the end of \<open>main\<close>
  (\<open>cmd/api/main.go\<close>). The pool is that of the theory \<open>Worker_Pool\<close>; the reconciler is one
  more caller of \<open>Enqueue\<close>, with its own position.
\<close>

section \<open>Run\<close>

text \<open>
  Where the reconciler's goroutine stands: in the query of a sweep, in the loop over its ISBNs,
  in a call of \<open>Enqueue\<close> before the channel or before the second critical section, in the
  \<open>select\<close>, or returned.
\<close>

datatype sweeper =
    Querying
  | Enqueuing "string list"
  | SweepSending string "string list"
  | SweepDropping string "string list"
  | Waiting
  | Stopped

record 's run =
  rpool :: "'s pool"
  cancelled :: bool
  exited :: "nat set"
  sweeper :: sweeper

text \<open>The others do not finish the reconciler's call of \<open>Enqueue\<close>, and who returned stays idle.\<close>

definition undisturbed :: "'s run \<Rightarrow> 's pool \<Rightarrow> bool" where
  "undisturbed r p \<longleftrightarrow> (\<forall>i \<in> exited r. jobs p ! i = Idle)
     \<and> (case sweeper r of SweepSending k ks \<Rightarrow> k \<in># sending p | SweepDropping k ks \<Rightarrow> k \<in># dropping p | _ \<Rightarrow> True)"

datatype action = PoolMoves | SweeperMoves | GoroutineExits | SweeperExits | Tick | Cancel

text \<open>
  A \<open>select\<close> with both cases ready takes either: a goroutine may go on receiving after the
  cancellation, and it may return as soon as it is back at its \<open>select\<close>.
\<close>

inductive run_step ::
  "('s, 'z) enrich_store_ops_scheme \<Rightarrow> ('s \<Rightarrow> 's \<Rightarrow> bool) \<Rightarrow> 's run \<Rightarrow> action \<Rightarrow> 's run \<Rightarrow> bool"
  for R env where
  pool_moves: "pool_step R env (rpool r) p \<Longrightarrow> undisturbed r p \<Longrightarrow>
    run_step R env r PoolMoves (r\<lparr>rpool := p\<rparr>)"
| sweep_failed: "sweeper r = Querying \<Longrightarrow> PendingEnrichment R ks 100 (pstore (rpool r)) = (Inl err, s') \<Longrightarrow>
    run_step R env r SweeperMoves (r\<lparr>rpool := (rpool r)\<lparr>pstore := s'\<rparr>, sweeper := Waiting\<rparr>)"
| sweep_found: "sweeper r = Querying \<Longrightarrow> PendingEnrichment R ks 100 (pstore (rpool r)) = (Inr xs, s') \<Longrightarrow>
    run_step R env r SweeperMoves (r\<lparr>rpool := (rpool r)\<lparr>pstore := s'\<rparr>, sweeper := Enqueuing xs\<rparr>)"
| sweep_skip: "sweeper r = Enqueuing (k # ks) \<Longrightarrow> k = [] \<or> \<not> fst (markInFlight k (pworker (rpool r))) \<Longrightarrow>
    run_step R env r SweeperMoves (r\<lparr>sweeper := Enqueuing ks\<rparr>)"
| sweep_mark: "sweeper r = Enqueuing (k # ks) \<Longrightarrow> k \<noteq> [] \<Longrightarrow> markInFlight k (pworker (rpool r)) = (True, w) \<Longrightarrow>
    run_step R env r SweeperMoves (r\<lparr>rpool := (rpool r)\<lparr>pworker := w, sending := add_mset k (sending (rpool r))\<rparr>,
      sweeper := SweepSending k ks\<rparr>)"
| sweep_send: "sweeper r = SweepSending k ks \<Longrightarrow> k \<in># sending (rpool r) \<Longrightarrow>
    int (length (chan (pworker (rpool r)))) < chan_cap (pworker (rpool r)) \<Longrightarrow>
    run_step R env r SweeperMoves (r\<lparr>rpool := (rpool r)\<lparr>
        pworker := (pworker (rpool r))\<lparr>chan := chan (pworker (rpool r)) @ [k]\<rparr>,
        sending := sending (rpool r) - {#k#}\<rparr>, sweeper := Enqueuing ks\<rparr>)"
| sweep_full: "sweeper r = SweepSending k ks \<Longrightarrow> k \<in># sending (rpool r) \<Longrightarrow>
    \<not> int (length (chan (pworker (rpool r)))) < chan_cap (pworker (rpool r)) \<Longrightarrow>
    run_step R env r SweeperMoves (r\<lparr>rpool := (rpool r)\<lparr>sending := sending (rpool r) - {#k#},
        dropping := add_mset k (dropping (rpool r))\<rparr>, sweeper := SweepDropping k ks\<rparr>)"
| sweep_drop: "sweeper r = SweepDropping k ks \<Longrightarrow> k \<in># dropping (rpool r) \<Longrightarrow>
    run_step R env r SweeperMoves (r\<lparr>rpool := (rpool r)\<lparr>pworker := unmarkInFlight k (pworker (rpool r)),
        dropping := dropping (rpool r) - {#k#}\<rparr>, sweeper := Enqueuing ks\<rparr>)"
| sweep_done: "sweeper r = Enqueuing [] \<Longrightarrow> run_step R env r SweeperMoves (r\<lparr>sweeper := Waiting\<rparr>)"
| tick: "sweeper r = Waiting \<Longrightarrow> run_step R env r Tick (r\<lparr>sweeper := Querying\<rparr>)"
| cancel: "\<not> cancelled r \<Longrightarrow> run_step R env r Cancel (r\<lparr>cancelled := True\<rparr>)"
| goroutine_exits: "cancelled r \<Longrightarrow> i < length (jobs (rpool r)) \<Longrightarrow> i \<notin> exited r \<Longrightarrow> jobs (rpool r) ! i = Idle \<Longrightarrow>
    run_step R env r GoroutineExits (r\<lparr>exited := insert i (exited r)\<rparr>)"
| sweeper_exits: "cancelled r \<Longrightarrow> sweeper r = Waiting \<Longrightarrow>
    run_step R env r SweeperExits (r\<lparr>sweeper := Stopped\<rparr>)"

definition run_start :: "options \<Rightarrow> 's \<Rightarrow> 's run" where
  "run_start opts s = \<lparr>rpool = start opts s, cancelled = False, exited = {}, sweeper = Querying\<rparr>"

definition runs :: "('s, 'z) enrich_store_ops_scheme \<Rightarrow> ('s \<Rightarrow> 's \<Rightarrow> bool) \<Rightarrow> 's run \<Rightarrow> 's run \<Rightarrow> bool" where
  "runs R env = (\<lambda>a b. \<exists>act. run_step R env a act b)\<^sup>*\<^sup>*"

text \<open>\<open>Run\<close> returns when its context is cancelled and \<open>wg.Wait\<close> finds every goroutine done.\<close>

definition returned :: "'s run \<Rightarrow> bool" where
  "returned r \<longleftrightarrow> cancelled r \<and> exited r = {..<length (jobs (rpool r))} \<and> sweeper r = Stopped"

section \<open>The pool inside\<close>

text \<open>The reconciler only does to the pool what any caller of \<open>Enqueue\<close> and any request may do.\<close>

definition or_query :: "('s, 'z) enrich_store_ops_scheme \<Rightarrow> ('s \<Rightarrow> 's \<Rightarrow> bool) \<Rightarrow> 's \<Rightarrow> 's \<Rightarrow> bool" where
  "or_query R env s s' \<longleftrightarrow> env s s' \<or> (\<exists>ks. s' = snd (PendingEnrichment R ks 100 s))"

lemma pool_step_mono:
  assumes "\<And>s s'. env s s' \<Longrightarrow> env' s s'" "pool_step R env p q"
  shows "pool_step R env' p q"
  using assms(2) by cases (auto intro: pool_step.intros assms(1))

lemma run_step_pool:
  assumes "run_step R env r act r'"
  shows "rpool r' = rpool r \<or> pool_step R (or_query R env) (rpool r) (rpool r')"
  using assms
proof cases
  case (pool_moves p)
  then show ?thesis using pool_step_mono [of env "or_query R env"] by (auto simp: or_query_def)
next
  case (sweep_failed ks err s')
  then have "or_query R env (pstore (rpool r)) s'" by (auto simp: or_query_def intro!: exI [of _ ks])
  then show ?thesis using sweep_failed request by fastforce
next
  case (sweep_found ks xs s')
  then have "or_query R env (pstore (rpool r)) s'" by (auto simp: or_query_def intro!: exI [of _ ks])
  then show ?thesis using sweep_found request by fastforce
qed (auto intro: pool_step.intros)

lemma runs_pool:
  assumes "runs R env (run_start opts s) r"
  shows "(pool_step R (or_query R env))\<^sup>*\<^sup>* (start opts s) (rpool r)"
  using assms unfolding runs_def
proof (induction rule: rtranclp_induct)
  case base
  show ?case by (simp add: run_start_def)
next
  case (step q r)
  then show ?case using run_step_pool [of R env q _ r] by (metis rtranclp.rtrancl_into_rtrancl)
qed

section \<open>The invariant\<close>

definition run_ok :: "'s run \<Rightarrow> bool" where
  "run_ok r \<longleftrightarrow> undisturbed r (rpool r) \<and> exited r \<subseteq> {..<length (jobs (rpool r))}
     \<and> (exited r \<noteq> {} \<or> sweeper r = Stopped \<longrightarrow> cancelled r)"

lemma run_ok_start: "run_ok (run_start opts s)"
  by (simp add: run_ok_def run_start_def undisturbed_def)

lemma run_ok_step: "run_step R env r act r' \<Longrightarrow> run_ok r \<Longrightarrow> run_ok r'"
  by (induction rule: run_step.induct)
     (auto simp: run_ok_def undisturbed_def dest!: pool_step_length split: sweeper.splits)

lemma runs_ok': "runs R env (run_start opts s) r \<Longrightarrow> run_ok r"
  unfolding runs_def by (induction rule: rtranclp_induct) (auto intro: run_ok_start run_ok_step)

section \<open>Winding down\<close>

text \<open>A step with no request, no tick, no new signal, and no new call of \<open>Enqueue\<close> from outside.\<close>

definition winding :: "('s, 'z) enrich_store_ops_scheme \<Rightarrow> 's run \<Rightarrow> 's run \<Rightarrow> bool" where
  "winding R a b \<longleftrightarrow> (\<exists>act. run_step R (\<lambda>_ _. False) a act b \<and> act \<notin> {Tick, Cancel}
     \<and> (act = PoolMoves \<longrightarrow> inFlight (pworker (rpool b)) \<subseteq> inFlight (pworker (rpool a))))"

fun sweep_phase :: "sweeper \<Rightarrow> nat" where
  "sweep_phase Querying = 3"
| "sweep_phase Waiting = 1"
| "sweep_phase Stopped = 0"
| "sweep_phase _ = 2"

fun sweep_weight :: "sweeper \<Rightarrow> nat" where
  "sweep_weight (Enqueuing ks) = 10 * length ks + 1"
| "sweep_weight (SweepSending k ks) = 10 * length ks + 2"
| "sweep_weight (SweepDropping k ks) = 10 * length ks + 2"
| "sweep_weight _ = 0"

definition run_weight :: "'s run \<Rightarrow> nat" where
  "run_weight r = size (rpool r) + sweep_weight (sweeper r) + card ({..<length (jobs (rpool r))} - exited r)"

lemma winding_smaller:
  assumes "winding R a b"
  shows "(b, a) \<in> measures [sweep_phase \<circ> sweeper, run_weight]"
proof -
  obtain act where step: "run_step R (\<lambda>_ _. False) a act b" "act \<notin> {Tick, Cancel}"
    and quiet: "act = PoolMoves \<longrightarrow> inFlight (pworker (rpool b)) \<subseteq> inFlight (pworker (rpool a))"
    using assms by (auto simp: winding_def)
  from step(1) show ?thesis
  proof cases
    case (pool_moves p)
    then have "settling R (rpool a) p" using quiet by (simp add: settling_def)
    then show ?thesis
      using settling_smaller pool_step_length pool_moves by (fastforce simp: run_weight_def)
  next
    case (sweep_send k ks)
    then obtain M where "sending (rpool a) = add_mset k M" by (metis insert_DiffM)
    then show ?thesis using sweep_send by (simp add: run_weight_def size_pool_ext_def)
  next
    case (sweep_full k ks)
    then obtain M where "sending (rpool a) = add_mset k M" by (metis insert_DiffM)
    then show ?thesis using sweep_full by (simp add: run_weight_def size_pool_ext_def)
  next
    case (sweep_drop k ks)
    then obtain M where "dropping (rpool a) = add_mset k M" by (metis insert_DiffM)
    then show ?thesis using sweep_drop by (simp add: run_weight_def size_pool_ext_def unmarkInFlight_def)
  next
    case (sweep_mark k ks w)
    then show ?thesis
      by (auto simp: run_weight_def size_pool_ext_def markInFlight_def split: if_splits)
  next
    case (goroutine_exits i)
    then have "card ({..<length (jobs (rpool a))} - insert i (exited a)) < card ({..<length (jobs (rpool a))} - exited a)"
      by (intro psubset_card_mono) auto
    then show ?thesis using goroutine_exits by (simp add: run_weight_def)
  qed (use step(2) in \<open>simp_all add: run_weight_def\<close>)
qed

text \<open>While \<open>Run\<close> has not returned, one of its goroutines can move.\<close>

lemma sweeper_moves:
  assumes "run_ok r" "sweeper r \<noteq> Waiting" "sweeper r \<noteq> Stopped"
  shows "\<exists>r'. run_step R env r SweeperMoves r'"
proof (cases "sweeper r")
  case Querying
  obtain x s' where "PendingEnrichment R [] 100 (pstore (rpool r)) = (x, s')" by fastforce
  then show ?thesis
    using sweep_failed [OF Querying, of R "[]" _ s' env] sweep_found [OF Querying, of R "[]" _ s' env]
    by (cases x) blast+
next
  case (Enqueuing ks)
  show ?thesis
  proof (cases ks)
    case Nil
    then show ?thesis using Enqueuing sweep_done by blast
  next
    case (Cons k ks')
    then show ?thesis using Enqueuing sweep_skip sweep_mark
      by (metis prod.collapse)
  qed
next
  case (SweepSending k ks)
  then have "k \<in># sending (rpool r)" using assms(1) by (simp add: run_ok_def undisturbed_def)
  then show ?thesis using SweepSending sweep_send sweep_full by blast
next
  case (SweepDropping k ks)
  then have "k \<in># dropping (rpool r)" using assms(1) by (simp add: run_ok_def undisturbed_def)
  then show ?thesis using SweepDropping sweep_drop by blast
qed (use assms in simp_all)

lemma goroutine_moves:
  assumes "run_ok r" "cancelled r" "i < length (jobs (rpool r))" "i \<notin> exited r" "sweeper r = Stopped"
  shows "\<exists>r'. winding R r r'"
proof (cases "holds (jobs (rpool r) ! i)")
  case None
  then have "jobs (rpool r) ! i = Idle" by (cases "jobs (rpool r) ! i") auto
  then show ?thesis using goroutine_exits [OF assms(2-4)] by (fastforce simp: winding_def)
next
  case (Some k)
  let ?p = "rpool r"
  have idle: "undisturbed r (?p\<lparr>pworker := w, pstore := s, jobs := (jobs ?p)[i := j]\<rparr>)" for w s j
    using assms(1,4,5) by (auto simp: run_ok_def undisturbed_def) (metis nth_list_update_neq)
  show ?thesis
  proof (cases "steps_left (jobs ?p ! i) = 0")
    case True
    then have "jobs ?p ! i = Leaving k" using Some by (cases "jobs ?p ! i") auto
    then have "run_step R (\<lambda>_ _. False) r PoolMoves
        (r\<lparr>rpool := ?p\<lparr>pworker := unmarkInFlight k (pworker ?p), jobs := (jobs ?p)[i := Idle]\<rparr>\<rparr>)"
      using leave [OF assms(3), of k R "\<lambda>_ _. False"] idle [where s = "pstore ?p"] by (intro pool_moves) simp_all
    then show ?thesis by (fastforce simp: winding_def unmarkInFlight_def)
  next
    case False
    then obtain j' s' where "job_step R (jobs ?p ! i) (pstore ?p) j' s'"
      using job_never_stuck [OF False, of R "pstore ?p"] by blast
    then have "run_step R (\<lambda>_ _. False) r PoolMoves (r\<lparr>rpool := ?p\<lparr>pstore := s', jobs := (jobs ?p)[i := j']\<rparr>\<rparr>)"
      using work [OF assms(3), of R j' s' "\<lambda>_ _. False"] idle [where w = "pworker ?p"] by (intro pool_moves) simp_all
    then show ?thesis by (fastforce simp: winding_def)
  qed
qed

lemma run_moves:
  assumes "run_ok r" "cancelled r" "\<not> returned r"
  shows "\<exists>r'. winding R r r'"
proof (cases "sweeper r = Stopped")
  case True
  then obtain i where "i < length (jobs (rpool r))" "i \<notin> exited r"
    using assms by (auto simp: returned_def run_ok_def)
  then show ?thesis using goroutine_moves assms(1,2) True by blast
next
  case False
  show ?thesis
  proof (cases "sweeper r = Waiting")
    case True
    then show ?thesis using sweeper_exits [OF assms(2) True] by (fastforce simp: winding_def)
  next
    case waiting: False
    then show ?thesis using sweeper_moves [OF assms(1) waiting False] by (fastforce simp: winding_def)
  qed
qed

text \<open>What can come from outside after the cancellation: a tick, a request, a new call of \<open>Enqueue\<close>.\<close>

definition from_outside :: "('s \<Rightarrow> 's \<Rightarrow> bool) \<Rightarrow> 's run \<Rightarrow> 's run \<Rightarrow> bool" where
  "from_outside env a b \<longleftrightarrow>
     sweeper a = Waiting \<and> b = a\<lparr>sweeper := Querying\<rparr>
   \<or> (\<exists>s'. env (pstore (rpool a)) s' \<and> b = a\<lparr>rpool := (rpool a)\<lparr>pstore := s'\<rparr>\<rparr>)
   \<or> (\<exists>k w. k \<noteq> [] \<and> markInFlight k (pworker (rpool a)) = (True, w)
        \<and> b = a\<lparr>rpool := (rpool a)\<lparr>pworker := w, sending := add_mset k (sending (rpool a))\<rparr>\<rparr>)"

lemma pool_step_inside:
  assumes "pool_step R env p q"
  shows "(\<exists>s'. env (pstore p) s' \<and> q = p\<lparr>pstore := s'\<rparr>)
    \<or> (\<exists>k w. k \<noteq> [] \<and> markInFlight k (pworker p) = (True, w) \<and> q = p\<lparr>pworker := w, sending := add_mset k (sending p)\<rparr>)
    \<or> settling R p q"
  using assms
proof cases
  case (drop k)
  then show ?thesis using pool_step.drop [of k p R "\<lambda>_ _. False"] by (auto simp: settling_def unmarkInFlight_def)
next
  case (leave i k)
  then show ?thesis using pool_step.leave [of i p k R "\<lambda>_ _. False"] by (auto simp: settling_def unmarkInFlight_def)
qed (auto simp: settling_def intro: pool_step.intros)

text \<open>A step of the reconciler or an exit has nothing to do with the requests.\<close>

lemma run_step_env: "run_step R env a act b \<Longrightarrow> act \<noteq> PoolMoves \<Longrightarrow> run_step R env' a act b"
proof (induction rule: run_step.induct)
  case (sweep_failed r ks err s')
  show ?case by (rule run_step.sweep_failed [OF sweep_failed(1,2)])
next
  case (sweep_found r ks xs s')
  show ?case by (rule run_step.sweep_found [OF sweep_found(1,2)])
next
  case (sweep_skip r k ks)
  show ?case by (rule run_step.sweep_skip [OF sweep_skip(1,2)])
qed (simp; rule run_step.intros; assumption)+

lemma inside_winding:
  assumes "run_step R env a act b" "cancelled a" "\<not> from_outside env a b"
  shows "winding R a b"
proof (cases "act = PoolMoves")
  case True
  then obtain p where pool_moves: "pool_step R env (rpool a) p" "undisturbed a p" "b = a\<lparr>rpool := p\<rparr>"
    using assms(1) by (auto elim: run_step.cases)
  then have "settling R (rpool a) p" using pool_step_inside [of R env "rpool a" p] assms(3) by (auto simp: from_outside_def)
  then have "run_step R (\<lambda>_ _. False) a PoolMoves b" "inFlight (pworker (rpool b)) \<subseteq> inFlight (pworker (rpool a))"
    using pool_moves run_step.pool_moves [of R "\<lambda>_ _. False" a p] by (auto simp: settling_def)
  then show ?thesis by (auto simp: winding_def)
next
  case False
  have "act \<notin> {Tick, Cancel}" using assms by (auto simp: from_outside_def elim: run_step.cases)
  then show ?thesis using run_step_env [OF assms(1) False] False by (auto simp: winding_def)
qed

lemma cancelled_stays: "run_step R env a act b \<Longrightarrow> cancelled a \<Longrightarrow> cancelled b"
  by (induction rule: run_step.induct) simp_all

text \<open>The goroutines alone cannot go on for ever, and they can always come to the end.\<close>

lemma winding_wf: "wf {(b, a). winding R a b}"
  by (rule wf_subset [OF wf_measures [of "[sweep_phase \<circ> sweeper, run_weight]"]]) (use winding_smaller in fast)

lemma outside_again:
  assumes "cancelled (f 0)" "\<And>n. \<exists>act. run_step R env (f n) act (f (Suc n))"
  shows "infinite {n. from_outside env (f n) (f (Suc n))}"
proof
  assume "finite {n. from_outside env (f n) (f (Suc n))}"
  then obtain N where N: "\<And>n. from_outside env (f n) (f (Suc n)) \<Longrightarrow> n < N"
    using finite_nat_set_iff_bounded by fastforce
  have c: "cancelled (f n)" for n
    by (induction n) (use assms cancelled_stays in metis)+
  have "winding R (f (N + n)) (f (Suc (N + n)))" for n
    using inside_winding [OF _ c] assms(2) N [of "N + n"] by (metis not_add_less1)
  then have "\<exists>g. \<forall>n. (g (Suc n), g n) \<in> {(b, a). winding R a b}"
    by (intro exI [of _ "\<lambda>n. f (N + n)"]) simp
  then show False using winding_wf [of R] by (simp add: wf_iff_no_infinite_down_chain)
qed

lemma can_return: "run_ok r \<Longrightarrow> cancelled r \<Longrightarrow> \<exists>q. (winding R)\<^sup>*\<^sup>* r q \<and> returned q"
proof (induction r rule: wf_induct_rule [OF winding_wf [of R]])
  case (1 r)
  show ?case
  proof (cases "returned r")
    case False
    then obtain r' where r': "winding R r r'" using run_moves 1(2,3) by blast
    then have "run_ok r'" "cancelled r'"
      using run_ok_step cancelled_stays 1(2,3) by (fastforce simp: winding_def)+
    then obtain q where "(winding R)\<^sup>*\<^sup>* r' q" "returned q" using 1(1) r' by blast
    then show ?thesis using r' by (meson converse_rtranclp_into_rtranclp)
  qed blast
qed

lemma returned_holds_nothing:
  assumes "runs R env (run_start opts s) r" "returned r"
  shows "mset_set (inFlight (pworker (rpool r)))
    = mset (chan (pworker (rpool r))) + sending (rpool r) + dropping (rpool r)"
proof -
  have "holds j = None" if "j \<in> set (jobs (rpool r))" for j
    using runs_ok' [OF assms(1)] assms(2) that
    by (auto simp: returned_def run_ok_def undisturbed_def in_set_conv_nth)
  then have "held (mset (jobs (rpool r))) = {#}"
    by (metis held_mem multiset_nonemptyE option.distinct(1) set_mset_mset)
  then show ?thesis
    using reachable_accounted [OF runs_pool [OF assms(1)]] by (simp add: accounted_def)
qed

text \<open>
  C10: the end of \<open>Run\<close>, with any store. No goroutine returns before the context is cancelled.
  After the cancellation only the outside can keep \<open>Run\<close> from ending: a run that never ends has
  infinitely many ticks, requests or new calls of \<open>Enqueue\<close> (the \<open>select\<close> may prefer a tick or
  the queue to the cancellation each time). Until \<open>Run\<close> has returned one of its goroutines can
  move, and by steps of the goroutines alone it can always come to its return. When it has
  returned no goroutine holds an ISBN: one still in flight waits in the queue or with a caller
  of \<open>Enqueue\<close>.
\<close>
theorem run_stops:
  assumes "runs R env (run_start opts s) r"
  shows "(cancelled r \<or> exited r = {} \<and> sweeper r \<noteq> Stopped)
    \<and> (cancelled r \<longrightarrow>
        (\<forall>f. f 0 = r \<longrightarrow> (\<forall>n. \<exists>act. run_step R env (f n) act (f (Suc n))) \<longrightarrow>
          infinite {n. from_outside env (f n) (f (Suc n))}))
    \<and> (cancelled r \<longrightarrow> returned r \<or> (\<exists>r'. winding R r r'))
    \<and> (cancelled r \<longrightarrow> (\<exists>q. (winding R)\<^sup>*\<^sup>* r q \<and> returned q))
    \<and> (returned r \<longrightarrow> mset_set (inFlight (pworker (rpool r)))
        = mset (chan (pworker (rpool r))) + sending (rpool r) + dropping (rpool r))"
proof (intro conjI impI allI)
  note ok = runs_ok' [OF assms]
  show "cancelled r \<or> exited r = {} \<and> sweeper r \<noteq> Stopped" using ok by (auto simp: run_ok_def)
  show "infinite {n. from_outside env (f n) (f (Suc n))}"
    if "cancelled r" "f 0 = r" "\<forall>n. \<exists>act. run_step R env (f n) act (f (Suc n))" for f
    using that by (intro outside_again [where R = R]) auto
  show "returned r \<or> (\<exists>r'. winding R r r')" if "cancelled r" using run_moves [OF ok that] by blast
  show "\<exists>q. (winding R)\<^sup>*\<^sup>* r q \<and> returned q" if "cancelled r" by (rule can_return [OF ok that])
  show "mset_set (inFlight (pworker (rpool r)))
      = mset (chan (pworker (rpool r))) + sending (rpool r) + dropping (rpool r)" if "returned r"
    by (rule returned_holds_nothing [OF assms that])
qed

text \<open>A run of two goroutines and the reconciler's, cancelled at its start, can come to its return.\<close>

theorem run_stops_witness:
  "\<exists>r q. cancelled r \<and> \<not> returned r \<and> (winding no_effect)\<^sup>*\<^sup>* r q \<and> returned q"
proof -
  let ?r = "(run_start \<lparr>Workers = 2, QueueSize = 1, SweepEvery = 1\<rparr> ())\<lparr>cancelled := True\<rparr>"
  have "\<not> cancelled (run_start \<lparr>Workers = 2, QueueSize = 1, SweepEvery = 1\<rparr> ())" by (simp add: run_start_def)
  then have "runs no_effect (\<lambda>_ _. False) (run_start \<lparr>Workers = 2, QueueSize = 1, SweepEvery = 1\<rparr> ()) ?r"
    unfolding runs_def by (intro r_into_rtranclp exI [of _ Cancel] cancel)
  note stops = run_stops [OF this]
  have c: "cancelled ?r" "\<not> returned ?r" by (simp_all add: returned_def run_start_def)
  then show ?thesis using stops by blast
qed

section \<open>The end of the program\<close>

text \<open>
  \<open>main\<close> after the signal: \<open>srv.Shutdown\<close> returns when the handlers under way have answered or
  after ten seconds, then \<open>main\<close> returns and the process ends, with every goroutine in it. It
  does not wait for \<open>Run\<close>. A signal cancels the context of the worker and wakes \<open>main\<close>; a listener
  that fails ends the process at once (\<open>os.Exit(1)\<close>).
\<close>

datatype phase = Serving | ShuttingDown | Ended

record 's process_state =
  worker_run :: "'s run"
  main_phase :: phase

inductive process_step ::
  "('s, 'z) enrich_store_ops_scheme \<Rightarrow> ('s \<Rightarrow> 's \<Rightarrow> bool) \<Rightarrow> 's process_state \<Rightarrow> 's process_state \<Rightarrow> bool"
  for R env where
  worker_moves: "main_phase x \<noteq> Ended \<Longrightarrow> run_step R env (worker_run x) act r \<Longrightarrow> act \<noteq> Cancel \<Longrightarrow>
    process_step R env x (x\<lparr>worker_run := r\<rparr>)"
| signalled: "main_phase x = Serving \<Longrightarrow> run_step R env (worker_run x) Cancel r \<Longrightarrow>
    process_step R env x \<lparr>worker_run = r, main_phase = ShuttingDown\<rparr>"
| fatal: "main_phase x = Serving \<Longrightarrow> process_step R env x (x\<lparr>main_phase := Ended\<rparr>)"
| shut_down: "main_phase x = ShuttingDown \<Longrightarrow> process_step R env x (x\<lparr>main_phase := Ended\<rparr>)"

definition process_start :: "options \<Rightarrow> 's \<Rightarrow> 's process_state" where
  "process_start opts s = \<lparr>worker_run = run_start opts s, main_phase = Serving\<rparr>"

lemma process_runs:
  "(process_step R env)\<^sup>*\<^sup>* (process_start opts s) x \<Longrightarrow>
   runs R env (run_start opts s) (worker_run x) \<and> (cancelled (worker_run x) \<longrightarrow> main_phase x \<noteq> Serving)"
proof (induction rule: rtranclp_induct)
  case base
  show ?case by (simp add: process_start_def runs_def run_start_def)
next
  case (step x y)
  from step(2,3) show ?case
  proof (cases rule: process_step.cases)
    case (worker_moves act r)
    then have "cancelled r = cancelled (worker_run x)" by (auto elim: run_step.cases)
    then show ?thesis using worker_moves step.IH
      by (auto simp: runs_def intro: rtranclp.rtrancl_into_rtrancl)
  next
    case (signalled r)
    then have "cancelled r" by (auto elim: run_step.cases)
    then show ?thesis using signalled step.IH
      by (auto simp: runs_def intro: rtranclp.rtrancl_into_rtrancl)
  qed auto
qed

end
