(* ===== verification/Shutdown.thy ===== *)
theory Shutdown
  imports Lifecycle Enrichment_Service
begin

text \<open>
  The life of the process on the Postgres store: what the end of \<open>main\<close>, which waits for no
  goroutine, leaves behind, and what the first sweep after a restart takes up again.
\<close>

section \<open>The statuses of the editions\<close>

definition statuses_typed :: "catalog \<Rightarrow> bool" where
  "statuses_typed c \<longleftrightarrow>
     (\<forall>e \<in> ran (cat_editions c). ed_status e \<in> {StatusPending, StatusEnriched, StatusFailed})"

lemma statuses_put: "statuses_typed c \<Longrightarrow> ed_status e \<in> {StatusPending, StatusEnriched, StatusFailed} \<Longrightarrow>
    statuses_typed (put_edition k e c)"
  by (auto simp: statuses_typed_def ran_def split: if_splits)

lemma statuses_cong: "cat_editions d = cat_editions c \<Longrightarrow> statuses_typed c \<Longrightarrow> statuses_typed d"
  by (simp add: statuses_typed_def)

lemma statuses_or_new: "statuses_typed c \<Longrightarrow> ed_status (edition_or_new k c) \<in> {StatusPending, StatusEnriched, StatusFailed}"
  by (cases "cat_editions c k") (auto simp: statuses_typed_def ran_def)

lemma statuses_spec:
  assumes "statuses_typed c"
  shows "statuses_typed (snd (spec_create now i u b c))" "statuses_typed (snd (spec_update now u b c))"
    "statuses_typed (snd (spec_delete u i c))" "statuses_typed (snd (spec_ensure k c))"
    "statuses_typed (snd (spec_mark_pending k c))" "statuses_typed (snd (spec_save_cover k cv c))"
    "st \<in> {StatusEnriched, StatusFailed} \<Longrightarrow> statuses_typed (snd (spec_save_enrichment now k m st c))"
proof -
  show "statuses_typed (snd (spec_create now i u b c))" "statuses_typed (snd (spec_update now u b c))"
    "statuses_typed (snd (spec_delete u i c))"
    using assms by (auto intro: statuses_cong [OF editions_kept(1)] statuses_cong [OF editions_kept(2)]
      statuses_cong [OF editions_kept(3)])
  show "statuses_typed (snd (spec_ensure k c))" "statuses_typed (snd (spec_mark_pending k c))"
    using assms by (auto simp: spec_ensure_def spec_mark_pending_def intro: statuses_put split: option.split)
  have "statuses_typed (c\<lparr>cat_covers := (cat_covers c)(k \<mapsto> cv)\<rparr>)"
    by (rule statuses_cong [OF _ assms]) simp
  then show "statuses_typed (snd (spec_save_cover k cv c))"
    using statuses_or_new [OF assms] by (simp add: spec_save_cover_def statuses_put)
  show "statuses_typed (snd (spec_save_enrichment now k m st c))" if "st \<in> {StatusEnriched, StatusFailed}"
    using that by (auto simp: spec_save_enrichment_def Let_def intro!: statuses_put [OF assms] split: option.split)
qed

definition keeps_statuses :: "('s \<Rightarrow> catalog) \<Rightarrow> ('s \<Rightarrow> bool) \<Rightarrow> ('s \<Rightarrow> 's \<Rightarrow> bool) \<Rightarrow> bool" where
  "keeps_statuses cat valid env \<longleftrightarrow>
     (\<forall>s s'. valid s \<longrightarrow> env s s' \<longrightarrow> statuses_typed (cat s) \<longrightarrow> statuses_typed (cat s'))"

context enrich_store
begin

lemma statuses_answers:
  "answers cat valid s res p \<Longrightarrow> statuses_typed (cat s) \<Longrightarrow> statuses_typed (snd p) \<Longrightarrow> statuses_typed (cat (snd res))"
  by (auto simp: answers_def)

lemma job_step_statuses:
  assumes "job_step R j s j' s'" "valid s" "statuses_typed (cat s)"
  shows "statuses_typed (cat s')"
  using assms(1)
proof cases
  case (save_cover k m cv)
  show ?thesis unfolding save_cover
    by (rule statuses_answers [OF law_save_cover [OF assms(2)] assms(3) statuses_spec(6) [OF assms(3)]])
next
  case (save k m now)
  show ?thesis unfolding save
    by (rule statuses_answers [OF law_save [OF assms(2)] assms(3) statuses_spec(7) [OF assms(3)]]) simp
next
  case (mark_failed k now)
  show ?thesis unfolding mark_failed
    by (rule statuses_answers [OF law_save [OF assms(2)] assms(3) statuses_spec(7) [OF assms(3)]]) simp
qed (use assms(3) status_step(2) [OF assms(2)] in auto)

lemma pool_statuses:
  assumes "(pool_step R env)\<^sup>*\<^sup>* (start opts s) p" "valid s" "harmless cat valid env"
    "keeps_statuses cat valid env" "statuses_typed (cat s)"
  shows "statuses_typed (cat (pstore p))"
  using assms(1)
proof (induction rule: rtranclp_induct)
  case base
  show ?case using assms(5) by (simp add: start_def Let_def)
next
  case (step p q)
  have v: "valid (pstore p)" using pool_reachable [OF step(1) assms(2,3)] by (simp add: pool_ok_def)
  from step(2) show ?case
  proof cases
    case (request s')
    then show ?thesis using v step.IH assms(4) by (auto simp: keeps_statuses_def)
  next
    case (work i j' s')
    then show ?thesis using job_step_statuses [OF work(3) v step.IH] by simp
  qed (use step.IH in auto)
qed

end

context repository
begin

lemma request_calls_statuses: "keeps_statuses cat valid (request_call R cat)"
  unfolding keeps_statuses_def
proof (intro allI impI)
  fix s s'
  assume v: "valid s" and call: "request_call R cat s s'" and t: "statuses_typed (cat s)"
  note kept = statuses_answers [OF _ t]
  from call show "statuses_typed (cat s')"
  proof cases
    case (1 b now i u)
    show ?thesis unfolding 1(1) by (rule kept [OF law_create [OF v 1(2)] statuses_spec(1) [OF t]])
  next
    case (2 u i)
    show ?thesis unfolding 2(1) by (rule kept [OF law_get [OF v]]) (simp add: t)
  next
    case (3 ks u)
    show ?thesis unfolding 3(1) by (rule kept [OF law_list [OF v 3(2)]]) (simp add: t)
  next
    case (4 b now u)
    show ?thesis unfolding 4(1) by (rule kept [OF law_update [OF v 4(2)] statuses_spec(2) [OF t]])
  next
    case (5 u i)
    show ?thesis unfolding 5(1) by (rule kept [OF law_delete [OF v] statuses_spec(3) [OF t]])
  next
    case (6 k)
    show ?thesis unfolding 6(1) by (rule kept [OF law_ensure [OF v] statuses_spec(4) [OF t]])
  next
    case (7 k)
    show ?thesis unfolding 7(1) by (rule kept [OF law_mark [OF v] statuses_spec(5) [OF t]])
  next
    case (8 u i)
    show ?thesis using kept [OF law_cover [OF v, of u i]] t unfolding 8(1) by simp
  qed
qed

end

section \<open>The process on Postgres\<close>

lemma pg_pending_reads:
  "pg_catalog (snd (pg_PendingEnrichment ks limit d)) = pg_catalog d"
  "pg_valid d \<Longrightarrow> pg_valid (snd (pg_PendingEnrichment ks limit d))"
  by (auto simp: pg_PendingEnrichment_def statement_def bound_def sql_pending_def pg_valid_def pg_checked_def
      split: list.split reply.split prod.splits sum.split if_splits)

lemma with_queries_harmless:
  "harmless pg_catalog pg_valid (or_query pg_repo (request_call pg_repo pg_catalog))"
  using pg.calls_harmless pg_pending_reads unfolding harmless_def or_query_def by fastforce

lemma with_queries_statuses:
  "keeps_statuses pg_catalog pg_valid (or_query pg_repo (request_call pg_repo pg_catalog))"
  using pg.request_calls_statuses pg_pending_reads unfolding keeps_statuses_def or_query_def by fastforce

lemma process_pool:
  assumes "(process_step R env)\<^sup>*\<^sup>* (process_start opts d) x"
  shows "(pool_step R (or_query R env))\<^sup>*\<^sup>* (start opts d) (rpool (worker_run x))"
  by (rule runs_pool [OF process_runs [OF assms, THEN conjunct1]])

text \<open>\<open>main\<close> can end in any state of the goroutines.\<close>

lemma main_ends_anywhere:
  assumes "cancelled (worker_run x) \<longrightarrow> main_phase x \<noteq> Serving"
  shows "\<exists>y. (process_step R env)\<^sup>*\<^sup>* x y \<and> main_phase y = Ended \<and> rpool (worker_run y) = rpool (worker_run x)"
proof -
  have down: "\<exists>y. (process_step R env)\<^sup>*\<^sup>* z y \<and> main_phase y = Ended \<and> rpool (worker_run y) = rpool (worker_run z)"
    if "main_phase z = ShuttingDown" for z
    using r_into_rtranclp [of "process_step R env" z, OF shut_down [OF that]] by fastforce
  show ?thesis
  proof (cases "main_phase x")
    case Serving
    let ?z = "\<lparr>worker_run = (worker_run x)\<lparr>cancelled := True\<rparr>, main_phase = ShuttingDown\<rparr>"
    have first: "process_step R env x ?z" using signalled [OF Serving cancel] Serving assms by blast
    obtain y where y: "(process_step R env)\<^sup>*\<^sup>* ?z y" "main_phase y = Ended" "rpool (worker_run y) = rpool (worker_run x)"
      using down [of ?z] by auto
    show ?thesis using converse_rtranclp_into_rtranclp [of "process_step R env", OF first y(1)] y(2,3) by blast
  qed (use down in blast)+
qed

text \<open>
  C8: ending the process loses no cover. In every state the process can reach on a Postgres
  store, with all requests, sweeps, the shutdown and any failures, and so in whatever state its
  end cuts the goroutines off, the tables are valid and the edition of an ISBN a goroutine is
  looking up, fetching or storing for is not enriched: nobody reads it as complete, and it is
  still to be done after a restart. No two goroutines hold the same ISBN.
\<close>
theorem pg_shutdown_safe:
  assumes "(process_step pg_repo (request_call pg_repo pg_catalog))\<^sup>*\<^sup>* (process_start opts d) x" "pg_valid d"
    and "i < length (jobs (rpool (worker_run x)))" "working (jobs (rpool (worker_run x)) ! i) = Some (ISBN b)"
  shows "pg_valid (pstore (rpool (worker_run x)))
    \<and> EnrichmentStatus (reader_view (pg_catalog (pstore (rpool (worker_run x)))) b) \<noteq> StatusEnriched
    \<and> (\<exists>y. (process_step pg_repo (request_call pg_repo pg_catalog))\<^sup>*\<^sup>* (process_start opts d) y
        \<and> main_phase y = Ended \<and> rpool (worker_run y) = rpool (worker_run x))"
proof (intro conjI)
  note facts = pg.reachable_pool_facts [OF process_pool [OF assms(1)] assms(2) with_queries_harmless]
  show "pg_valid (pstore (rpool (worker_run x)))" by (rule facts(2))
  show "EnrichmentStatus (reader_view (pg_catalog (pstore (rpool (worker_run x)))) b) \<noteq> StatusEnriched"
    using facts(3) [OF assms(3,4)]
    by (auto simp: reader_view_def edition_of_def is_enriched_def StatusEnriched_def split: option.splits)
  show "\<exists>y. (process_step pg_repo (request_call pg_repo pg_catalog))\<^sup>*\<^sup>* (process_start opts d) y
        \<and> main_phase y = Ended \<and> rpool (worker_run y) = rpool (worker_run x)"
    using main_ends_anywhere [of x pg_repo "request_call pg_repo pg_catalog"] process_runs [OF assms(1)] assms(1)
    by (meson rtranclp_trans)
qed

text \<open>Before the first sweep the pool moves in the process as it does alone.\<close>

lemma pool_in_process:
  assumes "(pool_step R env)\<^sup>*\<^sup>* (start opts d) p"
  shows "(process_step R env)\<^sup>*\<^sup>* (process_start opts d)
    \<lparr>worker_run = (run_start opts d)\<lparr>rpool := p\<rparr>, main_phase = Serving\<rparr>"
  using assms
proof (induction rule: rtranclp_induct)
  case base
  show ?case by (simp add: process_start_def run_start_def)
next
  case (step p q)
  let ?r = "(run_start opts d)\<lparr>rpool := p\<rparr>"
  have "run_step R env ?r PoolMoves (?r\<lparr>rpool := q\<rparr>)"
    using step(2) by (intro pool_moves) (simp_all add: undisturbed_def run_start_def)
  then have "process_step R env \<lparr>worker_run = ?r, main_phase = Serving\<rparr>
      (\<lparr>worker_run = ?r, main_phase = Serving\<rparr>\<lparr>worker_run := ?r\<lparr>rpool := q\<rparr>\<rparr>)"
    by (intro worker_moves [where act = PoolMoves]) simp_all
  then show ?case using step.IH by simp
qed

theorem pg_shutdown_safe_witness:
  "pg_valid pending_db \<and> EnrichmentStatus (reader_view (pg_catalog pending_db) (posted 5000 noon ''ann'' ''9782070368224'' scan))
    \<noteq> StatusEnriched"
  using pg_shutdown_safe [OF pool_in_process [OF asking_reachable], of 0 "posted 5000 noon ''ann'' ''9782070368224'' scan"]
  by (simp add: asking_def pool_at_def)

section \<open>After a restart\<close>

text \<open>
  C11: a restart resumes what the end of the process cut off, within the bounds of one sweep.
  Let the process end in any state it can reach on a Postgres store, while a goroutine works
  on an ISBN that has an edition: the edition is unfinished. When the program starts again on
  that database, its connection is up, the new queue has room for a hundred ISBNs (the default
  is 128) and at most a hundred editions are unfinished, which is the limit of a sweep, then
  the first sweep puts the ISBN, and every other unfinished one, back in flight.
\<close>
theorem pg_restart_resumes:
  assumes "(process_step pg_repo (request_call pg_repo pg_catalog))\<^sup>*\<^sup>* (process_start opts d) x" "pg_valid d"
    and "statuses_typed (pg_catalog d)"
    and "i < length (jobs (rpool (worker_run x)))" "working (jobs (rpool (worker_run x)) ! i) = Some k"
    and "db' = (pstore (rpool (worker_run x)))\<lparr>conn := []\<rparr>" "cat_editions (pg_catalog db') k \<noteq> None"
    and "enumerates ks (cat_editions (pg_catalog db'))" "card (Collect (unfinished (pg_catalog db'))) \<le> 100"
    and "100 \<le> chan_cap (NewWorker opts')"
  shows "k \<in> Collect (unfinished (pg_catalog db'))
    \<and> Collect (unfinished (pg_catalog db')) - {[]} \<subseteq> inFlight (snd (reconcile pg_repo ks (db', NewWorker opts')))"
proof
  let ?c = "pg_catalog db'"
  note reach = process_pool [OF assms(1)]
  note facts = pg.reachable_pool_facts [OF reach assms(2) with_queries_harmless]
  have cat: "?c = pg_catalog (pstore (rpool (worker_run x)))" using assms(6) by simp
  have v: "pg_valid db'" "pg_healthy db'"
    using facts(2) assms(6) by (simp_all add: pg_valid_def pg_checked_def pg_healthy_def)
  have "statuses_typed ?c"
    using pg.pool_statuses [OF reach assms(2) with_queries_harmless with_queries_statuses assms(3)] cat by simp
  moreover have "\<not> is_enriched ?c k" using facts(3) [OF assms(4,5)] cat by simp
  ultimately show "k \<in> Collect (unfinished ?c)"
    using assms(7) by (auto simp: statuses_typed_def is_enriched_def unfinished_def ran_def)
  have fin: "finite (Collect (unfinished ?c))"
    using enumerates_finite [OF assms(8)] by (rule finite_subset [rotated]) (auto simp: unfinished_def)
  have "delivers (\<lambda>_. True) (PendingEnrichment pg_repo ks 100 db')"
    using v(2) by (simp add: delivers_def pg_PendingEnrichment_def statement_healthy sql_pending_def)
  moreover have "int (length (chan (NewWorker opts'))) + 100 \<le> chan_cap (NewWorker opts')"
    using assms(10) by (simp add: NewWorker_def Let_def)
  ultimately show "Collect (unfinished ?c) - {[]} \<subseteq> inFlight (snd (reconcile pg_repo ks (db', NewWorker opts')))"
    using pg.sweep_all [OF v(1) assms(8) NewWorker_ok _ assms(9) fin] by auto
qed

theorem pg_restart_resumes_witness:
  "''9782070368224'' \<in> inFlight (snd (reconcile pg_repo [''9782070368224''] (pending_db, NewWorker defaults)))"
proof -
  let ?k = "''9782070368224''" and ?x = "\<lparr>worker_run = (run_start defaults pending_db)\<lparr>rpool := asking\<rparr>, main_phase = Serving\<rparr>"
  have db: "pending_db = (pstore (rpool (worker_run ?x)))\<lparr>conn := []\<rparr>"
    using pending_db_ok(2) by (simp add: asking_def pool_at_def pg_healthy_def)
  have i: "0 < length (jobs (rpool (worker_run ?x)))" "working (jobs (rpool (worker_run ?x)) ! 0) = Some ?k"
    by (simp_all add: asking_def pool_at_def)
  have u: "Collect (unfinished (pg_catalog pending_db)) = {?k}"
    by (auto simp: unfinished_def pg_edition_of_def new_edition_def split: if_splits)
  have st: "statuses_typed (pg_catalog pending_db)"
    by (auto simp: statuses_typed_def ran_def pg_edition_of_def new_edition_def split: if_splits)
  have e: "enumerates [?k] (cat_editions (pg_catalog pending_db))" "cat_editions (pg_catalog pending_db) ?k \<noteq> None"
    by (auto simp: enumerates_def)
  have cap: "100 \<le> chan_cap (NewWorker defaults)" "card (Collect (unfinished (pg_catalog pending_db))) \<le> 100"
    by (simp_all add: NewWorker_def defaults_def Let_def u)
  note resumes = pg_restart_resumes [OF pool_in_process [OF asking_reachable] pending_db_ok(1) st i db e(2,1) cap(2,1)]
  show ?thesis using resumes [THEN conjunct2] by (simp add: u)
qed

end
