(* ===== verification/Defects.thy ===== *)
theory Defects
  imports Shutdown Server
begin

text \<open>
  Two ways in which the program loses work it promised, on the Postgres store: a refresh that
  arrives while its ISBN is being processed, and a cover whose storing fails.
\<close>

lemma saved_metadata:
  assumes "pg_valid d" "pg_healthy d" "pg_text k" "int4 (m_PageCount m)" "list_all pg_text (metadata_texts m)"
  shows "pg_catalog (snd (pg_SaveEnrichment now k (Some m) StatusEnriched d)) = put_edition k
      ((edition_or_new k (pg_catalog d))\<lparr>ed_status := StatusEnriched, ed_meta := m, ed_at := Some (truncate_us now)\<rparr>)
      (pg_catalog d)"
    and "pg_valid (snd (pg_SaveEnrichment now k (Some m) StatusEnriched d))"
    and "pg_healthy (snd (pg_SaveEnrichment now k (Some m) StatusEnriched d))"
proof -
  have "pg_text StatusEnriched" by (rule pg_text_ascii) (simp_all add: StatusEnriched_def ascii_def)
  then have "delivers pg_healthy (pg_SaveEnrichment now k (Some m) StatusEnriched d)"
    using pg_healthy_writes(4) [OF assms(2,3)] assms(4,5) by simp
  note saved = answers_delivered [OF pg.law_save [OF assms(1), unfolded pg_repo_simps] this]
  show "pg_valid (snd (pg_SaveEnrichment now k (Some m) StatusEnriched d))"
    "pg_healthy (snd (pg_SaveEnrichment now k (Some m) StatusEnriched d))" using saved by simp_all
  show "pg_catalog (snd (pg_SaveEnrichment now k (Some m) StatusEnriched d)) = put_edition k
      ((edition_or_new k (pg_catalog d))\<lparr>ed_status := StatusEnriched, ed_meta := m, ed_at := Some (truncate_us now)\<rparr>)
      (pg_catalog d)"
    using saved by (simp add: spec_save_enrichment_def Let_def)
qed

text \<open>Nothing further is done for an enriched edition.\<close>

lemma enriched_skipped:
  assumes "pg_valid d" "pg_healthy d" "pg_text k"
    and "cat_editions (pg_catalog d) k = Some e" "ed_status e = StatusEnriched"
  shows "pg_catalog (process pg_repo prov now k d) = pg_catalog d"
proof -
  have "delivers pg_healthy (pg_EditionStatus k d)" using pg_healthy_reads(3) [OF assms(2,3)] .
  note st = answers_delivered [OF pg.law_status [OF assms(1), unfolded pg_repo_simps] this]
  have "fst (spec_edition_status k (pg_catalog d)) = Inr (StatusEnriched, True)"
    unfolding spec_edition_status_def assms(4) by (simp add: assms(5))
  then obtain s1 where "pg_EditionStatus k d = (Inr (StatusEnriched, True), s1)" "pg_catalog s1 = pg_catalog d"
    using st by (cases "pg_EditionStatus k d") (simp add: spec_edition_status_def)
  then show ?thesis by (simp add: process_def)
qed

section \<open>A refresh during the processing of its ISBN\<close>

text \<open>The ISBN and the metadata of a goroutine between its lookup and the storing of the metadata.\<close>

fun fetched :: "job \<Rightarrow> (string \<times> metadata) option" where
  "fetched (Covering k m) = Some (k, m)"
| "fetched (SavingCover k m cv) = Some (k, m)"
| "fetched (Saving k m) = Some (k, m)"
| "fetched _ = None"

lemma fetched_holds: "fetched j = Some (k, m) \<Longrightarrow> holds j = Some k"
  by (cases j) simp_all

text \<open>Any steps of the pool and of requests until the goroutine stores what it fetched.\<close>

definition until_stored :: "nat \<Rightarrow> string \<Rightarrow> metadata \<Rightarrow> database pool \<Rightarrow> database pool \<Rightarrow> bool" where
  "until_stored n k m = (\<lambda>p q. pool_step pg_repo (request_call pg_repo pg_catalog) p q
     \<and> n < length (jobs q) \<and> fetched (jobs q ! n) = Some (k, m))\<^sup>*\<^sup>*"

abbreviation pg_pool_ok :: "database pool \<Rightarrow> bool" where
  "pg_pool_ok \<equiv> enrich_store.pool_ok pg_catalog pg_valid"

lemma until_stored_facts:
  assumes "until_stored n k m p q" "pg_pool_ok p" "n < length (jobs p)" "fetched (jobs p ! n) = Some (k, m)"
  shows "pg_pool_ok q \<and> n < length (jobs q) \<and> fetched (jobs q ! n) = Some (k, m)"
  using assms(1) unfolding until_stored_def
proof (induction rule: rtranclp_induct)
  case (step q r)
  then show ?case using pg.pool_step_ok [OF _ _ pg.calls_harmless] by blast
qed (use assms in simp)

lemma stale_stored:
  assumes "pg_valid d" "pg_healthy d" "pg_text k" "int4 (m_PageCount m)" "list_all pg_text (metadata_texts m)"
    and "job_step pg_repo (Saving k m) d j d'"
  shows "\<exists>e. cat_editions (pg_catalog d') k = Some e \<and> ed_meta e = m \<and> ed_status e = StatusEnriched
    \<and> (\<forall>prov later. pg_catalog (process pg_repo prov later k d') = pg_catalog d')"
proof -
  obtain now where d': "d' = snd (pg_SaveEnrichment now k (Some m) StatusEnriched d)"
    using assms(6) by (auto elim!: job_stepE)
  note saved = saved_metadata [OF assms(1-5), of now, folded d']
  define e where "e = (edition_or_new k (pg_catalog d))\<lparr>ed_status := StatusEnriched, ed_meta := m,
    ed_at := Some (truncate_us now)\<rparr>"
  have e: "cat_editions (pg_catalog d') k = Some e" "ed_meta e = m" "ed_status e = StatusEnriched"
    using saved(1) by (simp_all add: e_def)
  then show ?thesis using enriched_skipped [OF saved(2,3) assms(3) e(1,3)] by blast
qed

text \<open>
  C36: a refresh that arrives while a goroutine holds metadata of its ISBN, fetched before and not
  yet stored, is answered and lost. Take any reachable state of the pool on a healthy store with
  such a goroutine. POST refresh answers that it is queued and marks the edition pending, but
  the queue and the in-flight set stay as they are. Whatever the other goroutines, callers and
  requests do until that goroutine stores what it has, the ISBN is neither queued nor worked on
  by anyone else; and when it is stored, on a healthy connection, the edition is enriched with
  the old metadata, so that no sweep finds it and processing it again changes nothing.
\<close>
theorem refresh_in_flight_lost:
  assumes "(pool_step pg_repo (request_call pg_repo pg_catalog))\<^sup>*\<^sup>* (start opts d) p" "pg_valid d"
    and "pg_healthy (pstore p)" "n < length (jobs p)" "fetched (jobs p ! n) = Some (ISBN b, m)"
    and "int4 (m_PageCount m)" "list_all pg_text (metadata_texts m)"
    and "requireUser ctx = Inr u" "owned (pg_catalog (pstore p)) u i = Some b"
    and "acceptable pg_text rt u (pg_catalog (pstore p)) (RefreshBook i)"
  shows "\<exists>sv'. handle pg_repo enricher_Enqueue ks rt ctx (RefreshBook i) \<lparr>db = pstore p, queue = Some (pworker p)\<rparr>
        = (Inr (RRefresh \<lparr>out_Status = ''queued'', out_ISBN = ISBN b\<rparr>), sv')
    \<and> queue sv' = Some (pworker p) \<and> unfinished (pg_catalog (db sv')) (ISBN b)
    \<and> (\<forall>q. until_stored n (ISBN b) m (p\<lparr>pstore := db sv'\<rparr>) q \<longrightarrow>
        ISBN b \<notin> set (chan (pworker q))
      \<and> (\<forall>j < length (jobs q). holds (jobs q ! j) = Some (ISBN b) \<longrightarrow> j = n)
      \<and> (\<forall>j d'. pg_healthy (pstore q) \<longrightarrow> job_step pg_repo (Saving (ISBN b) m) (pstore q) j d' \<longrightarrow>
          (\<exists>e. cat_editions (pg_catalog d') (ISBN b) = Some e \<and> ed_meta e = m \<and> ed_status e = StatusEnriched)
        \<and> \<not> unfinished (pg_catalog d') (ISBN b)
        \<and> (\<forall>prov later. pg_catalog (process pg_repo prov later (ISBN b) d') = pg_catalog d')))"
proof -
  let ?k = "ISBN b" and ?sv = "\<lparr>db = pstore p, queue = Some (pworker p)\<rparr>"
  have ok: "pg_pool_ok p" by (rule pg.reachable_pool [OF assms(1,2) pg.calls_harmless])
  then have acc: "accounted p" "pg_valid (db ?sv)" "pg_healthy (db ?sv)"
    using assms(3) by (simp_all add: pg.pool_ok_alt)
  have inflight: "?k \<in> inFlight (pworker p)"
    using held_alone [OF acc(1) assms(4) fetched_holds [OF assms(5)]] by simp
  then have k: "?k \<noteq> []" using acc(1) by (auto simp: accounted_def)
  have own: "owned (pg_catalog (db ?sv)) u i = Some b" and a: "acceptable pg_text rt u (pg_catalog (db ?sv)) (RefreshBook i)"
    using assms(9,10) by simp_all
  have ktext: "pg_text ?k" using a own by simp
  obtain sv' where h: "handle pg_repo enricher_Enqueue ks rt ctx (RefreshBook i) ?sv
        = (Inr (RRefresh \<lparr>out_Status = ''queued'', out_ISBN = ?k\<rparr>), sv')"
    "pg_catalog (db sv') = snd (spec_mark_pending ?k (pg_catalog (pstore p)))"
    "queue sv' = enricher_Enqueue ?k (Some (pworker p))" "pg_valid (db sv')" "pg_healthy (db sv')"
    by (rule pg.refresh_outcome [OF acc(2,3) assms(8) a own k, of enricher_Enqueue ks]) simp
  have q': "queue sv' = Some (pworker p)"
    using h(3) inflight by (simp add: enricher_Enqueue_def Enqueue_def markInFlight_def)
  have "is_enriched (pg_catalog (pstore p)) x" if "is_enriched (pg_catalog (db sv')) x" for x
    using that request_enriched(5) unfolding h(2) by blast
  then have ok': "pg_pool_ok (p\<lparr>pstore := db sv'\<rparr>)"
    using ok h(4) by (auto simp: pg.pool_ok_alt accounted_def)
  have later: "?k \<notin> set (chan (pworker q)) \<and> (\<forall>j < length (jobs q). holds (jobs q ! j) = Some ?k \<longrightarrow> j = n)
      \<and> pg_valid (pstore q)" if "until_stored n ?k m (p\<lparr>pstore := db sv'\<rparr>) q" for q
  proof -
    have f: "pg_pool_ok q" "n < length (jobs q)" "fetched (jobs q ! n) = Some (?k, m)"
      using until_stored_facts [OF that ok'] assms(4,5) by simp_all
    then show ?thesis
      using held_alone [OF _ f(2) fetched_holds [OF f(3)]] by (simp add: pg.pool_ok_alt)
  qed
  have stored: "(\<exists>e. cat_editions (pg_catalog d') ?k = Some e \<and> ed_meta e = m \<and> ed_status e = StatusEnriched)
      \<and> \<not> unfinished (pg_catalog d') ?k
      \<and> (\<forall>prov later. pg_catalog (process pg_repo prov later ?k d') = pg_catalog d')"
    if "until_stored n ?k m (p\<lparr>pstore := db sv'\<rparr>) q" "pg_healthy (pstore q)"
      "job_step pg_repo (Saving ?k m) (pstore q) j d'" for q j d'
    using stale_stored [OF _ that(2) ktext assms(6,7) that(3)] later [OF that(1)]
    by (auto simp: unfinished_def StatusEnriched_def StatusPending_def StatusFailed_def)
  have "unfinished (pg_catalog (db sv')) ?k" by (simp add: h(2) unfinished_def spec_mark_pending_def)
  then show ?thesis using h(1) q' later stored by blast
qed

text \<open>A goroutine that has looked up the ISBN of bob's book and has yet to fetch the cover.\<close>

lemma covering_reachable:
  "(pool_step pg_repo (request_call pg_repo pg_catalog))\<^sup>*\<^sup>* (start defaults bobs_db)
     (pool_at bobs_db (Covering ''9782070368224'' taupe))"
proof -
  have "pg_EditionStatus ''9782070368224'' bobs_db = (Inr ([], False), bobs_db)"
    using bobs_db_ok(2) by (simp add: pg_EditionStatus_def statement_healthy sql_select_status_def
        pg_text_ascii bobs_db_def migrated_def)
  then have "(pool_step pg_repo (request_call pg_repo pg_catalog))\<^sup>*\<^sup>* (start defaults bobs_db)
      (pool_at bobs_db (Asking ''9782070368224''))" by (rule pool_at_reachable) simp
  moreover have "pool_step pg_repo (request_call pg_repo pg_catalog) (pool_at bobs_db (Asking ''9782070368224''))
      (pool_at bobs_db (Covering ''9782070368224'' taupe))"
    using work [of 0 "pool_at bobs_db (Asking ''9782070368224'')" pg_repo "Covering ''9782070368224'' taupe" bobs_db
        "request_call pg_repo pg_catalog"] by (simp add: pool_at_def lookup_done)
  ultimately show ?thesis by (rule rtranclp.rtrancl_into_rtrancl)
qed

theorem refresh_in_flight_lost_witness:
  "\<exists>sv'. handle pg_repo enricher_Enqueue [] noon bob (RefreshBook ''b7'')
        \<lparr>db = bobs_db, queue = Some ((NewWorker defaults)\<lparr>inFlight := {''9782070368224''}\<rparr>)\<rparr>
      = (Inr (RRefresh \<lparr>out_Status = ''queued'', out_ISBN = ''9782070368224''\<rparr>), sv')
    \<and> queue sv' = Some ((NewWorker defaults)\<lparr>inFlight := {''9782070368224''}\<rparr>)"
proof -
  let ?p = "pool_at bobs_db (Covering ''9782070368224'' taupe)" and ?b = "pg_book_of bobs_row"
  have f: "int4 (m_PageCount taupe)" "list_all pg_text (metadata_texts taupe)"
    by (simp_all add: taupe_def int4_def metadata_texts_def pg_text_ascii)
  have bob: "requireUser bob = Inr ''bob''" and isbn: "ISBN ?b = ''9782070368224''"
    by (simp_all add: requireUser_def FromContext_def bob_def bobs_row_def)
  have p: "pstore ?p = bobs_db" "pworker ?p = (NewWorker defaults)\<lparr>inFlight := {''9782070368224''}\<rparr>"
    by (simp_all add: pool_at_def)
  have j: "pg_healthy (pstore ?p)" "0 < length (jobs ?p)" "fetched (jobs ?p ! 0) = Some (ISBN ?b, taupe)"
    unfolding p(1) isbn by (simp_all add: pool_at_def)
  have own: "owned (pg_catalog (pstore ?p)) ''bob'' ''b7'' = Some ?b" unfolding p(1) by simp
  then have acc: "acceptable pg_text noon ''bob'' (pg_catalog (pstore ?p)) (RefreshBook ''b7'')"
    using isbn by (simp add: pg_text_ascii)
  show ?thesis
    using refresh_in_flight_lost [OF covering_reachable bobs_db_ok(1) j f bob own acc, of "[]"]
    unfolding p isbn by blast
qed

section \<open>A cover whose storing fails\<close>

text \<open>
  C37: a cover whose storing fails is never fetched again. When the statement that opens the
  transaction of \<open>SaveCover\<close> is refused, the edition is enriched all the same, without the
  cover; from then on no sweep finds it, and processing its ISBN again, with whatever provider,
  changes nothing.
\<close>
theorem failed_cover_is_lost:
  assumes "pg_valid d" "conn d = [Answered, Refused msg]" "pg_text k" "fits pg_text prov k"
    and "cat_editions (pg_catalog d) k = Some e" "ed_status e \<noteq> StatusEnriched"
    and "Lookup prov k = Inr m" "FetchCover prov k = Inr cv"
  shows "pg_catalog (process pg_repo prov now k d)
      = put_edition k (e\<lparr>ed_status := StatusEnriched, ed_meta := m, ed_at := Some (truncate_us now)\<rparr>) (pg_catalog d)
    \<and> \<not> unfinished (pg_catalog (process pg_repo prov now k d)) k
    \<and> (\<forall>prov' later. pg_catalog (process pg_repo prov' later k (process pg_repo prov now k d))
        = pg_catalog (process pg_repo prov now k d))"
proof -
  let ?d1 = "d\<lparr>conn := [Refused msg]\<rparr>" and ?d2 = "d\<lparr>conn := []\<rparr>"
  let ?e = "e\<lparr>ed_status := StatusEnriched, ed_meta := m, ed_at := Some (truncate_us now)\<rparr>"
  let ?d3 = "process pg_repo prov now k d"
  obtain row where row: "editions_tbl d k = Some row" "pg_edition_of row = e" using assms(5) by auto
  then have "ecol_enrichment_status row = ed_status e" by (auto simp: pg_edition_of_def)
  then have status: "pg_EditionStatus k d = (Inr (ed_status e, True), ?d1)"
    using assms(2,3) row(1) by (simp add: pg_EditionStatus_def statement_def bound_def sql_select_status_def)
  have cover: "snd (pg_SaveCover k cv ?d1) = ?d2" by (simp add: pg_SaveCover_def statement_def)
  have d2: "pg_valid ?d2" "pg_healthy ?d2" "pg_catalog ?d2 = pg_catalog d"
    using assms(1) by (simp_all add: pg_valid_def pg_checked_def pg_healthy_def)
  have m: "int4 (m_PageCount m)" "list_all pg_text (metadata_texts m)"
    using assms(4,7) by (simp_all add: fits_def)
  have d3: "?d3 = snd (pg_SaveEnrichment now k (Some m) StatusEnriched ?d2)"
    using status assms(6-8) cover by (simp add: process_def storeCover_def Let_def)
  have saved: "pg_catalog ?d3 = put_edition k ?e (pg_catalog d)" "pg_valid ?d3" "pg_healthy ?d3"
    using saved_metadata [OF d2(1,2) assms(3) m, of now] d3 d2(3) assms(5) by simp_all
  have skipped: "pg_catalog (process pg_repo prov' later k ?d3) = pg_catalog ?d3" for prov' later
    using saved(1) by (intro enriched_skipped [OF saved(2,3) assms(3), where e = ?e]) simp_all
  have "\<not> unfinished (pg_catalog ?d3) k"
    by (simp add: saved(1) unfinished_def StatusEnriched_def StatusPending_def StatusFailed_def)
  then show ?thesis using saved(1) skipped by blast
qed

theorem failed_cover_is_lost_witness:
  "cat_covers (pg_catalog (process pg_repo library 7000 ''9782070368224''
      (pending_db\<lparr>conn := [Answered, Refused ''down'']\<rparr>))) ''9782070368224'' = None"
proof -
  let ?d = "pending_db\<lparr>conn := [Answered, Refused ''down'']\<rparr>"
  have d: "pg_valid ?d" "conn ?d = [Answered, Refused ''down'']" "pg_text ''9782070368224''"
    "cat_editions (pg_catalog ?d) ''9782070368224'' = Some (pg_edition_of (new_edition StatusPending))"
    using pending_db_ok(1) by (simp_all add: pg_valid_def pg_checked_def pg_text_ascii)
  have "ed_status (pg_edition_of (new_edition StatusPending)) \<noteq> StatusEnriched"
    by (simp add: pg_edition_of_def new_edition_def StatusPending_def StatusEnriched_def)
  then show ?thesis
    using failed_cover_is_lost [OF d(1-3) library_fits(1) d(4) _ library_fits(2,3), of 7000]
    by (simp add: pending_db_def migrated_def)
qed

end
