(* ===== verification/Spec2Isabelle.thy ===== *)
theory Spec2Isabelle
  imports Server_Runs Defects
begin

text \<open>
  Ex-Libris is a self-hosted book tracker with an HTTP API (\<open>src/\<close>, Go). A user adds a book by
  its ISBN; the server keeps the user's own data with the book and the metadata and cover of
  the ISBN in an edition shared by all users, which a background worker fetches from Open
  Library or Google Books. This library models all of the program's own logic and proves what
  makes it correct. The theories, from the bottom up:

  \<^item> \<open>Prelude\<close>: Go errors and \<open>errors.Is\<close>, fallible calls on a state, enumerations of maps.
  \<^item> \<open>Go_Strings\<close>, \<open>Url\<close>: UTF-8 decoding and the functions of \<open>strings\<close>, \<open>strconv\<close> and
    \<open>net/url\<close> the program uses, with the decoding of what they escape.
  \<^item> \<open>Isbn\<close> (\<open>books/isbn.go\<close>), \<open>Enrich_Types\<close> (\<open>enrich/provider.go\<close>), \<open>Book\<close>
    (\<open>books/book.go\<close>): canonical ISBNs, the records, the rules both stores share.
  \<^item> \<open>Catalog\<close>: the abstract specification, one catalogue of books, editions and covers, and
    what every operation of the store interfaces promises. \<open>Repository\<close>
    (\<open>books/store.go\<close>): the interfaces as records of operations and their contract as the
    locales \<open>enrich_store\<close> and \<open>repository\<close>: an operation keeps the invariant and does what
    is promised, or the backend failed; on a healthy backend it does not fail.
  \<^item> \<open>Memory_Store\<close> (\<open>books/store_memory.go\<close>) and \<open>Postgres_Store\<close>
    (\<open>books/store_postgres.go\<close>, \<open>migrations/\<close>): the two implementations, each an
    interpretation of \<open>repository\<close>. \<open>Spec_Store\<close> is the catalogue itself as an implementation.
  \<^item> \<open>Auth\<close> (\<open>auth/auth.go\<close>), \<open>Handlers\<close> (\<open>books/handlers.go\<close>): the middlewares and the
    seven handlers over the interface. \<open>Handler_Laws\<close>, \<open>Service_Spec\<close>: what the handlers do
    under the contract, what a user can observe. \<open>Book_Service\<close>: their properties on the stores.
  \<^item> \<open>Worker\<close>, \<open>Worker_Pool\<close> (\<open>enrich/worker.go\<close>): the queue with its in-flight set, the
    processing of an ISBN and the reconciler; the goroutines as a step relation in which any
    of them, any caller of \<open>Enqueue\<close> and any request moves next. \<open>Enrichment_Service\<close>: their
    properties on the stores. \<open>Pool_Progress\<close>: the pool comes to rest.
  \<^item> \<open>Http_Client\<close> (\<open>enrich/httpclient.go\<close>), \<open>Provider_Contract\<close>, \<open>Open_Library\<close>
    (\<open>enrich/openlibrary.go\<close>), \<open>Google_Books\<close> (\<open>enrich/googlebooks.go\<close>), \<open>Fallback\<close>
    (\<open>enrich/fallback.go\<close>): the providers over an arbitrary network; the locale
    \<open>cover_source\<close> is the contract on the covers they return. \<open>Sourcing\<close>: the providers
    composed with the worker and the handlers.
  \<^item> \<open>Search\<close>, \<open>Search_Service\<close> (\<open>search/handlers.go\<close>): the search endpoint and its cache.
  \<^item> \<open>Api\<close> (\<open>Register\<close> of both handlers, the tags of their inputs): the operations, the
    routing of a request to one of them beside the documentation routes of the Huma library, the
    validation of its input.
  \<^item> \<open>Server\<close> (\<open>cmd/api/main.go\<close>, \<open>migrations/embed.go\<close>): the wiring by the environment and
    what the result answers to an HTTP request. \<open>Typing\<close>: what the types of the API promise.
    \<open>Server_Runs\<close>: the runs of the program, of which an HTTP request, a turn of a goroutine and
    a sweep are the steps.
  \<^item> \<open>Lifecycle\<close> (\<open>Run\<close> in \<open>enrich/worker.go\<close>, the end of \<open>main\<close>): the reconciler's goroutine,
    the cancellation, the wait for the goroutines, the signal and the shutdown. \<open>Shutdown\<close>: what
    they leave behind on Postgres and what a restart resumes. \<open>Defects\<close>:
    two ways the program loses work it promised.
  \<^item> This theory: the properties of the whole program.

  How the state corresponds to the code: a struct is a record with its fields, a map a partial
  map, a channel a list with its capacity, an interface value the record of its methods, a
  mutex-protected method one atomic operation. An operation takes the state and returns its
  result or error with the new state. A handler's state is a \<open>server\<close> (the store and whatever
  stands behind the enqueuer), a goroutine's position in \<open>process\<close> a \<open>job\<close>, the pool of them
  with the callers under way a \<open>pool\<close>, with the reconciler and the cancellation a \<open>run\<close>, with the phase
  of \<open>main\<close> a \<open>process_state\<close>; the wired program is an \<open>app\<close>, a request to it an \<open>http_request\<close>.

  What the lemmas show. Types: over every run stored and shown books are well-typed and a reply
  has the form of its operation and a status it lists, or 401, 403 or 500. Safety: users are
  isolated and a request changes its own book and at most one shared edition, on Postgres under
  every schedule of failed statements and lost replies; the server is never silently
  open; no ISBN is processed twice at once; an edition is announced only after its cover.
  Function: each handler, \<open>process\<close>, the queue, the HTTP client, the choice of an ISBN and the
  cache do what their closed forms say, errors included; both stores refine the catalogue and
  agree up to the precision of the clock. Liveness and bounds: the pool drains, \<open>Run\<close> can always
  come to its return after the cancellation and only ticks, requests and new calls of \<open>Enqueue\<close>
  can put it off, \<open>process\<close> takes at most five steps, a GET sends
  at most three requests and pauses at most a second, covers have at most 5 MiB, the search
  cache at most 256 entries. What fails is proved too: the sweep that starves, the title a
  PATCH freezes, the outage that reads as a missing record, the suggestion that is refused, the
  refresh and the cover that are lost.

  Bounds and fuel: there is no fuel. The retry loop terminates by the measure of the attempts
  left, decoding and the other recursions by the length of their input; the interleaved pool
  is a relation, and its progress is proved with the size of a pool as measure.

  What is a parameter: the Unicode case tables above ASCII, UUIDs and the clock (arguments of a
  request), the order in which a map is ranged over (any enumeration), the OIDC library, the
  JSON decoder, \<open>net/http\<close> (any function of a network state), the Postgres server (any schedule
  of replies over the modelled statements, and any effect of the migration scripts), the patterns of the documentation routes.

  Atomicity: the interleaved models are \<open>pool_step\<close>, \<open>run_step\<close> and \<open>process_step\<close>, where every
  store call, every critical section and every step of \<open>process\<close> moves alone; a whole request,
  a turn of a goroutine and a sweep are one step each in \<open>app_step\<close>. One call of \<open>Do\<close> is one
  request: the redirects \<open>net/http\<close> follows inside it are not counted.

  Not modelled: the decoding and encoding of JSON, the pages of the documentation and the OpenAPI
  document, which are the Huma library's (a body arrives as the fields it decodes to, a path
  outside the program's own routes is answered elsewhere); logging; the HTTP listener with its read
  and write timeouts, which is \<open>net/http\<close>'s; the length of time: a tick, a sweep, a signal or
  the end of the shutdown may come at any moment; data races of the Go memory model, since
  every shared structure is behind a mutex, a channel or the database.
\<close>

text \<open>
  C4: the invariant of the running program. From any valid backend whose covers are within the
  bound, whatever requests arrive with whatever headers, whatever the goroutines and the
  reconciler do in between, whatever upstream sends and whatever statements fail: the store
  stays valid, no stored cover is empty or larger than 5 MiB, the queue holds no ISBN twice
  and none that is not in flight, and the search cache holds at most 256 answers.
\<close>
theorem server_invariant:
  assumes "main U net J G X Getenv = Inr a" "backend_valid (app_store a)"
    and "covers_within 5242880 (backend_catalog (app_store a))"
    and "(app_step U)\<^sup>*\<^sup>* (a, n) (b, n')"
  shows "backend_valid (app_store b) \<and> covers_within 5242880 (backend_catalog (app_store b))
    \<and> enricher_ok (app_worker b) \<and> card (dom (cache (app_search b))) \<le> 256"
proof -
  have "app_ok b" using runs_ok [OF assms(4)] main_ok [OF assms(1-3)] by simp
  then show ?thesis by (simp add: app_ok_def cache_ok_def cacheMaxSize_def)
qed

text \<open>A program on the in-memory store, with an issuer that knows one token.\<close>

definition demo_env :: env where
  "demo_env k = (if k = ''OIDC_ISSUER'' then ''https://id.example'' else [])"

definition demo_outside :: outside where
  "demo_outside = \<lparr>connect = (\<lambda>dsn. Inl (Opaque ''refused'')),
     discover = (\<lambda>issuer. Inr (\<lambda>audience raw. if raw = ''good''
       then Inr \<lparr>tok_Subject = ''ann'', tok_Claims = Inr (''ann'', [])\<rparr> else Inl (Opaque ''bad token''))),
     exec_script = (\<lambda>sql d. (None, d)), migration_files = two_files\<rparr>"

definition demo :: "nat app" where
  "demo = projr (main plain_unicode (\<lambda>budget. gallery) gallery_json no_volumes demo_outside demo_env)"

lemma demo_starts:
  "main plain_unicode (\<lambda>budget. gallery) gallery_json no_volumes demo_outside demo_env = Inr demo"
  "app_store demo = InMemory NewMemoryStore"
  and demo_search: "cache (app_search demo) = newResultCache"
  by (simp_all add: demo_def main_def newStore_def demo_env_def newAuthMiddleware_def
      NewOIDCVerifier_def demo_outside_def NewSearchHandler_def Let_def)

text \<open>A scan of a book as it arrives over HTTP.\<close>

definition scan_request :: http_request where
  "scan_request = \<lparr>hr_Method = ''POST'', hr_Path = ''/books'', hr_Authorization = ''Bearer good'',
     hr_Body = Some \<lparr>j_isbn = Some ''978-2-07-036822-4'', j_title = None, j_author = None, j_status = None,
       j_rating = None, j_opinion = None, j_tags = None\<rparr>, hr_q = None, hr_limit = None\<rparr>"

definition at_noon :: circumstances where
  "at_noon = \<lparr>books_order = [], at_runtime = noon,
     at_moment = \<lparr>at_get = 1, at_sweep = 1, at_put = 1, range_order = []\<rparr>\<rparr>"

theorem server_invariant_witness:
  "let b = fst (snd (serve_http plain_unicode at_noon scan_request (demo, 0)))
   in backend_valid (app_store b) \<and> enricher_ok (app_worker b)"
proof -
  let ?bn = "snd (serve_http plain_unicode at_noon scan_request (demo, 0))"
  let ?b = "fst ?bn"
  have c: "backend_catalog (app_store demo) = empty_catalog" "backend_valid (app_store demo)"
    by (simp_all add: demo_starts(2) backend_catalog_def backend_valid_def)
  have "plausible at_noon demo" by (simp add: plausible_def c at_noon_def demo_search newResultCache_def enumerates_def empty_catalog_def)
  then have "app_step plain_unicode (demo, 0) ?bn" by (intro serving) simp
  then have "(app_step plain_unicode)\<^sup>*\<^sup>* (demo, 0) (?b, snd ?bn)" by (simp add: r_into_rtranclp)
  moreover have "covers_within 5242880 (backend_catalog (app_store demo))"
    by (simp add: c covers_within_def)
  ultimately have "backend_valid (app_store ?b) \<and> covers_within 5242880 (backend_catalog (app_store ?b))
      \<and> enricher_ok (app_worker ?b) \<and> card (dom (cache (app_search ?b))) \<le> 256"
    using c(2) by (intro server_invariant [OF demo_starts(1)])
  then show ?thesis by (simp add: Let_def)
qed

text \<open>A header the middleware refuses gets a request nowhere.\<close>

lemma serve_http_denied:
  assumes "app_auth a (hr_Authorization r) = Inl status"
  shows "fst (serve_http U cs r (a, n)) \<in> {Denied status, Health 200 ''ok'', Elsewhere}
    \<and> snd (serve_http U cs r (a, n)) = (a, n)"
proof (cases "dispatch routes (hr_Method r) (hr_Path r)")
  case (Some dv)
  then show ?thesis using dispatch_guarded [of "hr_Method r" "hr_Path r" "fst dv" "snd dv"] assms
    by (auto simp: serve_http_def split: prod.split)
qed (simp add: serve_http_def)

text \<open>
  C3: the server never starts silently open. If it starts without the development switch, an
  issuer is configured and was reached, and the middleware lets a header through exactly when
  it carries a bearer token the issuer's verifier accepts for the configured audience with the
  required group among its claims; the handler then sees the identity of that token. With any
  other header, whatever the method, the path and the body, a request is answered 401 or 403,
  is the health check, or has no route, and it changes nothing.
\<close>
theorem server_guarded:
  assumes "main U net J G X Getenv = Inr a" "Getenv ''AUTH_DISABLED'' \<noteq> ''true''"
  shows "\<exists>verifier. discover X (Getenv ''OIDC_ISSUER'') = Inr verifier \<and> Getenv ''OIDC_ISSUER'' \<noteq> []
    \<and> (\<forall>header ctx. app_auth a header = Inr ctx \<longleftrightarrow> snd (parseBearer header)
        \<and> (\<exists>i. authorised (verifier (Getenv ''OIDC_AUDIENCE'')) (Getenv ''OIDC_REQUIRED_GROUP'')
              (fst (parseBearer header)) i \<and> ctx = Some i))
    \<and> {r. isl (app_auth a (hr_Authorization r))}
        \<subseteq> {r. fst (serve_http U cs r (a, n)) \<in> {Denied 401, Denied 403, Health 200 ''ok'', Elsewhere}
              \<and> snd (serve_http U cs r (a, n)) = (a, n)}"
proof -
  obtain verifier where v: "discover X (Getenv ''OIDC_ISSUER'') = Inr verifier" "Getenv ''OIDC_ISSUER'' \<noteq> []"
    and auth: "app_auth a = (\<lambda>header. NewHumaMiddleware (Verify (verifier (Getenv ''OIDC_AUDIENCE''))
        (Getenv ''OIDC_REQUIRED_GROUP'')) header (\<lambda>ctx. ctx))"
    using assms by (auto simp: main_def newAuthMiddleware_def NewOIDCVerifier_def Let_def
        split: sum.splits if_splits)
  let ?v = "Verify (verifier (Getenv ''OIDC_AUDIENCE'')) (Getenv ''OIDC_REQUIRED_GROUP'')"
  have "app_auth a header = Inr ctx \<longleftrightarrow> snd (parseBearer header)
      \<and> (\<exists>i. ?v (fst (parseBearer header)) = (i, None) \<and> ctx = Some i)" for header ctx
    by (auto simp: auth NewHumaMiddleware_def ContextWithIdentity_def split: prod.split option.split)
  moreover have "isl (app_auth a header) \<Longrightarrow> \<exists>status \<in> {401, 403}. app_auth a header = Inl status" for header
    by (auto simp: auth NewHumaMiddleware_def split: prod.split option.split)
  then have "{r. isl (app_auth a (hr_Authorization r))}
        \<subseteq> {r. fst (serve_http U cs r (a, n)) \<in> {Denied 401, Denied 403, Health 200 ''ok'', Elsewhere}
              \<and> snd (serve_http U cs r (a, n)) = (a, n)}"
    using serve_http_denied by fastforce
  ultimately show ?thesis using v by (fastforce simp: Verify_accepts)
qed

theorem server_guarded_witness:
  "snd (serve_http plain_unicode at_noon (scan_request\<lparr>hr_Authorization := []\<rparr>) (demo, 0)) = (demo, 0)"
proof -
  let ?r = "scan_request\<lparr>hr_Authorization := []\<rparr>"
  have "demo_env ''AUTH_DISABLED'' \<noteq> ''true''" by (simp add: demo_env_def)
  note guarded = server_guarded [OF demo_starts(1) this, where cs = at_noon and n = 0]
  have "\<not> snd (parseBearer [])" by (simp add: parseBearer_def Let_def)
  then have "isl (app_auth demo (hr_Authorization ?r))" using guarded by (metis isl_def obj_sumE http_request.select_convs(3) http_request.update_convs(3) http_request.surjective)
  then show ?thesis using guarded by blast
qed

text \<open>
  C5: the types of the API hold of the running program. Over every run of the program from
  well-typed books, with any requests, interleaving, upstream answers and failures of the
  store, every stored book has a canonical ISBN, one of the three statuses, a rating from 0 to
  5 and an owner. The next request, whatever it is, is answered in one of these ways: it has no
  route of the program; it is the health check; the middleware refuses its header with 401 or
  403; its input is invalid; its handler fails, with a status of the table \<open>failure_statuses\<close>,
  which for each operation has the statuses its registration lists and beyond them only 401
  and 500, which no registration lists; or it gets the operation's success status with a
  response of its form, whose books are well-typed.
\<close>
theorem server_typed:
  assumes "main U net J G X Getenv = Inr a" "backend_valid (app_store a)"
    and "covers_within 5242880 (backend_catalog (app_store a))" "books_typed (backend_catalog (app_store a))"
    and "(app_step U)\<^sup>*\<^sup>* (a, n) (b, n')" "plausible cs b"
  shows "books_typed (backend_catalog (app_store b))
    \<and> reply_typed b r (dispatch routes (hr_Method r) (hr_Path r)) (fst (serve_http U cs r (b, n')))"
  using runs_typed [OF assms(5)] main_ok [OF assms(1-3)] assms(4,6) serve_http_typed [of "(b, n')" cs r U]
  by simp

theorem server_typed_witness:
  "reply_typed demo scan_request (dispatch routes ''POST'' ''/books'') (fst (serve_http plain_unicode at_noon scan_request (demo, 0)))"
proof -
  have c: "backend_catalog (app_store demo) = empty_catalog" "backend_valid (app_store demo)"
    by (simp_all add: demo_starts(2) backend_catalog_def backend_valid_def)
  have "covers_within 5242880 (backend_catalog (app_store demo))" "books_typed (backend_catalog (app_store demo))"
    by (simp_all add: c covers_within_def books_typed_def empty_catalog_def)
  moreover have "plausible at_noon demo"
    by (simp add: plausible_def c at_noon_def demo_search newResultCache_def enumerates_def empty_catalog_def)
  ultimately have "books_typed (backend_catalog (app_store demo))
      \<and> reply_typed demo scan_request (dispatch routes (hr_Method scan_request) (hr_Path scan_request))
          (fst (serve_http plain_unicode at_noon scan_request (demo, 0)))"
    by (intro server_typed [OF demo_starts(1) c(2), where n = 0]) simp_all
  then show ?thesis by (simp add: scan_request_def)
qed

text \<open>
  C23: the cover URL of a displayed book leads to its cover. GET of a book by its owner, on a
  healthy Postgres store, answers 200 with a book whose cover URL is empty when no cover of its
  ISBN is stored; otherwise a GET of that URL is routed back to that book and answers 200 with
  the stored image.
\<close>
theorem cover_url_leads_to_cover:
  assumes "app_store a = Postgres d" "pg_valid d" "pg_healthy d"
    and "app_auth a header = Inr ctx" "requireUser ctx = Inr u" "pg_text u"
    and "owned (pg_catalog d) u i = Some b" "uuid_text i"
  shows "\<exists>x an. serve_http U cs (getting (''/books/'' @ i) header) (a, n) = (Answer 200 (RBook x), an)
    \<and> (case cat_covers (pg_catalog d) (ISBN b) of
         None \<Rightarrow> CoverURL x = []
       | Some cv \<Rightarrow> fst (serve_http U cs' (getting (CoverURL x) header) an) = Answer 200 (RCover (cover_reply cv)))"
proof -
  have i: "pg_text i" using assms(8) by (rule uuid_accepted)
  let ?sv = "\<lparr>db = d, queue = app_worker a\<rparr>"
  have sv: "pg_valid (db ?sv)" "pg_healthy (db ?sv)" using assms(2,3) by simp_all
  obtain sv1 where g: "handle pg_repo enricher_Enqueue (books_order cs) (at_runtime cs) ctx (GetBook i) ?sv
      = (Inr (RBook (setCoverURL (reader_view (pg_catalog d) b))), sv1)"
      "pg_catalog (db sv1) = pg_catalog d" "queue sv1 = app_worker a" "pg_valid (db sv1)" "pg_healthy (db sv1)"
    using pg.get_outcome [OF sv assms(5,6) i, of enricher_Enqueue "books_order cs" "at_runtime cs"] assms(7)
    by (metis (no_types, lifting) option.case(2) server.select_convs)
  obtain sv2 where c: "handle pg_repo enricher_Enqueue (books_order cs') (at_runtime cs') ctx (GetCover i) sv1
      = (case cat_covers (pg_catalog d) (ISBN b) of
           None \<Rightarrow> Inl (error_404 ''cover not found'') | Some cv \<Rightarrow> Inr (RCover (cover_reply cv)), sv2)"
    using pg.cover_outcome [OF g(4,5) assms(5,6) i, of enricher_Enqueue "books_order cs'" "at_runtime cs'"] assms(7) g(2)
    by (metis (no_types, lifting) option.case(2))
  obtain row where row: "books_tbl d i = Some row" "pg_book_of row = b"
    using owned_SomeD [OF assms(7)] by auto
  have id: "ID b = i" and isbn: "ISBN b \<noteq> []"
    using pg_valid_row [OF assms(2) row(1)] row(2) by auto
  let ?x = "setCoverURL (reader_view (pg_catalog d) b)"
  let ?a1 = "a\<lparr>app_store := Postgres (db sv1), app_worker := queue sv1\<rparr>"
  have url: "CoverURL ?x = (case cat_covers (pg_catalog d) (ISBN b) of
      None \<Rightarrow> [] | Some cv \<Rightarrow> ''/books/'' @ i @ ''/cover'')"
    using reader_view_cover [OF pg.valid_wf [OF assms(2)] isbn] id
    by (simp add: setCoverURL_def split: option.split)
  have first: "serve_http U cs (getting (''/books/'' @ i) header) (a, n) = (Answer 200 (RBook ?x), (?a1, n))"
    using serve_get_book [OF assms(8), of "(a, n)"] assms(1,4) g(1)
    by (simp add: run_operation_def run_handler_def success_status_def get_operation_def book_operation_def)
  have eta: "\<lparr>db = db sv1, queue = queue sv1\<rparr> = sv1" by simp
  have second: "fst (serve_http U cs' (getting (''/books/'' @ i @ ''/cover'') header) (?a1, n))
      = Answer 200 (RCover (cover_reply cv))" if "cat_covers (pg_catalog d) (ISBN b) = Some cv" for cv
    using serve_get_cover [OF assms(8), of "(?a1, n)"] assms(4) c that
    by (auto simp: eta run_operation_def run_handler_def success_status_def cover_operation_def book_operation_def)
  show ?thesis using first second url by (intro exI conjI) (auto split: option.split)
qed

text \<open>The program on a Postgres store where bob's book has no cover yet.\<close>

definition bobs_app :: "nat app" where
  "bobs_app = demo\<lparr>app_store := Postgres bobs_db, app_auth := (\<lambda>header. Inr bob)\<rparr>"

theorem cover_url_leads_to_cover_witness:
  "\<exists>x an. serve_http plain_unicode at_noon (getting ''/books/b7'' []) (bobs_app, 0) = (Answer 200 (RBook x), an)
    \<and> CoverURL x = []"
proof -
  have "app_store bobs_app = Postgres bobs_db" "app_auth bobs_app [] = Inr bob" "requireUser bob = Inr ''bob''"
    "pg_text ''bob''" "uuid_text ''b7''"
    by (simp_all add: bobs_app_def requireUser_def FromContext_def bob_def pg_text_ascii uuid_text_def is_digit_def)
  then have "\<exists>x an. serve_http plain_unicode at_noon (getting (''/books/'' @ ''b7'') []) (bobs_app, 0) = (Answer 200 (RBook x), an)
    \<and> (case cat_covers (pg_catalog bobs_db) (ISBN (pg_book_of bobs_row)) of
         None \<Rightarrow> CoverURL x = []
       | Some cv \<Rightarrow> fst (serve_http plain_unicode at_noon (getting (CoverURL x) []) an) = Answer 200 (RCover (cover_reply cv)))"
    by (intro cover_url_leads_to_cover [where d = bobs_db and ctx = bob and u = "''bob''"]) simp_all
  then show ?thesis by simp
qed

end
